(* ===== verification/Prelude.thy ===== *)
theory Prelude
  imports Main "HOL-Library.Word"
begin

text \<open>
  Shared vocabulary of the development: machine types, the outcome of a kernel routine,
  sequencing of routines over an explicit state, arrays as functions on indices, and the
  generic lemmas and rule collections the component theories use.
\<close>

unbundle bit_operations_syntax

section \<open>Machine types\<close>

text \<open>The names of \<^verbatim>\<open>kernel/types.h\<close>. Plain \<^verbatim>\<open>char\<close> is unsigned in the RISC-V ABI.\<close>

type_synonym uchar = "8 word"
type_synonym ushort = "16 word"
type_synonym uint = "32 word"
type_synonym uint64 = "64 word"
type_synonym addr = "64 word"

text \<open>Byte-addressed memory.\<close>

type_synonym memory = "addr \<Rightarrow> uchar"

section \<open>Outcomes of kernel routines\<close>

text \<open>
  A routine returns a value and a new state, panics with the message of the source, goes to
  sleep (the routine is re-entered from the same point once it is woken), or never returns.
\<close>

datatype ('a, 's) outcome =
    Ret (ret_val: 'a) (ret_st: 's)
  | Panic (panic_msg: string)
  | Block
  | Hang

type_synonym ('s, 'a) kprog = "'s \<Rightarrow> ('a, 's) outcome"

definition kret :: "'a \<Rightarrow> ('s, 'a) kprog" where
  "kret x = (\<lambda>s. Ret x s)"

definition kbind :: "('s, 'a) kprog \<Rightarrow> ('a \<Rightarrow> ('s, 'b) kprog) \<Rightarrow> ('s, 'b) kprog" where
  "kbind m f = (\<lambda>s. case m s of Ret x s' \<Rightarrow> f x s' | Panic e \<Rightarrow> Panic e | Block \<Rightarrow> Block | Hang \<Rightarrow> Hang)"

definition kthen :: "('s, unit) kprog \<Rightarrow> ('s, 'b) kprog \<Rightarrow> ('s, 'b) kprog" where
  "kthen m n = kbind m (\<lambda>_. n)"

definition kget :: "('s \<Rightarrow> 'a) \<Rightarrow> ('s, 'a) kprog" where
  "kget f = (\<lambda>s. Ret (f s) s)"

definition kmod :: "('s \<Rightarrow> 's) \<Rightarrow> ('s, unit) kprog" where
  "kmod f = (\<lambda>s. Ret () (f s))"

definition kpanic :: "string \<Rightarrow> ('s, 'a) kprog" where
  "kpanic e = (\<lambda>_. Panic e)"

definition kblock :: "('s, 'a) kprog" where
  "kblock = (\<lambda>_. Block)"

named_theorems kprog_simps \<open>evaluation of the sequencing operators\<close>

lemma kret_apply [kprog_simps]: "kret x s = Ret x s"
  by (simp add: kret_def)

lemma kbind_apply [kprog_simps]:
  "kbind m f s = (case m s of Ret x s' \<Rightarrow> f x s' | Panic e \<Rightarrow> Panic e | Block \<Rightarrow> Block | Hang \<Rightarrow> Hang)"
  by (simp add: kbind_def)

lemma kthen_apply [kprog_simps]:
  "kthen m n s = (case m s of Ret x s' \<Rightarrow> n s' | Panic e \<Rightarrow> Panic e | Block \<Rightarrow> Block | Hang \<Rightarrow> Hang)"
  by (simp add: kthen_def kbind_def)

lemma kget_apply [kprog_simps]: "kget f s = Ret (f s) s"
  by (simp add: kget_def)

lemma kmod_apply [kprog_simps]: "kmod f s = Ret () (f s)"
  by (simp add: kmod_def)

lemma kpanic_apply [kprog_simps]: "kpanic e s = Panic e"
  by (simp add: kpanic_def)

lemma kblock_apply [kprog_simps]: "kblock s = Block"
  by (simp add: kblock_def)

lemma kbind_Ret_iff:
  "kbind m f s = Ret y t \<longleftrightarrow> (\<exists>x s'. m s = Ret x s' \<and> f x s' = Ret y t)"
  by (cases "m s") (auto simp: kbind_def)

lemma kthen_Ret_iff:
  "kthen m n s = Ret y t \<longleftrightarrow> (\<exists>x s'. m s = Ret x s' \<and> n s' = Ret y t)"
  by (simp add: kthen_def kbind_Ret_iff)

lemma kbind_assoc: "kbind (kbind m f) g = kbind m (\<lambda>x. kbind (f x) g)"
  by (rule ext) (simp add: kbind_def split: outcome.splits)

subsection \<open>Loops\<close>

text \<open>
  A C loop is a body on the loop's local variables that either goes round again (\<open>Inl\<close>, with
  the new locals) or leaves the loop with a result (\<open>Inr\<close>: \<^verbatim>\<open>break\<close>, \<^verbatim>\<open>return\<close> or a failed loop
  condition). A loop that goes round for ever is \<open>Hang\<close>.
\<close>

partial_function (option) kloop ::
  "('l \<Rightarrow> ('s, 'l + 'r) kprog) \<Rightarrow> 'l \<Rightarrow> 's \<Rightarrow> ('r, 's) outcome option" where
  "kloop body l s =
     (case body l s of
        Ret x s' \<Rightarrow> (case x of Inl l' \<Rightarrow> kloop body l' s' | Inr r \<Rightarrow> Some (Ret r s'))
      | Panic e \<Rightarrow> Some (Panic e) | Block \<Rightarrow> Some Block | Hang \<Rightarrow> Some Hang)"

definition kwhile :: "('l \<Rightarrow> ('s, 'l + 'r) kprog) \<Rightarrow> 'l \<Rightarrow> ('s, 'r) kprog" where
  "kwhile body l s = (case kloop body l s of None \<Rightarrow> Hang | Some x \<Rightarrow> x)"

lemma kwhile_unfold:
  "kwhile body l s =
     (case body l s of
        Ret x s' \<Rightarrow> (case x of Inl l' \<Rightarrow> kwhile body l' s' | Inr r \<Rightarrow> Ret r s')
      | Panic e \<Rightarrow> Panic e | Block \<Rightarrow> Block | Hang \<Rightarrow> Hang)"
  unfolding kwhile_def by (subst kloop.simps) (simp split: outcome.splits sum.splits)

text \<open>Total correctness of a loop: an invariant on locals and state, and a measure that every round decreases.\<close>

lemma kwhile_total:
  assumes "I l s"
    and step: "\<And>l s. I l s \<Longrightarrow>
      (\<exists>l' s'. body l s = Ret (Inl l') s' \<and> I l' s' \<and> (f l' s' :: nat) < f l s) \<or>
      (\<exists>r s'. body l s = Ret (Inr r) s' \<and> Q r s')"
  shows "\<exists>r s'. kwhile body l s = Ret r s' \<and> Q r s'"
  using assms(1)
proof (induction "f l s" arbitrary: l s rule: less_induct)
  case less
  from step [OF less.prems] show ?case
    by (subst kwhile_unfold) (auto intro: less.hyps)
qed

text \<open>\<^verbatim>\<open>for\<close> loops over a fixed range, without and with an early exit.\<close>

fun kfor :: "'i list \<Rightarrow> ('i \<Rightarrow> ('s, unit) kprog) \<Rightarrow> ('s, unit) kprog" where
  "kfor [] f = kret ()"
| "kfor (i # is) f = kthen (f i) (kfor is f)"

fun kscan :: "'i list \<Rightarrow> ('i \<Rightarrow> ('s, 'r option) kprog) \<Rightarrow> ('s, 'r option) kprog" where
  "kscan [] f = kret None"
| "kscan (i # is) f = kbind (f i) (\<lambda>r. case r of None \<Rightarrow> kscan is f | Some x \<Rightarrow> kret (Some x))"

lemma kfor_append: "kfor (is @ js) f s = kthen (kfor is f) (kfor js f) s"
  by (induction "is" arbitrary: s) (auto simp: kprog_simps split: outcome.splits)

subsection \<open>Total correctness\<close>

text \<open>\<open>returns m s Q\<close>: started in \<open>s\<close>, the routine returns, with a value and a state that satisfy \<open>Q\<close>.\<close>

definition returns :: "('s, 'a) kprog \<Rightarrow> 's \<Rightarrow> ('a \<Rightarrow> 's \<Rightarrow> bool) \<Rightarrow> bool" where
  "returns m s Q \<longleftrightarrow> (\<exists>x s'. m s = Ret x s' \<and> Q x s')"

named_theorems returns_simps \<open>decomposition of total-correctness goals along the sequencing operators\<close>

lemma returns_kbind [returns_simps]: "returns (kbind m f) s Q \<longleftrightarrow> returns m s (\<lambda>x s'. returns (f x) s' Q)"
  by (auto simp: returns_def kbind_Ret_iff)

lemma returns_kthen [returns_simps]: "returns (kthen m n) s Q \<longleftrightarrow> returns m s (\<lambda>_ s'. returns n s' Q)"
  by (auto simp: returns_def kthen_Ret_iff)

lemma returns_kret [returns_simps]: "returns (kret x) s Q \<longleftrightarrow> Q x s"
  by (simp add: returns_def kprog_simps)

lemma returns_kget [returns_simps]: "returns (kget f) s Q \<longleftrightarrow> Q (f s) s"
  by (simp add: returns_def kprog_simps)

lemma returns_kmod [returns_simps]: "returns (kmod g) s Q \<longleftrightarrow> Q () (g s)"
  by (simp add: returns_def kprog_simps)

lemma returns_eq: "m s = m' s \<Longrightarrow> returns m' s Q \<Longrightarrow> returns m s Q"
  by (simp add: returns_def)

lemma returns_mono: "returns m s P \<Longrightarrow> (\<And>x s'. P x s' \<Longrightarrow> Q x s') \<Longrightarrow> returns m s Q"
  by (auto simp: returns_def)

lemma returns_Ret: "m s = Ret x s' \<Longrightarrow> Q x s' \<Longrightarrow> returns m s Q"
  by (simp add: returns_def)

lemma returnsE: "returns m s Q \<Longrightarrow> (\<And>x s'. m s = Ret x s' \<Longrightarrow> Q x s' \<Longrightarrow> thesis) \<Longrightarrow> thesis"
  by (auto simp: returns_def)

lemma returns_kfor [returns_simps]:
  "returns (kfor [] f) s Q \<longleftrightarrow> Q () s"
  "returns (kfor (i # is) f) s Q \<longleftrightarrow> returns (f i) s (\<lambda>_ s'. returns (kfor is f) s' Q)"
  by (simp_all add: returns_simps)

lemma returns_kfor_upt:
  assumes "I m s" and "\<And>i s. m \<le> i \<Longrightarrow> i < n \<Longrightarrow> I i s \<Longrightarrow> returns (f i) s (\<lambda>_. I (Suc i))" and "m \<le> n"
  shows "returns (kfor [m ..< n] f) s (\<lambda>_. I n)"
  using assms(3,1,2)
proof (induction arbitrary: s rule: inc_induct)
  case base
  then show ?case by (simp add: returns_simps)
next
  case (step k)
  then have "[k ..< n] = k # [Suc k ..< n]" by (simp add: upt_conv_Cons)
  then show ?case using step by (auto simp: returns_simps intro: returns_mono)
qed

subsection \<open>What a routine leaves unchanged\<close>

text \<open>
  \<open>leaves o P\<close>: if the outcome \<open>o\<close> is a return, its state satisfies \<open>P\<close>. Used with \<open>P\<close> an invariant, or the frame condition that a part of the state is
  still what it was.
\<close>

definition leaves :: "('a, 's) outcome \<Rightarrow> ('s \<Rightarrow> bool) \<Rightarrow> bool" where
  "leaves o' P \<longleftrightarrow> (\<forall>x s'. o' = Ret x s' \<longrightarrow> P s')"

named_theorems leaves_intros \<open>rules for state predicates along the sequencing operators\<close>

lemma leaves_outcome [simp]: "leaves (Ret x s) P \<longleftrightarrow> P s" "leaves (Panic e) P" "leaves Block P" "leaves Hang P"
  by (simp_all add: leaves_def)

lemma leaves_basic [simp]: "leaves (kret x s) P \<longleftrightarrow> P s" "leaves (kpanic e s) P" "leaves (kblock s) P"
  by (simp_all add: kprog_simps)

lemma leaves_kget [simp]: "leaves (kget f s) P \<longleftrightarrow> P s"
  by (simp add: kprog_simps)

lemma leaves_kmod [simp]: "leaves (kmod g s) P \<longleftrightarrow> P (g s)"
  by (simp add: kprog_simps)

lemma leavesD: "leaves o' P \<Longrightarrow> o' = Ret x s' \<Longrightarrow> P s'"
  by (simp add: leaves_def)

lemma leaves_mono: "leaves o' P \<Longrightarrow> (\<And>s. P s \<Longrightarrow> Q s) \<Longrightarrow> leaves o' Q"
  by (simp add: leaves_def)

lemma leaves_kbind [leaves_intros]:
  assumes "leaves (m s) P" "\<And>x s'. P s' \<Longrightarrow> leaves (f x s') P"
  shows "leaves (kbind m f s) P"
  using assms by (auto simp: leaves_def kbind_Ret_iff)

lemma leaves_kthen [leaves_intros]:
  assumes "leaves (m s) P" "\<And>s'. P s' \<Longrightarrow> leaves (n s') P"
  shows "leaves (kthen m n s) P"
  using assms by (auto simp: leaves_def kthen_Ret_iff)

lemma leaves_if [leaves_intros]:
  "\<lbrakk>c \<Longrightarrow> leaves (m s) P; \<not> c \<Longrightarrow> leaves (n s) P\<rbrakk> \<Longrightarrow> leaves ((if c then m else n) s) P"
  by simp

lemma leaves_kwhile [leaves_intros]:
  fixes body :: "'l \<Rightarrow> ('s, 'l + 'r) kprog"
  assumes "P s" "\<And>l s. P s \<Longrightarrow> leaves (body l s) P"
  shows "leaves (kwhile body l s) P"
proof -
  have "(\<forall>l s. P s \<longrightarrow> leaves (body l s) P) \<longrightarrow> P s \<longrightarrow> leaves y P" if "kloop body l s = Some y" for y
    using that
  proof (rule kloop.raw_induct [where P = "\<lambda>body l s y. (\<forall>l s. P s \<longrightarrow> leaves (body l s) P) \<longrightarrow> P s \<longrightarrow> leaves y P", rotated])
    fix kl :: "('l \<Rightarrow> ('s, 'l + 'r) kprog) \<Rightarrow> 'l \<Rightarrow> 's \<Rightarrow> ('r, 's) outcome option" and body l s y
    assume IH: "\<And>body l s y. kl body l s = Some y \<Longrightarrow> (\<forall>l s. P s \<longrightarrow> leaves (body l s) P) \<longrightarrow> P s \<longrightarrow> leaves y P"
      and y: "(case body l s of Ret x s' \<Rightarrow> (case x of Inl l' \<Rightarrow> kl body l' s' | Inr r \<Rightarrow> Some (Ret r s'))
        | Panic e \<Rightarrow> Some (Panic e) | Block \<Rightarrow> Some Block | Hang \<Rightarrow> Some Hang) = Some y"
    show "(\<forall>l s. P s \<longrightarrow> leaves (body l s) P) \<longrightarrow> P s \<longrightarrow> leaves y P"
    proof (intro impI)
      assume b: "\<forall>l s. P s \<longrightarrow> leaves (body l s) P" and "P s"
      then have "leaves (body l s) P" by blast
      then show "leaves y P" using y IH [of body] b by (auto split: outcome.splits sum.splits)
    qed
  qed
  then show ?thesis using assms by (simp add: kwhile_def split: option.split)
qed

lemma leaves_kfor [leaves_intros]:
  assumes "P s" "\<And>i s. i \<in> set is \<Longrightarrow> P s \<Longrightarrow> leaves (f i s) P"
  shows "leaves (kfor is f s) P"
  using assms by (induction "is" arbitrary: s) (auto intro!: leaves_kthen)

lemma leaves_kscan [leaves_intros]:
  assumes "P s" "\<And>i s. P s \<Longrightarrow> leaves (f i s) P"
  shows "leaves (kscan is f s) P"
  using assms by (induction "is" arbitrary: s) (auto intro!: leaves_kbind split: option.split)

section \<open>Arrays as functions on indices\<close>

text \<open>
  A fixed-size C array is a function on indices. \<open>blit a k xs\<close> is the array after the bytes
  \<open>xs\<close> have been copied to position \<open>k\<close>; \<open>sub_array a k n\<close> reads \<open>n\<close> elements from position \<open>k\<close>.
\<close>

definition blit :: "(nat \<Rightarrow> 'a) \<Rightarrow> nat \<Rightarrow> 'a list \<Rightarrow> nat \<Rightarrow> 'a" where
  "blit a k xs = (\<lambda>j. if k \<le> j \<and> j < k + length xs then xs ! (j - k) else a j)"

definition sub_array :: "(nat \<Rightarrow> 'a) \<Rightarrow> nat \<Rightarrow> nat \<Rightarrow> 'a list" where
  "sub_array a k n = map a [k ..< k + n]"

lemma length_sub_array [simp]: "length (sub_array a k n) = n"
  by (simp add: sub_array_def)

lemma nth_sub_array [simp]: "j < n \<Longrightarrow> sub_array a k n ! j = a (k + j)"
  by (simp add: sub_array_def)

lemma sub_array_0 [simp]: "sub_array a k 0 = []"
  by (simp add: sub_array_def)

lemma sub_array_append: "sub_array a k (m + n) = sub_array a k m @ sub_array a (k + m) n"
proof -
  have "[k ..< k + (m + n)] = [k ..< k + m] @ [k + m ..< k + m + n]"
    using upt_add_eq_append [of k "k + m" n] by (simp add: add.assoc)
  then show ?thesis by (simp add: sub_array_def)
qed

lemma sub_array_blit_same: "sub_array (blit a k xs) k (length xs) = xs"
  by (rule nth_equalityI) (auto simp: blit_def)

lemma sub_array_blit_before: "j + n \<le> k \<Longrightarrow> sub_array (blit a k xs) j n = sub_array a j n"
  by (rule nth_equalityI) (auto simp: blit_def)

lemma sub_array_blit_after: "k + length xs \<le> j \<Longrightarrow> sub_array (blit a k xs) j n = sub_array a j n"
  by (rule nth_equalityI) (auto simp: blit_def)

lemma sub_array_blit_append: "sub_array (blit a k xs) 0 (k + length xs) = sub_array a 0 k @ xs"
  by (simp add: sub_array_append sub_array_blit_before sub_array_blit_same)

lemma blit_Nil [simp]: "blit a k [] = a"
  unfolding blit_def by (rule ext) (use leD in auto)

section \<open>Integers of C\<close>

lemma unat_64: "unat (x :: 64 word) < 18446744073709551616"
  using unsigned_less [where w = x] by simp

lemma unat_32: "unat (x :: 32 word) < 4294967296"
  using unsigned_less [where w = x] by simp

lemma of_nat_unat_word [simp]: "of_nat (unat x) = (x :: 'a::len word)"
  by (simp add: word_unat_eq_iff unat_of_nat)

lemma unat_ucast_32_64 [simp]: "unat (ucast (x :: 32 word) :: 64 word) = unat x"
  using unat_32 [of x] by (simp add: unsigned_ucast_eq take_bit_nat_eq_self)

lemma unat_of_nat_64: "n < 2 ^ 64 \<Longrightarrow> unat (of_nat n :: 64 word) = n"
  by (simp add: unat_of_nat)

lemma unat_of_nat_32: "n < 2 ^ 32 \<Longrightarrow> unat (of_nat n :: 32 word) = n"
  by (simp add: unat_of_nat)

text \<open>
  Division of \<^verbatim>\<open>int\<close> truncates towards zero. For a zero divisor C leaves the result open; the
  \<^verbatim>\<open>divw\<close> instruction the kernel is compiled to gives all ones.
\<close>

definition c_div :: "int \<Rightarrow> int \<Rightarrow> int" where
  "c_div a b = (if b = 0 then -1 else sgn a * sgn b * (\<bar>a\<bar> div \<bar>b\<bar>))"

lemma c_div_nonneg: "0 \<le> a \<Longrightarrow> 0 < b \<Longrightarrow> c_div a b = a div b"
  by (cases "a = 0") (auto simp: c_div_def)

section \<open>Little-endian integers\<close>

text \<open>An integer of \<open>n\<close> bytes read from, or stored to, position \<open>k\<close> of a byte array.\<close>

fun le_get :: "nat \<Rightarrow> (nat \<Rightarrow> uchar) \<Rightarrow> nat \<Rightarrow> 'a::len word" where
  "le_get 0 d k = 0"
| "le_get (Suc n) d k = ucast (d k) OR push_bit 8 (le_get n d (Suc k))"

definition le_put :: "nat \<Rightarrow> nat \<Rightarrow> 'a::len word \<Rightarrow> (nat \<Rightarrow> uchar) \<Rightarrow> nat \<Rightarrow> uchar" where
  "le_put n k v d = (\<lambda>j. if k \<le> j \<and> j < k + n then ucast (drop_bit (8 * (j - k)) v) else d j)"

lemma bit_le_get:
  "bit (le_get n d k :: 'a::len word) j \<longleftrightarrow>
     j < LENGTH('a) \<and> j div 8 < n \<and> bit (d (k + j div 8)) (j mod 8)"
proof (induction n arbitrary: k j)
  case 0
  then show ?case by simp
next
  case (Suc n)
  show ?case
  proof (cases "j < 8")
    case True
    then show ?thesis by (auto simp: bit_simps)
  next
    case False
    then have "j div 8 = Suc ((j - 8) div 8)" and "(j - 8) mod 8 = j mod 8"
      by (simp_all add: le_div_geq le_mod_geq not_less)
    moreover have "\<not> bit (ucast (d k) :: 'a word) j"
      using False by (auto simp: bit_simps dest: bit_imp_le_length)
    ultimately show ?thesis using False by (auto simp: bit_simps Suc)
  qed
qed

lemma le_get_put [simp]: "LENGTH('a) = 8 * n \<Longrightarrow> le_get n (le_put n k (v :: 'a::len word) d) k = v"
proof (rule bit_word_eqI)
  fix j
  assume len: "LENGTH('a) = 8 * n" and "j < LENGTH('a)"
  then have "j div 8 < n" by (simp add: less_mult_imp_div_less mult.commute)
  with \<open>j < LENGTH('a)\<close> show "bit (le_get n (le_put n k v d) k :: 'a word) j \<longleftrightarrow> bit v j"
    by (simp add: bit_le_get le_put_def bit_simps)
qed

lemma le_get_cong:
  "(\<And>i. i < n \<Longrightarrow> d (k + i) = d' (k + i)) \<Longrightarrow> le_get n d k = le_get n d' k"
  by (rule bit_word_eqI) (auto simp: bit_le_get)

lemma le_get_put_other:
  "j + m \<le> k \<or> k + n \<le> j \<Longrightarrow> le_get m (le_put n k v d) j = le_get m d j"
  by (rule le_get_cong) (auto simp: le_put_def)

abbreviation get16 :: "(nat \<Rightarrow> uchar) \<Rightarrow> nat \<Rightarrow> ushort" where "get16 \<equiv> le_get 2"
abbreviation get32 :: "(nat \<Rightarrow> uchar) \<Rightarrow> nat \<Rightarrow> uint" where "get32 \<equiv> le_get 4"
abbreviation put16 :: "nat \<Rightarrow> ushort \<Rightarrow> (nat \<Rightarrow> uchar) \<Rightarrow> nat \<Rightarrow> uchar" where "put16 \<equiv> le_put 2"
abbreviation put32 :: "nat \<Rightarrow> uint \<Rightarrow> (nat \<Rightarrow> uchar) \<Rightarrow> nat \<Rightarrow> uchar" where "put32 \<equiv> le_put 4"

text \<open>64-bit loads and stores in memory.\<close>

definition read64 :: "memory \<Rightarrow> addr \<Rightarrow> uint64" where
  "read64 m a = le_get 8 (\<lambda>i. m (a + of_nat i)) 0"

definition write64 :: "addr \<Rightarrow> uint64 \<Rightarrow> memory \<Rightarrow> memory" where
  "write64 a v m = (\<lambda>b. if unat (b - a) < 8 then ucast (drop_bit (8 * unat (b - a)) v) else m b)"

lemma read64_write64 [simp]: "read64 (write64 a v m) a = v"
proof -
  have "read64 (write64 a v m) a = le_get 8 (le_put 8 0 v (\<lambda>i. m (a + of_nat i))) 0"
    unfolding read64_def
    by (rule le_get_cong) (simp add: write64_def le_put_def unat_of_nat)
  then show ?thesis by simp
qed

lemma write64_other: "8 \<le> unat (b - a) \<Longrightarrow> write64 a v m b = m b"
  by (simp add: write64_def)

lemma read64_cong:
  "(\<And>i. i < 8 \<Longrightarrow> m (a + of_nat i) = m' (a + of_nat i)) \<Longrightarrow> read64 m a = read64 m' a"
  unfolding read64_def by (rule le_get_cong) simp

lemma find_filter: "List.find P xs = (case filter P xs of [] \<Rightarrow> None | x # _ \<Rightarrow> Some x)"
  by (induction xs) auto

lemma filter_rest:
  assumes "distinct xs" "filter P xs = x # ys"
  shows "filter (P(x := False)) xs = ys" "x \<notin> set ys"
proof -
  have "distinct (x # ys)" using distinct_filter [OF assms(1), of P] assms(2) by simp
  then show x: "x \<notin> set ys" by simp
  have "filter (P(x := False)) xs = filter (\<lambda>y. y \<noteq> x) (filter P xs)" unfolding filter_filter by (rule filter_cong) auto
  then show "filter (P(x := False)) xs = ys" using x by (auto simp: assms(2) intro: filter_True)
qed

end
