(* ===== verification/Spinlock.thy ===== *)
theory Spinlock
  imports Prelude
begin

text \<open>
  Spin locks, \<^verbatim>\<open>kernel/spinlock.c\<close>, on several CPUs. A lock is named by its number. The other theories treat what a lock
  protects as one step; here are the locks themselves, with the atomic swap, the recording of the owner and the release as
  separate steps that the CPUs interleave.
\<close>

record spinlock =
  locked :: bool
  lk_cpu :: "nat option"

record cpu =
  noff :: int
  intena :: bool
  sie :: bool

record lock_st =
  cpus :: "nat \<Rightarrow> cpu"
  locks :: "nat \<Rightarrow> spinlock"

definition upd_cpu :: "nat \<Rightarrow> (cpu \<Rightarrow> cpu) \<Rightarrow> lock_st \<Rightarrow> lock_st" where
  "upd_cpu c f s = s\<lparr>cpus := (cpus s)(c := f (cpus s c))\<rparr>"

definition upd_lock :: "nat \<Rightarrow> (spinlock \<Rightarrow> spinlock) \<Rightarrow> lock_st \<Rightarrow> lock_st" where
  "upd_lock l f s = s\<lparr>locks := (locks s)(l := f (locks s l))\<rparr>"

section \<open>Operations\<close>

definition initlock :: "nat \<Rightarrow> lock_st \<Rightarrow> lock_st" where
  "initlock l = upd_lock l (\<lambda>x. x\<lparr>locked := False, lk_cpu := None\<rparr>)"

definition holding :: "nat \<Rightarrow> nat \<Rightarrow> lock_st \<Rightarrow> bool" where
  "holding c l s = (locked (locks s l) \<and> lk_cpu (locks s l) = Some c)"

text \<open>\<^verbatim>\<open>intr_get\<close>, \<^verbatim>\<open>intr_off\<close> and \<^verbatim>\<open>intr_on\<close> read and write the interrupt-enable bit \<open>sie\<close> of the CPU.\<close>

definition push_off :: "nat \<Rightarrow> lock_st \<Rightarrow> lock_st" where
  "push_off c = upd_cpu c (\<lambda>x.
     x\<lparr>sie := False, intena := (if noff x = 0 then sie x else intena x), noff := noff x + 1\<rparr>)"

definition pop_off :: "nat \<Rightarrow> (lock_st, unit) kprog" where
  "pop_off c = (\<lambda>s.
     if sie (cpus s c) then Panic ''pop_off - interruptible''
     else if noff (cpus s c) < 1 then Panic ''pop_off''
     else Ret () (upd_cpu c (\<lambda>x. x\<lparr>noff := noff x - 1, sie := noff x = 1 \<and> intena x\<rparr>) s))"

text \<open>\<^verbatim>\<open>acquire\<close>: up to the loop, one turn of the loop with the atomic swap, and the recording of the owner.\<close>

definition acquire_enter :: "nat \<Rightarrow> nat \<Rightarrow> (lock_st, unit) kprog" where
  "acquire_enter c l = kthen (kmod (push_off c)) (\<lambda>s. if holding c l s then Panic ''acquire'' else Ret () s)"

definition acquire_swap :: "nat \<Rightarrow> (lock_st, bool) kprog" where
  "acquire_swap l = (\<lambda>s. Ret (\<not> locked (locks s l)) (upd_lock l (\<lambda>x. x\<lparr>locked := True\<rparr>) s))"

definition acquire_record :: "nat \<Rightarrow> nat \<Rightarrow> lock_st \<Rightarrow> lock_st" where
  "acquire_record c l = upd_lock l (\<lambda>x. x\<lparr>lk_cpu := Some c\<rparr>)"

text \<open>\<^verbatim>\<open>release\<close>: the check and the clearing of the owner, then the atomic store and \<^verbatim>\<open>pop_off\<close>.\<close>

definition release_enter :: "nat \<Rightarrow> nat \<Rightarrow> (lock_st, unit) kprog" where
  "release_enter c l = (\<lambda>s.
     if \<not> holding c l s then Panic ''release'' else Ret () (upd_lock l (\<lambda>x. x\<lparr>lk_cpu := None\<rparr>) s))"

definition release_store :: "nat \<Rightarrow> nat \<Rightarrow> (lock_st, unit) kprog" where
  "release_store c l = kthen (kmod (upd_lock l (\<lambda>x. x\<lparr>locked := False\<rparr>))) (pop_off c)"

text \<open>On one CPU with no contention, the whole calls.\<close>

definition acquire :: "nat \<Rightarrow> nat \<Rightarrow> (lock_st, unit) kprog" where
  "acquire c l = kthen (acquire_enter c l)
     (kbind (acquire_swap l) (\<lambda>ok. if ok then kmod (acquire_record c l) else (\<lambda>_. Hang)))"

definition release :: "nat \<Rightarrow> nat \<Rightarrow> (lock_st, unit) kprog" where
  "release c l = kthen (release_enter c l) (release_store c l)"

section \<open>Interleavings\<close>

text \<open>
  Where a CPU is with respect to the locks: which it holds, and whether it is inside a call. \<open>Claimed\<close> is after the swap that
  took the lock, \<open>Leaving\<close> after the owner was cleared. A CPU calls \<^verbatim>\<open>release\<close> only for a lock it holds.
\<close>

datatype phase = Running | Spinning nat | Claimed nat | Leaving nat

record sys =
  mach :: lock_st
  phase :: "nat \<Rightarrow> phase"
  held :: "nat \<Rightarrow> nat list"

inductive lock_step :: "sys \<Rightarrow> sys \<Rightarrow> bool" where
  call: "\<lbrakk>phase t c = Running; l \<notin> set (held t c); acquire_enter c l (mach t) = Ret () s\<rbrakk> \<Longrightarrow>
    lock_step t (t\<lparr>mach := s, phase := (phase t)(c := Spinning l)\<rparr>)"
| swap: "\<lbrakk>phase t c = Spinning l; acquire_swap l (mach t) = Ret ok s\<rbrakk> \<Longrightarrow>
    lock_step t (t\<lparr>mach := s, phase := (phase t)(c := if ok then Claimed l else Spinning l)\<rparr>)"
| record_owner: "phase t c = Claimed l \<Longrightarrow>
    lock_step t (t\<lparr>mach := acquire_record c l (mach t), phase := (phase t)(c := Running), held := (held t)(c := l # held t c)\<rparr>)"
| leave: "\<lbrakk>phase t c = Running; l \<in> set (held t c); release_enter c l (mach t) = Ret () s\<rbrakk> \<Longrightarrow>
    lock_step t (t\<lparr>mach := s, phase := (phase t)(c := Leaving l), held := (held t)(c := remove1 l (held t c))\<rparr>)"
| store: "\<lbrakk>phase t c = Leaving l; release_store c l (mach t) = Ret () s\<rbrakk> \<Longrightarrow>
    lock_step t (t\<lparr>mach := s, phase := (phase t)(c := Running)\<rparr>)"

text \<open>A CPU owns a lock from the successful swap to the store that releases it.\<close>

definition owns :: "sys \<Rightarrow> nat \<Rightarrow> nat \<Rightarrow> bool" where
  "owns t c l = (l \<in> set (held t c) \<or> phase t c = Claimed l \<or> phase t c = Leaving l)"

text \<open>How many \<^verbatim>\<open>push_off\<close> calls of a CPU are not yet undone.\<close>

definition depth :: "sys \<Rightarrow> nat \<Rightarrow> nat" where
  "depth t c = length (held t c) + (if phase t c = Running then 0 else 1)"

text \<open>
  The invariant: a lock is taken exactly if some CPU owns it, only one does, and the owner it records is the CPU that holds it.
\<close>

definition own_inv :: "sys \<Rightarrow> bool" where
  "own_inv t \<longleftrightarrow>
     (\<forall>l. locked (locks (mach t) l) \<longleftrightarrow> (\<exists>c. owns t c l)) \<and>
     (\<forall>l c c'. owns t c l \<longrightarrow> owns t c' l \<longrightarrow> c = c') \<and>
     (\<forall>l c. lk_cpu (locks (mach t) l) = Some c \<longleftrightarrow> l \<in> set (held t c)) \<and>
     (\<forall>c l. phase t c \<in> {Spinning l, Claimed l, Leaving l} \<longrightarrow> l \<notin> set (held t c)) \<and>
     (\<forall>c. distinct (held t c))"

text \<open>
  The nesting of \<^verbatim>\<open>push_off\<close>: interrupts are off while a CPU is inside a call or holds a lock, and otherwise as \<open>ints\<close> says.
\<close>

definition cpu_ok :: "bool \<Rightarrow> cpu \<Rightarrow> nat \<Rightarrow> bool" where
  "cpu_ok i x d \<longleftrightarrow> noff x = int d \<and> sie x = (d = 0 \<and> i) \<and> (0 < d \<longrightarrow> intena x = i)"

definition off_inv :: "(nat \<Rightarrow> bool) \<Rightarrow> sys \<Rightarrow> bool" where
  "off_inv ints t \<longleftrightarrow> (\<forall>c. cpu_ok (ints c) (cpus (mach t) c) (depth t c))"

lemma cpu_ok_push: "cpu_ok i (cpus s c) d \<Longrightarrow> cpu_ok i (cpus (push_off c s) c) (Suc d)"
  by (auto simp: cpu_ok_def push_off_def upd_cpu_def)

lemma cpu_ok_pop: "\<lbrakk>cpu_ok i (cpus s c) (Suc d); pop_off c s = Ret () s'\<rbrakk> \<Longrightarrow> cpu_ok i (cpus s' c) d"
  by (auto simp: cpu_ok_def pop_off_def upd_cpu_def split: if_splits)

lemma push_pop_others:
  "d \<noteq> c \<Longrightarrow> cpus (push_off c s) d = cpus s d" "\<lbrakk>d \<noteq> c; pop_off c s = Ret () s'\<rbrakk> \<Longrightarrow> cpus s' d = cpus s d"
  by (auto simp: push_off_def pop_off_def upd_cpu_def split: if_splits)

definition lock_start :: "sys \<Rightarrow> bool" where
  "lock_start t \<longleftrightarrow> (\<forall>l. locks (mach t) l = \<lparr>locked = False, lk_cpu = None\<rparr>) \<and>
     (\<forall>c. phase t c = Running \<and> held t c = [] \<and> noff (cpus (mach t) c) = 0)"

lemma lock_inv_start: "lock_start t \<Longrightarrow> own_inv t" "lock_start t \<Longrightarrow> off_inv (\<lambda>c. sie (cpus (mach t) c)) t"
  by (simp_all add: lock_start_def own_inv_def off_inv_def cpu_ok_def owns_def depth_def)

lemmas lock_defs = acquire_enter_def acquire_swap_def acquire_record_def release_enter_def release_store_def push_off_def pop_off_def
  holding_def upd_cpu_def upd_lock_def kprog_simps

text \<open>Who owns what after each step.\<close>

lemma owns_call: "phase t c = Running \<Longrightarrow> owns (t\<lparr>mach := s, phase := (phase t)(c := Spinning l)\<rparr>) = owns t"
  by (auto simp: owns_def fun_eq_iff)

lemma owns_swap: "phase t c = Spinning l \<Longrightarrow>
    owns (t\<lparr>mach := s, phase := (phase t)(c := Claimed l)\<rparr>) d k = (owns t d k \<or> d = c \<and> k = l)"
  by (auto simp: owns_def)

lemma owns_record: "phase t c = Claimed l \<Longrightarrow>
    owns (t\<lparr>mach := s, phase := (phase t)(c := Running), held := (held t)(c := l # held t c)\<rparr>) = owns t"
  by (auto simp: owns_def fun_eq_iff)

lemma owns_leave: "\<lbrakk>phase t c = Running; l \<in> set (held t c); distinct (held t c)\<rbrakk> \<Longrightarrow>
    owns (t\<lparr>mach := s, phase := (phase t)(c := Leaving l), held := (held t)(c := remove1 l (held t c))\<rparr>) = owns t"
  by (auto simp: owns_def fun_eq_iff)

lemma owns_store: "\<lbrakk>phase t c = Leaving l; l \<notin> set (held t c)\<rbrakk> \<Longrightarrow>
    owns (t\<lparr>mach := s, phase := (phase t)(c := Running)\<rparr>) d k = (owns t d k \<and> \<not> (d = c \<and> k = l))"
  by (auto simp: owns_def)

lemma own_inv_call:
  assumes "own_inv t" "phase t c = Running" "l \<notin> set (held t c)" "acquire_enter c l (mach t) = Ret () s"
  shows "own_inv (t\<lparr>mach := s, phase := (phase t)(c := Spinning l)\<rparr>)"
  using assms by (auto simp: own_inv_def owns_call lock_defs split: if_splits)

lemma own_inv_cong: "\<lbrakk>locks (mach t') = locks (mach t); phase t' = phase t; held t' = held t\<rbrakk> \<Longrightarrow> own_inv t' = own_inv t"
  by (simp add: own_inv_def owns_def)

lemma own_inv_swap:
  assumes "own_inv t" "phase t c = Spinning l" "acquire_swap l (mach t) = Ret ok s"
  shows "own_inv (t\<lparr>mach := s, phase := (phase t)(c := if ok then Claimed l else Spinning l)\<rparr>)"
proof (cases "locked (locks (mach t) l)")
  case True
  with assms(3) have "\<not> ok" "locks s = locks (mach t)" by (auto simp: lock_defs fun_eq_iff)
  moreover have "(phase t)(c := Spinning l) = phase t" using assms(2) by auto
  ultimately show ?thesis using assms(1) own_inv_cong [of "t\<lparr>mach := s\<rparr>" t] by simp
next
  case False
  with assms(3) have ok: ok and s: "s = upd_lock l (\<lambda>x. x\<lparr>locked := True\<rparr>) (mach t)" by (auto simp: acquire_swap_def)
  have "\<not> owns t d l" for d using False assms(1) by (simp add: own_inv_def)
  then have "own_inv (t\<lparr>mach := s, phase := (phase t)(c := Claimed l)\<rparr>)"
    using assms(1,2) unfolding own_inv_def owns_swap [OF assms(2)] s by (auto simp: upd_lock_def)
  then show ?thesis by (simp only: ok if_True)
qed

lemma own_inv_record:
  assumes "own_inv t" "phase t c = Claimed l"
  shows "own_inv (t\<lparr>mach := acquire_record c l (mach t), phase := (phase t)(c := Running), held := (held t)(c := l # held t c)\<rparr>)"
proof -
  have "owns t c l" using assms(2) by (simp add: owns_def)
  moreover have l: "l \<notin> set (held t c)" using assms unfolding own_inv_def by blast
  ultimately have n: "l \<notin> set (held t d)" for d
    using assms(1) unfolding own_inv_def owns_def by metis
  have lk: "locks (acquire_record c l (mach t)) = (locks (mach t))(l := (locks (mach t) l)\<lparr>lk_cpu := Some c\<rparr>)"
    by (simp add: acquire_record_def upd_lock_def)
  have "\<forall>k d. lk_cpu (locks (acquire_record c l (mach t)) k) = Some d \<longleftrightarrow> k \<in> set (((held t)(c := l # held t c)) d)"
    using assms(1) n unfolding own_inv_def lk by auto
  then show ?thesis
    using assms(1) l unfolding own_inv_def owns_record [OF assms(2)] by (simp add: lk)
qed

lemma own_inv_leave:
  assumes "own_inv t" "phase t c = Running" "l \<in> set (held t c)" "release_enter c l (mach t) = Ret () s"
  shows "own_inv (t\<lparr>mach := s, phase := (phase t)(c := Leaving l), held := (held t)(c := remove1 l (held t c))\<rparr>)"
proof -
  have d: "distinct (held t c)" using assms(1) by (simp add: own_inv_def)
  have lk: "locks s = (locks (mach t))(l := (locks (mach t) l)\<lparr>lk_cpu := None\<rparr>)"
    using assms(4) by (auto simp: release_enter_def upd_lock_def split: if_splits)
  have h: "lk_cpu (locks (mach t) k) = Some e \<longleftrightarrow> k \<in> set (held t e)" for k e using assms(1) by (simp add: own_inv_def)
  have "e = c" if "l \<in> set (held t e)" for e using h [of l e] h [of l c] that assms(3) by simp
  then have "\<forall>k e. lk_cpu (locks s k) = Some e \<longleftrightarrow> k \<in> set (((held t)(c := remove1 l (held t c))) e)"
    using h d by (auto simp: lk)
  then show ?thesis
    using assms(1,2) d unfolding own_inv_def owns_leave [OF assms(2,3) d] by (simp add: lk)
qed

lemma own_inv_store:
  assumes "own_inv t" "phase t c = Leaving l" "release_store c l (mach t) = Ret () s"
  shows "own_inv (t\<lparr>mach := s, phase := (phase t)(c := Running)\<rparr>)"
proof -
  have l: "l \<notin> set (held t c)" using assms(1,2) unfolding own_inv_def by blast
  have s: "locks s = (locks (mach t))(l := (locks (mach t) l)\<lparr>locked := False\<rparr>)"
    using assms(3) by (auto simp: release_store_def pop_off_def upd_lock_def upd_cpu_def kprog_simps split: if_splits)
  have "owns t c l" using assms(2) by (simp add: owns_def)
  then show ?thesis
    using assms(1,2) s unfolding own_inv_def owns_store [OF assms(2) l] by auto
qed

lemma off_inv_frame:
  assumes "off_inv ints t" "\<And>d. d \<noteq> c \<Longrightarrow> cpus (mach t') d = cpus (mach t) d \<and> held t' d = held t d \<and> phase t' d = phase t d"
    "cpu_ok (ints c) (cpus (mach t') c) (depth t' c)"
  shows "off_inv ints t'"
  unfolding off_inv_def
proof
  fix d
  show "cpu_ok (ints d) (cpus (mach t') d) (depth t' d)"
    using assms by (cases "d = c") (auto simp: off_inv_def depth_def)
qed

lemma off_invD:
  assumes "off_inv ints t"
  shows "phase t c = Running \<Longrightarrow> cpu_ok (ints c) (cpus (mach t) c) (length (held t c))"
    "phase t c \<noteq> Running \<Longrightarrow> cpu_ok (ints c) (cpus (mach t) c) (Suc (length (held t c)))"
  using assms [unfolded off_inv_def, rule_format, of c] by (simp_all add: depth_def)

lemma off_inv_step:
  assumes "lock_step t t'" "off_inv ints t"
  shows "off_inv ints t'"
  using assms(1)
proof cases
  case (call c l s)
  then have s: "s = push_off c (mach t)" by (auto simp: acquire_enter_def kprog_simps split: if_splits)
  have "cpu_ok (ints c) (cpus (mach t) c) (length (held t c))" using off_invD(1) [OF assms(2) call(2)] .
  from cpu_ok_push [OF this] show ?thesis
    using call s by (intro off_inv_frame [OF assms(2), of c]) (simp_all add: depth_def push_pop_others)
next
  case (swap c l ok s)
  have "cpu_ok (ints c) (cpus (mach t) c) (Suc (length (held t c)))" using off_invD(2) [OF assms(2)] swap(2) by simp
  moreover have "cpus s = cpus (mach t)" using swap(3) by (auto simp: acquire_swap_def upd_lock_def)
  ultimately show ?thesis
    using swap(1) by (intro off_inv_frame [OF assms(2), of c]) (simp_all add: depth_def)
next
  case (record_owner c l)
  have "cpu_ok (ints c) (cpus (mach t) c) (Suc (length (held t c)))" using off_invD(2) [OF assms(2)] record_owner(2) by simp
  with record_owner show ?thesis
    by (intro off_inv_frame [OF assms(2), of c]) (simp_all add: depth_def acquire_record_def upd_lock_def)
next
  case (leave c l s)
  then have "length (held t c) = Suc (length (remove1 l (held t c)))"
    using Suc_pred [OF length_pos_if_in_set [OF leave(3)]] by (simp add: length_remove1)
  moreover have "cpu_ok (ints c) (cpus (mach t) c) (length (held t c))" using off_invD(1) [OF assms(2) leave(2)] .
  moreover have "cpus s = cpus (mach t)" using leave(4) by (auto simp: release_enter_def upd_lock_def split: if_splits)
  ultimately show ?thesis
    using leave(1) by (intro off_inv_frame [OF assms(2), of c]) (simp_all add: depth_def)
next
  case (store c l s)
  let ?m = "upd_lock l (\<lambda>x. x\<lparr>locked := False\<rparr>) (mach t)"
  have p: "pop_off c ?m = Ret () s" using store(3) by (simp add: release_store_def kprog_simps)
  have m: "cpus ?m = cpus (mach t)" by (simp add: upd_lock_def)
  have "cpu_ok (ints c) (cpus ?m c) (Suc (length (held t c)))" using off_invD(2) [OF assms(2)] store(2) m by simp
  from cpu_ok_pop [OF this p] show ?thesis
    using store push_pop_others(2) [OF _ p] m by (intro off_inv_frame [OF assms(2), of c]) (simp_all add: depth_def)
qed

lemma own_inv_step:
  assumes "lock_step t t'" "own_inv t"
  shows "own_inv t'"
  using assms(1)
proof cases
  case (call c l s)
  then show ?thesis using own_inv_call assms(2) by simp
next
  case (swap c l ok s)
  then show ?thesis using own_inv_swap assms(2) by simp
next
  case (record_owner c l)
  then show ?thesis using own_inv_record assms(2) by simp
next
  case (leave c l s)
  then show ?thesis using own_inv_leave assms(2) by simp
next
  case (store c l s)
  then show ?thesis using own_inv_store assms(2) by simp
qed

lemma lock_reachable:
  assumes "lock_step\<^sup>*\<^sup>* t0 t" "lock_start t0"
  shows "own_inv t \<and> off_inv (\<lambda>c. sie (cpus (mach t0) c)) t"
  using assms(1)
  by (induction rule: rtranclp_induct) (use lock_inv_start [OF assms(2)] own_inv_step off_inv_step in \<open>blast+\<close>)

text \<open>
  C17. In every interleaving of the CPUs from boot, a lock has at most one owner; a CPU that holds a lock or is inside a call has
  interrupts off, one that does not has them as they were at the start; releasing a held lock does not panic, and neither does the second
  half of a release.
\<close>

theorem spinlock_exclusive:
  assumes "lock_start t0" "lock_step\<^sup>*\<^sup>* t0 t"
  shows "(owns t c l \<and> owns t c' l \<longrightarrow> c = c') \<and>
    sie (cpus (mach t) c) = (held t c = [] \<and> phase t c = Running \<and> sie (cpus (mach t0) c)) \<and>
    (l \<in> set (held t c) \<longrightarrow> (\<exists>s. release_enter c l (mach t) = Ret () s)) \<and>
    (phase t c = Leaving l \<longrightarrow> (\<exists>s. release_store c l (mach t) = Ret () s))"
proof (intro conjI impI)
  have o: "own_inv t" and f: "off_inv (\<lambda>c. sie (cpus (mach t0) c)) t" using lock_reachable [OF assms(2,1)] by auto
  show "owns t c l \<and> owns t c' l \<Longrightarrow> c = c'" using o unfolding own_inv_def by blast
  show "sie (cpus (mach t) c) = (held t c = [] \<and> phase t c = Running \<and> sie (cpus (mach t0) c))"
    using f by (auto simp: off_inv_def cpu_ok_def depth_def)
  show "\<exists>s. release_enter c l (mach t) = Ret () s" if h: "l \<in> set (held t c)"
  proof -
    have "locked (locks (mach t) l)" "lk_cpu (locks (mach t) l) = Some c" using o h unfolding own_inv_def owns_def by blast+
    then show ?thesis by (simp add: release_enter_def holding_def)
  qed
  show "\<exists>s. release_store c l (mach t) = Ret () s" if "phase t c = Leaving l"
  proof -
    have "depth t c > 0" using that by (simp add: depth_def)
    then have "\<not> sie (cpus (mach t) c)" "noff (cpus (mach t) c) \<ge> 1" using f by (auto simp: off_inv_def cpu_ok_def)
    then show ?thesis by (simp add: release_store_def pop_off_def upd_lock_def kprog_simps)
  qed
qed

definition boot_locks :: sys where
  "boot_locks = \<lparr>mach = \<lparr>cpus = (\<lambda>_. \<lparr>noff = 0, intena = False, sie = True\<rparr>), locks = (\<lambda>_. \<lparr>locked = False, lk_cpu = None\<rparr>)\<rparr>,
     phase = (\<lambda>_. Running), held = (\<lambda>_. [])\<rparr>"

theorem spinlock_exclusive_witness:
  "\<exists>t. lock_step\<^sup>*\<^sup>* boot_locks t \<and> owns t 0 5 \<and> \<not> owns t 1 5 \<and> \<not> sie (cpus (mach t) 0) \<and> sie (cpus (mach t) 2) \<and>
     (\<exists>s. release_enter 0 5 (mach t) = Ret () s)"
proof -
  obtain s1 where s1: "acquire_enter 0 5 (mach boot_locks) = Ret () s1" "\<not> locked (locks s1 5)"
    by (simp add: lock_defs boot_locks_def)
  define t1 where "t1 = boot_locks\<lparr>mach := s1, phase := (phase boot_locks)(0 := Spinning 5)\<rparr>"
  define t2 where "t2 = t1\<lparr>mach := upd_lock 5 (\<lambda>x. x\<lparr>locked := True\<rparr>) s1, phase := (phase t1)(0 := if True then Claimed 5 else Spinning 5)\<rparr>"
  define t where "t = t2\<lparr>mach := acquire_record 0 5 (mach t2), phase := (phase t2)(0 := Running), held := (held t2)(0 := 5 # held t2 0)\<rparr>"
  have a: "lock_step boot_locks t1"
    unfolding t1_def by (rule lock_step.call) (simp_all add: s1 boot_locks_def [THEN arg_cong, of phase] boot_locks_def [THEN arg_cong, of held])
  have b: "lock_step t1 t2"
    unfolding t2_def by (rule lock_step.swap) (simp_all add: acquire_swap_def s1 t1_def)
  have c: "lock_step t2 t" unfolding t_def by (rule lock_step.record_owner) (simp add: t2_def)
  have r: "lock_step\<^sup>*\<^sup>* boot_locks t"
    using rtranclp.rtrancl_into_rtrancl [OF rtranclp.rtrancl_into_rtrancl [OF r_into_rtranclp [of lock_step, OF a] b] c] .
  have i: "lock_start boot_locks" by (simp add: lock_start_def boot_locks_def)
  have o: "owns t 0 5" by (simp add: owns_def t_def)
  have n: "\<not> owns t 1 5" using spinlock_exclusive [OF i r, of 0 5 1 ] o by simp
  have e: "\<not> sie (cpus (mach t) 0)" "sie (cpus (mach t) 2)"
    using spinlock_exclusive [OF i r] by (simp_all add: t_def t2_def t1_def boot_locks_def)
  have "\<exists>s. release_enter 0 5 (mach t) = Ret () s" using spinlock_exclusive [OF i r, of 0 5] by (simp add: t_def)
  with r o n e show ?thesis by blast
qed

end
