(* ===== verification/KString.thy ===== *)
theory KString
  imports Prelude
begin

text \<open>
  The byte and string routines of \<^verbatim>\<open>kernel/string.c\<close>. \<^verbatim>\<open>memset\<close>, \<^verbatim>\<open>memcmp\<close> and \<^verbatim>\<open>memmove\<close> work on
  byte-addressed memory, where source and destination may overlap and pointer arithmetic wraps
  as the hardware does. The string routines see each string through the pointer they are given:
  \<open>p i\<close> is \<^verbatim>\<open>p[i]\<close>.
\<close>

section \<open>memset, memcmp, memmove\<close>

text \<open>\<^verbatim>\<open>cdst[i] = c\<close> keeps the low byte of the \<^verbatim>\<open>int\<close> argument.\<close>

fun memset_loop :: "nat \<Rightarrow> nat \<Rightarrow> addr \<Rightarrow> uchar \<Rightarrow> memory \<Rightarrow> memory" where
  "memset_loop 0 i dst c m = m"
| "memset_loop (Suc k) i dst c m = memset_loop k (Suc i) dst c (m(dst + of_nat i := c))"

definition memset :: "addr \<Rightarrow> int \<Rightarrow> uint \<Rightarrow> memory \<Rightarrow> memory" where
  "memset dst c n m = memset_loop (unat n) 0 dst (word_of_int c) m"

fun memcmp_loop :: "nat \<Rightarrow> addr \<Rightarrow> addr \<Rightarrow> memory \<Rightarrow> int" where
  "memcmp_loop 0 s1 s2 m = 0"
| "memcmp_loop (Suc n) s1 s2 m =
     (if m s1 \<noteq> m s2 then uint (m s1) - uint (m s2) else memcmp_loop n (s1 + 1) (s2 + 1) m)"

definition memcmp :: "addr \<Rightarrow> addr \<Rightarrow> uint \<Rightarrow> memory \<Rightarrow> int" where
  "memcmp v1 v2 n m = memcmp_loop (unat n) v1 v2 m"

fun copy_up :: "nat \<Rightarrow> addr \<Rightarrow> addr \<Rightarrow> memory \<Rightarrow> memory" where
  "copy_up 0 d s m = m"
| "copy_up (Suc n) d s m = copy_up n (d + 1) (s + 1) (m(d := m s))"

fun copy_down :: "nat \<Rightarrow> addr \<Rightarrow> addr \<Rightarrow> memory \<Rightarrow> memory" where
  "copy_down 0 d s m = m"
| "copy_down (Suc n) d s m = copy_down n (d - 1) (s - 1) (m(d - 1 := m (s - 1)))"

definition memmove :: "addr \<Rightarrow> addr \<Rightarrow> uint \<Rightarrow> memory \<Rightarrow> memory" where
  "memmove dst src n m =
     (if n = 0 then m
      else if src < dst \<and> src + ucast n > dst
      then copy_down (unat n) (dst + ucast n) (src + ucast n) m
      else copy_up (unat n) dst src m)"

section \<open>strncmp, strncpy, safestrcpy, strlen\<close>

type_synonym cptr = "nat \<Rightarrow> uchar"

text \<open>The arguments \<open>n\<close> and \<open>i\<close> of the loops: how much of the bound is left, how far both pointers moved.\<close>

fun strncmp_loop :: "nat \<Rightarrow> nat \<Rightarrow> cptr \<Rightarrow> cptr \<Rightarrow> int" where
  "strncmp_loop 0 i p q = 0"
| "strncmp_loop (Suc n) i p q =
     (if p i \<noteq> 0 \<and> p i = q i then strncmp_loop n (Suc i) p q
      else uint (p i) - uint (q i))"

definition strncmp :: "cptr \<Rightarrow> cptr \<Rightarrow> nat \<Rightarrow> int" where
  "strncmp p q n = strncmp_loop n 0 p q"

text \<open>The second loop of \<^verbatim>\<open>strncpy\<close> pads with zeros.\<close>

fun zero_fill :: "nat \<Rightarrow> nat \<Rightarrow> cptr \<Rightarrow> cptr" where
  "zero_fill 0 i s = s"
| "zero_fill (Suc n) i s = zero_fill n (Suc i) (s(i := 0))"

fun strncpy_loop :: "nat \<Rightarrow> nat \<Rightarrow> cptr \<Rightarrow> cptr \<Rightarrow> cptr" where
  "strncpy_loop 0 i s t = s"
| "strncpy_loop (Suc n) i s t =
     (let s' = s(i := t i)
      in if t i \<noteq> 0 then strncpy_loop n (Suc i) s' t else zero_fill n (Suc i) s')"

definition strncpy :: "cptr \<Rightarrow> cptr \<Rightarrow> int \<Rightarrow> cptr" where
  "strncpy s t n = strncpy_loop (nat n) 0 s t"

fun safestrcpy_loop :: "nat \<Rightarrow> nat \<Rightarrow> cptr \<Rightarrow> cptr \<Rightarrow> cptr" where
  "safestrcpy_loop 0 i s t = s(i := 0)"
| "safestrcpy_loop (Suc n) i s t =
     (let s' = s(i := t i)
      in if t i \<noteq> 0 then safestrcpy_loop n (Suc i) s' t else s'(Suc i := 0))"

definition safestrcpy :: "cptr \<Rightarrow> cptr \<Rightarrow> int \<Rightarrow> cptr" where
  "safestrcpy s t n = (if n \<le> 0 then s else safestrcpy_loop (nat (n - 1)) 0 s t)"

text \<open>\<^verbatim>\<open>strlen\<close> runs to the first zero byte, and does not return when there is none.\<close>

partial_function (option) strlen_from :: "cptr \<Rightarrow> nat \<Rightarrow> nat option" where
  "strlen_from s n = (if s n = 0 then Some n else strlen_from s (Suc n))"

definition strlen :: "cptr \<Rightarrow> nat option" where
  "strlen s = strlen_from s 0"

section \<open>memset and memmove against their reference definitions\<close>

lemma unat_diff_Suc:
  fixes a d :: addr
  shows "unat (a - (d + 1)) = (if a = d then 2 ^ 64 - 1 else unat (a - d) - 1)"
proof (cases "a = d")
  case True
  then show ?thesis by (simp add: unsigned_minus_1_eq_mask mask_eq_exp_minus_1)
next
  case False
  then have "a - d \<noteq> 0" by simp
  then show ?thesis using False by (simp add: unat_minus_one flip: diff_diff_eq)
qed

lemma memset_loop_apply:
  "i + k \<le> 2 ^ 64 \<Longrightarrow>
   memset_loop k i dst c m a = (if i \<le> unat (a - dst) \<and> unat (a - dst) < i + k then c else m a)"
proof (induction k arbitrary: i m)
  case 0
  then show ?case by auto
next
  case (Suc k)
  have "a = dst + of_nat i \<longleftrightarrow> unat (a - dst) = i"
  proof
    assume "a = dst + of_nat i"
    with Suc.prems show "unat (a - dst) = i" by (simp add: unat_of_nat)
  next
    assume "unat (a - dst) = i"
    then have "a - dst = of_nat i" by (metis of_nat_unat_word)
    then show "a = dst + of_nat i" by (simp add: algebra_simps)
  qed
  with Suc show ?case by auto
qed

lemma memset_apply:
  "memset dst c n m a = (if unat (a - dst) < unat n then word_of_int c else m a)"
proof -
  have "unat n \<le> 2 ^ 64" using unat_32 [of n] by simp
  then show ?thesis by (simp add: memset_def memset_loop_apply)
qed

lemma copy_up_apply:
  assumes "n \<le> unat (d - s) \<or> d = s" and "n < 2 ^ 64"
  shows "copy_up n d s m a = (if unat (a - d) < n then m (s + (a - d)) else m a)"
  using assms
proof (induction n arbitrary: d s m)
  case 0
  then show ?case by simp
next
  case (Suc n)
  have IH: "copy_up n (d + 1) (s + 1) (m(d := m s)) a =
      (if unat (a - (d + 1)) < n then (m(d := m s)) (s + 1 + (a - (d + 1))) else (m(d := m s)) a)"
    using Suc by (intro Suc.IH) auto
  have src: "s + 1 + (a - (d + 1)) = s + (a - d)" by simp
  have "s + (a - d) \<noteq> d \<or> d = s" if "a \<noteq> d" "unat (a - d) < Suc n"
  proof (rule ccontr)
    assume "\<not> (s + (a - d) \<noteq> d \<or> d = s)"
    then have "a - d = d - s" and "d \<noteq> s" by (auto simp: algebra_simps)
    with that Suc.prems show False by auto
  qed
  moreover have "unat (a - d) - 1 < n \<longleftrightarrow> unat (a - d) < Suc n" if "a \<noteq> d"
    using that by (cases "unat (a - d)") (auto simp: unat_eq_zero)
  ultimately show ?case
    using Suc.prems by (auto simp: IH src unat_diff_Suc)
qed

lemma unat_pred_diff:
  fixes a d :: addr
  shows "unat (d - 2 - a) = (if a = d - 1 then 2 ^ 64 - 1 else unat (d - 1 - a) - 1)"
proof (cases "a = d - 1")
  case True
  then show ?thesis by (simp add: unsigned_minus_1_eq_mask mask_eq_exp_minus_1)
next
  case False
  then have nz: "d - 1 - a \<noteq> 0" by auto
  have "d - 2 - a = (d - 1 - a) - 1" by simp
  with False nz show ?thesis by (metis unat_minus_one)
qed

lemma copy_down_apply:
  assumes "n \<le> unat (s - d) \<or> d = s" and "n < 2 ^ 64"
  shows "copy_down n d s m a = (if unat (d - 1 - a) < n then m (s - (d - a)) else m a)"
  using assms
proof (induction n arbitrary: d s m)
  case 0
  then show ?case by simp
next
  case (Suc n)
  let ?m = "m(d - 1 := m (s - 1))"
  have IH: "copy_down n (d - 1) (s - 1) ?m a =
      (if unat (d - 2 - a) < n then ?m (s - 1 - (d - 1 - a)) else ?m a)"
  proof -
    have "n \<le> unat (s - 1 - (d - 1)) \<or> d - 1 = s - 1" and "n < 2 ^ 64"
      using Suc.prems by auto
    then have "copy_down n (d - 1) (s - 1) ?m a =
      (if unat (d - 1 - 1 - a) < n then ?m (s - 1 - (d - 1 - a)) else ?m a)"
      by (rule Suc.IH)
    moreover have "d - 1 - 1 - a = d - 2 - a" by simp
    ultimately show ?thesis by (simp only:)
  qed
  have src: "s - 1 - (d - 1 - a) = s - (d - a)" by simp
  have "s - (d - a) \<noteq> d - 1 \<or> d = s" if "a \<noteq> d - 1" "unat (d - 1 - a) < Suc n"
  proof (rule ccontr)
    assume "\<not> (s - (d - a) \<noteq> d - 1 \<or> d = s)"
    then have "d - 1 - a = s - d" and "d \<noteq> s" by (auto simp: algebra_simps)
    with that Suc.prems show False by auto
  qed
  moreover have "unat (d - 1 - a) - 1 < n \<longleftrightarrow> unat (d - 1 - a) < Suc n" if "a \<noteq> d - 1"
    using that by (cases "unat (d - 1 - a)") (auto simp: unat_eq_zero)
  ultimately show ?case
    using Suc.prems by (auto simp: IH src unat_pred_diff)
qed

lemma unat_mirror:
  fixes x n :: addr
  assumes "n \<noteq> 0"
  shows "unat (n - 1 - x) < unat n \<longleftrightarrow> unat x < unat n"
proof -
  have n: "unat (n - 1) = unat n - 1" and pos: "0 < unat n"
    using assms by (auto simp: unat_minus_one unat_gt_0)
  show ?thesis
    using pos unat_64 [of x] unat_64 [of n] by (auto simp: unat_sub_if' n)
qed

text \<open>
  C11. \<^verbatim>\<open>memmove\<close> copies \<open>n\<close> bytes as if the source were saved first, for every overlap of source
  and destination, and changes nothing else, as long as the source does not run past the end of
  the address space.
\<close>

theorem memmove_correct:
  assumes "unat src + unat n < 2 ^ 64"
  shows "memmove dst src n m = (\<lambda>a. if unat (a - dst) < unat n then m (src + (a - dst)) else m a)"
proof (rule ext)
  fix a
  let ?n = "ucast n :: addr"
  have end_src: "unat (src + ?n) = unat src + unat n"
    using assms by (simp add: unat_add_lem [THEN iffD1])
  show "memmove dst src n m a = (if unat (a - dst) < unat n then m (src + (a - dst)) else m a)"
  proof (cases "n = 0")
    case True
    then show ?thesis by (simp add: memmove_def)
  next
    case False
    then have nz: "?n \<noteq> 0" by (metis unat_ucast_32_64 unat_eq_zero)
    have n64: "unat n < 2 ^ 64" using unat_32 [of n] by simp
    show ?thesis
    proof (cases "src < dst \<and> src + ?n > dst")
      case True
      then have "unat (src - dst) = 2 ^ 64 - (unat dst - unat src)"
        and "unat dst - unat src < unat n"
        using end_src unat_64 [of dst] by (auto simp: unat_sub_if' word_less_nat_alt)
      then have "unat n \<le> unat (src - dst)" using unat_32 [of n] by simp
      then have far: "unat n \<le> unat (src + ?n - (dst + ?n))" by simp
      have "dst + ?n - 1 - a = ?n - 1 - (a - dst)" by simp
      then have "unat (dst + ?n - 1 - a) < unat n \<longleftrightarrow> unat (a - dst) < unat n"
        using unat_mirror [OF nz, of "a - dst"] by (simp only: unat_ucast_32_64)
      with True False far n64 show ?thesis
        by (simp add: memmove_def copy_down_apply)
    next
      case not_over: False
      have "unat n \<le> unat (dst - src) \<or> dst = src"
        using not_over end_src unat_64 [of src] assms
        by (auto simp: unat_sub_if' word_less_nat_alt word_le_nat_alt not_less word_unat_eq_iff)
      with False not_over n64 show ?thesis
        by (auto simp: memmove_def copy_up_apply)
    qed
  qed
qed

theorem memmove_correct_witness:
  "memmove 1002 1000 4 (\<lambda>a. ucast a) 1005 = 235 \<and> unat (1000 :: addr) + unat (4 :: uint) < 2 ^ 64"
  using memmove_correct [of 1000 4 1002 "\<lambda>a. ucast a"] by simp

section \<open>Names in fixed-size fields\<close>

text \<open>
  The string held by a field of \<open>n\<close> characters: everything before the first zero byte, or the
  whole field when it has none (a directory entry of full length is not terminated).
\<close>

definition cname :: "nat \<Rightarrow> cptr \<Rightarrow> uchar list" where
  "cname n p = takeWhile (\<lambda>c. c \<noteq> 0) (map p [0 ..< n])"

lemma strncmp_loop_zero:
  "strncmp_loop n i p q = 0 \<longleftrightarrow>
   takeWhile (\<lambda>c. c \<noteq> 0) (map p [i ..< i + n]) = takeWhile (\<lambda>c. c \<noteq> 0) (map q [i ..< i + n])"
proof (induction n arbitrary: i)
  case 0
  then show ?case by simp
next
  case (Suc n)
  have "[i ..< i + Suc n] = i # [Suc i ..< Suc i + n]" by (simp add: upt_rec)
  then show ?case using Suc [of "Suc i"] by (auto simp: word_uint_eq_iff)
qed

lemma zero_fill_apply: "zero_fill n i s = (\<lambda>j. if i \<le> j \<and> j < i + n then 0 else s j)"
  by (induction n arbitrary: i s) (auto simp: fun_eq_iff)

lemma strncpy_loop_outside: "j < i \<or> i + n \<le> j \<Longrightarrow> strncpy_loop n i s t j = s j"
  by (induction n arbitrary: i s) (auto simp: zero_fill_apply Let_def)

lemma strncpy_loop_name:
  "takeWhile (\<lambda>c. c \<noteq> 0) (map (strncpy_loop n i s t) [i ..< i + n]) =
   takeWhile (\<lambda>c. c \<noteq> 0) (map t [i ..< i + n])"
proof (induction n arbitrary: i s)
  case 0
  then show ?case by simp
next
  case (Suc n)
  have upt: "[i ..< i + Suc n] = i # [Suc i ..< Suc i + n]" by (simp add: upt_rec)
  show ?case
    unfolding upt using Suc.IH [of "Suc i" "s(i := t i)"]
    by (simp add: Let_def strncpy_loop_outside zero_fill_apply del: upt_Suc fun_upd_apply)
      (simp add: strncpy_loop_outside)
qed

text \<open>
  C12. \<^verbatim>\<open>strncmp\<close> bounded by the field size returns 0 exactly when the two fields hold the same
  name.
\<close>

theorem strncmp_names: "strncmp p q n = 0 \<longleftrightarrow> cname n p = cname n q"
  using strncmp_loop_zero [of n 0 p q] by (simp add: strncmp_def cname_def)

theorem strncpy_name:
  "cname n (strncpy s t (int n)) = cname n t \<and> (\<forall>j\<ge>n. strncpy s t (int n) j = s j)"
  using strncpy_loop_name [of n 0 s t] strncpy_loop_outside [of _ 0 n s t]
  by (simp add: strncpy_def cname_def)

lemma safestrcpy_loop_inside: "j < i \<or> i + n < j \<Longrightarrow> safestrcpy_loop n i s t j = s j"
  by (induction n arbitrary: i s) (auto simp: Let_def)

lemma safestrcpy_loop_name:
  "\<exists>k\<le>n. safestrcpy_loop n i s t (i + k) = 0 \<and>
     (\<forall>j<k. safestrcpy_loop n i s t (i + j) = t (i + j) \<and> t (i + j) \<noteq> 0) \<and> (k < n \<longrightarrow> t (i + k) = 0)"
proof (induction n arbitrary: i s)
  case 0
  then show ?case by simp
next
  case (Suc n)
  show ?case
  proof (cases "t i = 0")
    case True
    then show ?thesis by (intro exI [of _ 0]) (simp add: Let_def)
  next
    case False
    let ?r = "safestrcpy_loop n (Suc i) (s(i := t i)) t"
    from Suc [of "Suc i" "s(i := t i)"] obtain k where
      k: "k \<le> n" "?r (Suc i + k) = 0" "\<forall>j<k. ?r (Suc i + j) = t (Suc i + j) \<and> t (Suc i + j) \<noteq> 0"
         "k < n \<longrightarrow> t (Suc i + k) = 0" by blast
    have "?r i = t i" by (simp add: safestrcpy_loop_inside)
    with k False show ?thesis
      by (intro exI [of _ "Suc k"]) (auto simp: Let_def less_Suc_eq_0_disj)
  qed
qed

lemma strlen_from_Some:
  "s n = 0 \<Longrightarrow> k \<le> n \<Longrightarrow> (\<And>j. k \<le> j \<Longrightarrow> j < n \<Longrightarrow> s j \<noteq> 0) \<Longrightarrow> strlen_from s k = Some n"
proof (induction "n - k" arbitrary: k)
  case 0
  then show ?case by (simp add: strlen_from.simps)
next
  case (Suc d)
  then have "s k \<noteq> 0" by simp
  with Suc show ?case by (simp add: strlen_from.simps [of s k])
qed

theorem safestrcpy_terminates:
  assumes "0 < n"
  shows "\<exists>k<nat n. strlen (safestrcpy s t n) = Some k \<and> (\<forall>j<k. safestrcpy s t n j = t j) \<and>
           (Suc k < nat n \<longrightarrow> t k = 0) \<and> (\<forall>j\<ge>nat n. safestrcpy s t n j = s j)"
proof -
  let ?r = "safestrcpy_loop (nat (n - 1)) 0 s t"
  obtain k where k: "k \<le> nat (n - 1)" "?r k = 0" "\<forall>j<k. ?r j = t j \<and> t j \<noteq> 0"
      "k < nat (n - 1) \<longrightarrow> t k = 0"
    using safestrcpy_loop_name [of "nat (n - 1)" 0 s t] by auto
  have "strlen ?r = Some k"
    unfolding strlen_def by (rule strlen_from_Some) (use k in auto)
  with k assms show ?thesis
    by (intro exI [of _ k]) (auto simp: safestrcpy_def safestrcpy_loop_inside)
qed

end
