(* ===== verification/Kalloc.thy ===== *)
theory Kalloc
  imports KString
begin

text \<open>
  The physical page allocator, \<^verbatim>\<open>kernel/kalloc.c\<close>. Free pages are linked through their first
  eight bytes; the list head is \<^verbatim>\<open>kmem.freelist\<close>. The linker symbol \<^verbatim>\<open>end\<close> (the first address after
  the kernel image) is a constant field of the state. The code between \<^verbatim>\<open>acquire\<close> and \<^verbatim>\<open>release\<close>
  is one step.
\<close>

abbreviation PGSIZE :: addr where "PGSIZE \<equiv> 4096"
abbreviation PHYSTOP :: addr where "PHYSTOP \<equiv> 0x88000000"

definition PGROUNDUP :: "addr \<Rightarrow> addr" where
  "PGROUNDUP sz = (sz + PGSIZE - 1) AND NOT (PGSIZE - 1)"

definition PGROUNDDOWN :: "addr \<Rightarrow> addr" where
  "PGROUNDDOWN a = a AND NOT (PGSIZE - 1)"

record kmem_st =
  mem :: memory
  freelist :: addr
  kend :: addr

definition kfree :: "addr \<Rightarrow> ('z kmem_st_scheme, unit) kprog" where
  "kfree pa s =
     (if pa mod PGSIZE \<noteq> 0 \<or> pa < kend s \<or> pa \<ge> PHYSTOP then Panic ''kfree''
      else let m = memset pa 1 4096 (mem s)
           in Ret () (s\<lparr>mem := write64 pa (freelist s) m, freelist := pa\<rparr>))"

definition kalloc :: "('z kmem_st_scheme, addr) kprog" where
  "kalloc s =
     (let r = freelist s;
          s' = (if r \<noteq> 0 then s\<lparr>freelist := read64 (mem s) r\<rparr> else s)
      in Ret r (if r \<noteq> 0 then s'\<lparr>mem := memset r 5 4096 (mem s')\<rparr> else s'))"

definition freerange_step :: "addr \<Rightarrow> addr \<Rightarrow> ('z kmem_st_scheme, addr + unit) kprog" where
  "freerange_step pa_end p =
     (if p + PGSIZE \<le> pa_end then kthen (kfree p) (kret (Inl (p + PGSIZE))) else kret (Inr ()))"

definition freerange :: "addr \<Rightarrow> addr \<Rightarrow> ('z kmem_st_scheme, unit) kprog" where
  "freerange pa_start pa_end = kwhile (freerange_step pa_end) (PGROUNDUP pa_start)"

definition kinit :: "('z kmem_st_scheme, unit) kprog" where
  "kinit = (\<lambda>s. freerange (kend s) PHYSTOP s)"

section \<open>The free list\<close>

text \<open>\<open>flist m p xs\<close>: following the links from \<open>p\<close> visits exactly the pages \<open>xs\<close>.\<close>

fun flist :: "memory \<Rightarrow> addr \<Rightarrow> addr list \<Rightarrow> bool" where
  "flist m p [] \<longleftrightarrow> p = 0"
| "flist m p (x # xs) \<longleftrightarrow> p = x \<and> x \<noteq> 0 \<and> flist m (read64 m x) xs"

definition page_ok :: "'z kmem_st_scheme \<Rightarrow> addr \<Rightarrow> bool" where
  "page_ok s pa \<longleftrightarrow> pa mod PGSIZE = 0 \<and> kend s \<le> pa \<and> pa < PHYSTOP \<and> pa \<noteq> 0"

definition kmem_inv :: "'z kmem_st_scheme \<Rightarrow> addr list \<Rightarrow> bool" where
  "kmem_inv s xs \<longleftrightarrow> flist (mem s) (freelist s) xs \<and> distinct xs \<and> (\<forall>x\<in>set xs. page_ok s x)"

text \<open>The bytes of a page, and disjointness of different pages.\<close>

definition in_page :: "addr \<Rightarrow> addr \<Rightarrow> bool" where
  "in_page pa a \<longleftrightarrow> unat (a - pa) < 4096"

lemma in_page_iff:
  assumes "pa mod PGSIZE = 0"
  shows "in_page pa a \<longleftrightarrow> unat a div 4096 = unat pa div 4096"
proof -
  have "unat pa mod 4096 = 0"
    using assms by (simp add: word_unat_eq_iff unat_mod_distrib)
  then obtain k where k: "unat pa = 4096 * k" by auto
  with unat_64 [of pa] have "k < 4503599627370496" by simp
  moreover have "unat a div 4096 = k \<longleftrightarrow> 4096 * k \<le> unat a \<and> unat a < 4096 * k + 4096"
    by auto
  ultimately show ?thesis
    using k unfolding in_page_def by (auto simp: unat_sub_if')
qed

lemma in_page_disjoint:
  "p mod PGSIZE = 0 \<Longrightarrow> q mod PGSIZE = 0 \<Longrightarrow> p \<noteq> q \<Longrightarrow> in_page p a \<Longrightarrow> \<not> in_page q a"
proof
  assume a: "p mod PGSIZE = 0" "q mod PGSIZE = 0" "in_page p a" "in_page q a" and "p \<noteq> q"
  then have "unat p div 4096 = unat q div 4096" by (simp add: in_page_iff)
  moreover have "unat p mod 4096 = 0" "unat q mod 4096 = 0"
    using a by (simp_all add: word_unat_eq_iff unat_mod_distrib)
  ultimately have "unat p = unat q" by (metis div_mult_mod_eq)
  with \<open>p \<noteq> q\<close> show False by (simp add: word_unat_eq_iff)
qed

lemma in_page_self [simp]: "i < 4096 \<Longrightarrow> in_page p (p + of_nat i)"
  by (simp add: in_page_def unat_of_nat)

text \<open>Memory that agrees with another outside the page \<open>p\<close>.\<close>

definition same_but :: "addr \<Rightarrow> memory \<Rightarrow> memory \<Rightarrow> bool" where
  "same_but p m m' \<longleftrightarrow> (\<forall>a. \<not> in_page p a \<longrightarrow> m' a = m a)"

lemma memset_page: "memset p c 4096 m a = (if in_page p a then word_of_int c else m a)"
  by (simp add: memset_apply in_page_def)

lemma same_but_memset: "same_but p m (memset p c 4096 m)"
  by (simp add: same_but_def memset_page)

lemma same_but_write64: "same_but p m (write64 p v m)"
  by (simp add: same_but_def in_page_def write64_def)

lemma same_but_trans: "same_but p m m' \<Longrightarrow> same_but p m' m'' \<Longrightarrow> same_but p m m''"
  by (simp add: same_but_def)

lemma flist_same_but:
  "same_but p m m' \<Longrightarrow> p mod PGSIZE = 0 \<Longrightarrow> p \<notin> set xs \<Longrightarrow> \<forall>x\<in>set xs. x mod PGSIZE = 0 \<Longrightarrow>
   flist m' q xs = flist m q xs"
proof (induction xs arbitrary: q)
  case Nil
  then show ?case by simp
next
  case (Cons x xs)
  have "read64 m' x = read64 m x"
  proof (rule read64_cong)
    fix i :: nat
    assume "i < 8"
    then have "in_page x (x + of_nat i)" by simp
    with Cons.prems have "\<not> in_page p (x + of_nat i)"
      using in_page_disjoint [of x p "x + of_nat i"] by auto
    with Cons.prems show "m' (x + of_nat i) = m (x + of_nat i)" by (simp add: same_but_def)
  qed
  with Cons show ?case by auto
qed

section \<open>The allocator's contract\<close>

text \<open>
  What the clients of the allocator rely on: \<open>inv s xs\<close> says that \<open>xs\<close> are the free pages of \<open>s\<close>,
  next one first. Allocation takes the first, freeing puts a page back in front, and both touch
  the bytes of that page only.
\<close>

locale page_allocator =
  fixes alloc :: "('s, addr) kprog"
    and free :: "addr \<Rightarrow> ('s, unit) kprog"
    and inv :: "'s \<Rightarrow> addr list \<Rightarrow> bool"
    and ok :: "'s \<Rightarrow> addr \<Rightarrow> bool"
    and bytes :: "'s \<Rightarrow> memory"
  assumes alloc_none: "inv s [] \<Longrightarrow> alloc s = Ret 0 s"
    and alloc_some: "inv s (x # xs) \<Longrightarrow>
      \<exists>s'. alloc s = Ret x s' \<and> inv s' xs \<and> ok s' = ok s \<and> same_but x (bytes s) (bytes s')"
    and free_ok: "inv s xs \<Longrightarrow> ok s x \<Longrightarrow> x \<notin> set xs \<Longrightarrow>
      \<exists>s'. free x s = Ret () s' \<and> inv s' (x # xs) \<and> ok s' = ok s \<and> same_but x (bytes s) (bytes s')"
    and inv_ok: "inv s xs \<Longrightarrow> x \<in> set xs \<Longrightarrow> ok s x"
    and inv_distinct: "inv s xs \<Longrightarrow> distinct xs"
    and ok_nonzero: "ok s x \<Longrightarrow> x \<noteq> 0"
begin

text \<open>\<open>n\<close> allocations in a row, stopping at the first failure.\<close>

fun alloc_n :: "nat \<Rightarrow> 's \<Rightarrow> addr list \<times> 's" where
  "alloc_n 0 s = ([], s)"
| "alloc_n (Suc n) s =
     (case alloc s of
        Ret x s' \<Rightarrow> if x = 0 then ([], s') else (let (ys, t) = alloc_n n s' in (x # ys, t))
      | _ \<Rightarrow> ([], s))"

lemma alloc_n_take:
  "inv s xs \<Longrightarrow> fst (alloc_n n s) = take n xs \<and> inv (snd (alloc_n n s)) (drop n xs)"
proof (induction n arbitrary: s xs)
  case 0
  then show ?case by simp
next
  case (Suc n)
  show ?case
  proof (cases xs)
    case Nil
    with Suc.prems show ?thesis by (simp add: alloc_none)
  next
    case (Cons x ys)
    with Suc.prems alloc_some obtain s' where s': "alloc s = Ret x s'" "inv s' ys" by blast
    have "x \<noteq> 0" using Suc.prems Cons ok_nonzero inv_ok by (metis list.set_intros(1))
    with Suc.IH [OF s'(2)] s' Cons show ?thesis by (simp add: case_prod_beta)
  qed
qed

lemma alloc_n_fresh:
  assumes "inv s xs"
  shows "distinct (fst (alloc_n n s))" and "length (fst (alloc_n n s)) = min n (length xs)"
  using alloc_n_take [OF assms, of n] inv_distinct [OF assms] by simp_all

lemma alloc_free_round_trip:
  assumes "inv s (x # xs)"
  obtains s1 s2 where "alloc s = Ret x s1" "free x s1 = Ret () s2" "inv s2 (x # xs)"
    "same_but x (bytes s) (bytes s2)"
proof -
  from alloc_some [OF assms] obtain s1 where
    s1: "alloc s = Ret x s1" "inv s1 xs" "ok s1 = ok s" "same_but x (bytes s) (bytes s1)" by blast
  have "ok s x" "x \<notin> set xs" using inv_ok [OF assms] inv_distinct [OF assms] by simp_all
  with s1 free_ok [of s1 xs x] obtain s2 where
    "free x s1 = Ret () s2" "inv s2 (x # xs)" "same_but x (bytes s1) (bytes s2)" by auto
  with s1 that show thesis by (blast intro: same_but_trans)
qed

end

section \<open>kalloc and kfree meet it\<close>

lemma kalloc_none: "kmem_inv s [] \<Longrightarrow> kalloc s = Ret 0 s"
  by (simp add: kmem_inv_def kalloc_def)

lemma kalloc_some:
  assumes "kmem_inv s (x # xs)"
  shows "kalloc s = Ret x (s\<lparr>freelist := read64 (mem s) x, mem := memset x 5 4096 (mem s)\<rparr>)"
    and "kmem_inv (s\<lparr>freelist := read64 (mem s) x, mem := memset x 5 4096 (mem s)\<rparr>) xs"
proof -
  from assms have x: "freelist s = x" "x \<noteq> 0" "x \<notin> set xs" "x mod PGSIZE = 0"
    and al: "\<forall>y\<in>set xs. y mod PGSIZE = 0"
    by (auto simp: kmem_inv_def page_ok_def)
  then show "kalloc s = Ret x (s\<lparr>freelist := read64 (mem s) x, mem := memset x 5 4096 (mem s)\<rparr>)"
    by (simp add: kalloc_def Let_def)
  from assms flist_same_but [OF same_but_memset x(4,3) al]
  show "kmem_inv (s\<lparr>freelist := read64 (mem s) x, mem := memset x 5 4096 (mem s)\<rparr>) xs"
    by (auto simp: kmem_inv_def page_ok_def)
qed

lemma kfree_ok:
  assumes inv: "kmem_inv s xs" and ok: "page_ok s x" and new: "x \<notin> set xs"
  shows "kfree x s = Ret () (s\<lparr>mem := write64 x (freelist s) (memset x 1 4096 (mem s)), freelist := x\<rparr>)"
    and "kmem_inv (s\<lparr>mem := write64 x (freelist s) (memset x 1 4096 (mem s)), freelist := x\<rparr>) (x # xs)"
proof -
  show "kfree x s = Ret () (s\<lparr>mem := write64 x (freelist s) (memset x 1 4096 (mem s)), freelist := x\<rparr>)"
    using ok by (auto simp: kfree_def page_ok_def Let_def)
  let ?m = "write64 x (freelist s) (memset x 1 4096 (mem s))"
  have "same_but x (mem s) ?m" by (blast intro: same_but_trans same_but_memset same_but_write64)
  then have "flist ?m (freelist s) xs = flist (mem s) (freelist s) xs"
    using ok new inv by (intro flist_same_but) (auto simp: page_ok_def kmem_inv_def)
  then show "kmem_inv (s\<lparr>mem := ?m, freelist := x\<rparr>) (x # xs)"
    using inv ok new by (auto simp: kmem_inv_def page_ok_def)
qed

interpretation km: page_allocator kalloc kfree kmem_inv page_ok mem
proof (unfold_locales, goal_cases)
  case (2 s x xs)
  then show ?case using kalloc_some [OF 2] by (auto simp: page_ok_def same_but_memset fun_eq_iff)
next
  case (3 s xs x)
  then show ?case
    using kfree_ok [OF 3] same_but_trans [OF same_but_memset same_but_write64, of x "mem s"]
    by (auto simp: page_ok_def fun_eq_iff)
qed (auto simp: kalloc_none kmem_inv_def page_ok_def)

section \<open>Rounding and initialisation\<close>

lemma unat_PGROUNDDOWN: "unat (PGROUNDDOWN a) = unat a div 4096 * 4096"
proof -
  have mask: "(4095 :: addr) = mask 12" by (simp add: mask_eq_exp_minus_1)
  have "PGROUNDDOWN a = push_bit 12 (drop_bit 12 a)"
    unfolding PGROUNDDOWN_def by (rule bit_word_eqI) (auto simp: mask bit_simps)
  then have "unat (PGROUNDDOWN a) = (unat a div 4096 * 4096) mod 2 ^ 64"
    by (simp add: push_bit_eq_mult drop_bit_eq_div unat_word_ariths unat_div_distrib mod_mult_left_eq)
  moreover have "unat a div 4096 * 4096 < 2 ^ 64"
    using unat_64 [of a] by (simp add: le_less_trans [OF div_times_less_eq_dividend])
  ultimately show ?thesis by simp
qed

lemma unat_PGROUNDUP: "unat a + 4095 < 2 ^ 64 \<Longrightarrow> unat (PGROUNDUP a) = (unat a + 4095) div 4096 * 4096"
proof -
  assume "unat a + 4095 < 2 ^ 64"
  then have "unat (a + 4095) = unat a + 4095" by (simp add: unat_word_ariths)
  then show ?thesis
    using unat_PGROUNDDOWN [of "a + 4095"] by (simp add: PGROUNDUP_def PGROUNDDOWN_def add.commute)
qed

lemma aligned_iff: "a mod PGSIZE = 0 \<longleftrightarrow> unat a mod 4096 = 0"
  by (simp add: word_unat_eq_iff unat_mod_distrib)

lemma freerange_loop:
  assumes "kmem_inv s xs" "p mod PGSIZE = 0" "p \<noteq> 0" "kend s \<le> p"
    "unat p + 4096 * k = unat PHYSTOP" "\<forall>x\<in>set xs. x < p"
  shows "\<exists>s'. kwhile (freerange_step PHYSTOP) p s
      = Ret () s' \<and> kend s' = kend s \<and>
      kmem_inv s' (rev (map (\<lambda>i. p + of_nat (4096 * i)) [0 ..< k]) @ xs)"
  using assms
proof (induction k arbitrary: p s xs)
  case 0
  then have "p = PHYSTOP" by (simp add: word_unat_eq_iff)
  then have "\<not> p + PGSIZE \<le> PHYSTOP" by simp
  with 0 show ?case by (subst kwhile_unfold) (simp add: freerange_step_def kprog_simps)
next
  case (Suc k)
  have np: "unat (p + PGSIZE) = unat p + 4096" using Suc.prems(5) by (simp add: unat_word_ariths)
  have le: "p + PGSIZE \<le> PHYSTOP" and lt: "p < PHYSTOP" and lt': "p < p + PGSIZE"
    using Suc.prems(5) np by (simp_all add: word_le_nat_alt word_less_nat_alt)
  have "page_ok s p" and "p \<notin> set xs" using Suc.prems lt by (auto simp: page_ok_def)
  with kfree_ok [OF Suc.prems(1)] obtain s1 where
    s1: "kfree p s = Ret () s1" "kmem_inv s1 (p # xs)" "kend s1 = kend s" by auto
  have "(p + PGSIZE) mod PGSIZE = 0" "p + PGSIZE \<noteq> 0"
    using Suc.prems(2) np lt' by (auto simp: aligned_iff np)
  moreover have "kend s1 \<le> p + PGSIZE" "\<forall>x\<in>set (p # xs). x < p + PGSIZE"
    using Suc.prems(4,6) s1(3) lt' by auto
  moreover have "unat (p + PGSIZE) + 4096 * k = unat PHYSTOP" using Suc.prems(5) np by simp
  ultimately obtain s' where
    s': "kwhile (freerange_step PHYSTOP) (p + PGSIZE) s1
          = Ret () s'" "kend s' = kend s1"
      "kmem_inv s' (rev (map (\<lambda>i. p + PGSIZE + of_nat (4096 * i)) [0 ..< k]) @ p # xs)"
    using Suc.IH [OF s1(2), of "p + PGSIZE"] by auto
  have "rev (map (\<lambda>i. p + of_nat (4096 * i)) [0 ..< Suc k]) @ xs =
      rev (map (\<lambda>i. p + PGSIZE + of_nat (4096 * i)) [0 ..< k]) @ p # xs"
    by (simp add: upt_conv_Cons map_Suc_upt [symmetric] comp_def algebra_simps del: upt_Suc map_Suc_upt)
  with s' s1 le show ?case by (subst kwhile_unfold) (simp add: freerange_step_def kprog_simps)
qed

text \<open>
  C7. Booting the allocator puts every page frame between the end of the kernel image and the top
  of memory on the free list exactly once.
\<close>

theorem kinit_all_pages:
  assumes "freelist s = 0" and "0 < kend s" and "kend s \<le> PHYSTOP"
  shows "\<exists>s' xs. kinit s = Ret () s' \<and> kmem_inv s' xs \<and>
           set xs = {p. p mod PGSIZE = 0 \<and> kend s \<le> p \<and> p < PHYSTOP}"
proof -
  let ?p = "PGROUNDUP (kend s)"
  have e: "unat (kend s) \<le> 2281701376" using assms(3) by (simp add: word_le_nat_alt)
  then have up: "unat ?p = (unat (kend s) + 4095) div 4096 * 4096" by (simp add: unat_PGROUNDUP)
  define k where "k = 557056 - unat ?p div 4096"
  have k: "unat ?p + 4096 * k = 2281701376" "unat (kend s) \<le> unat ?p" "unat ?p < unat (kend s) + 4096"
    using e up unfolding k_def by auto
  have "kmem_inv s []" using assms(1) by (simp add: kmem_inv_def)
  moreover have "?p mod PGSIZE = 0" by (simp add: aligned_iff up)
  moreover have "?p \<noteq> 0" "kend s \<le> ?p" 
    using k assms(2) by (auto simp: word_le_nat_alt word_less_nat_alt)
  moreover have "unat ?p + 4096 * k = unat PHYSTOP" using k by simp
  ultimately obtain s' where s': "kinit s = Ret () s'" "kend s' = kend s"
    "kmem_inv s' (rev (map (\<lambda>i. ?p + of_nat (4096 * i)) [0 ..< k]))"
    using freerange_loop [of s "[]" ?p k] by (auto simp: kinit_def freerange_def)
  have "(\<lambda>i. ?p + of_nat (4096 * i)) ` {0 ..< k} = {p. p mod PGSIZE = 0 \<and> kend s \<le> p \<and> p < PHYSTOP}"
    (is "?L = ?R")
  proof
    show "?L \<subseteq> ?R"
      using s'(2,3) by (auto simp: kmem_inv_def page_ok_def)
    show "?R \<subseteq> ?L"
    proof
      fix x
      assume "x \<in> ?R"
      then have x: "unat x mod 4096 = 0" "unat (kend s) \<le> unat x" "unat x < 2281701376"
        by (auto simp: aligned_iff word_le_nat_alt word_less_nat_alt)
      define i where "i = (unat x - unat ?p) div 4096"
      have ux: "unat x = unat ?p + 4096 * i" and "i < k"
        using x k up unfolding i_def by auto
      then have "x = ?p + of_nat (4096 * i)" by (metis of_nat_add of_nat_unat_word)
      with \<open>i < k\<close> show "x \<in> ?L" by auto
    qed
  qed
  with s' show ?thesis by (metis (no_types, lifting) atLeastLessThan_upt image_set set_rev)
qed

theorem kinit_all_pages_witness:
  "\<exists>s' xs. kinit \<lparr>mem = (\<lambda>_. 0), freelist = 0, kend = 0x80021000\<rparr> = Ret () s' \<and> kmem_inv s' xs \<and>
     set xs = {p. p mod PGSIZE = 0 \<and> 0x80021000 \<le> p \<and> p < PHYSTOP}"
  using kinit_all_pages [of "\<lparr>mem = (\<lambda>_. 0), freelist = 0, kend = 0x80021000\<rparr>"] by simp

end
