(* ===== verification/Vm.thy ===== *)
theory Vm
  imports Kalloc
begin

text \<open>
  Page tables, \<^verbatim>\<open>kernel/vm.c\<close>, as three-level trees of 4096-byte pages in physical memory. A null
  pointer is 0. Kernel-side buffers that are not physical pages are seen through their pointer
  (\<^typ>\<open>cptr\<close>) or collected as the list of bytes stored to them.
\<close>

section \<open>Page-table entries\<close>

abbreviation PTE_V :: uint64 where "PTE_V \<equiv> 1"
abbreviation PTE_R :: uint64 where "PTE_R \<equiv> 2"
abbreviation PTE_W :: uint64 where "PTE_W \<equiv> 4"
abbreviation PTE_X :: uint64 where "PTE_X \<equiv> 8"
abbreviation PTE_U :: uint64 where "PTE_U \<equiv> 16"

definition PA2PTE :: "addr \<Rightarrow> uint64" where "PA2PTE pa = push_bit 10 (drop_bit 12 pa)"
definition PTE2PA :: "uint64 \<Rightarrow> addr" where "PTE2PA pte = push_bit 12 (drop_bit 10 pte)"
definition PTE_FLAGS :: "uint64 \<Rightarrow> uint64" where "PTE_FLAGS pte = pte AND 0x3FF"
definition PX :: "nat \<Rightarrow> addr \<Rightarrow> uint64" where "PX level va = drop_bit (12 + 9 * level) va AND 0x1FF"

abbreviation MAXVA :: addr where "MAXVA \<equiv> 0x4000000000"
abbreviation TRAMPOLINE :: addr where "TRAMPOLINE \<equiv> MAXVA - PGSIZE"
abbreviation TRAPFRAME :: addr where "TRAPFRAME \<equiv> TRAMPOLINE - PGSIZE"

definition KSTACK :: "nat \<Rightarrow> addr" where
  "KSTACK p = TRAMPOLINE - (of_nat p + 1) * 2 * PGSIZE"

section \<open>Walking and mapping\<close>

text \<open>The loop of \<^verbatim>\<open>walk\<close> from \<open>level\<close> down to 1, then the level-0 entry.\<close>

fun walk_from :: "nat \<Rightarrow> addr \<Rightarrow> addr \<Rightarrow> bool \<Rightarrow> ('z kmem_st_scheme, addr) kprog" where
  "walk_from 0 pagetable va alloc = kret (pagetable + 8 * PX 0 va)"
| "walk_from (Suc level) pagetable va alloc =
     (\<lambda>s. let pte = pagetable + 8 * PX (Suc level) va; e = read64 (mem s) pte
          in if e AND PTE_V \<noteq> 0 then walk_from level (PTE2PA e) va alloc s
             else if \<not> alloc then Ret 0 s
             else kbind kalloc (\<lambda>pt. if pt = 0 then kret 0
                    else kthen (kmod (\<lambda>s. s\<lparr>mem := memset pt 0 4096 (mem s)\<rparr>))
                        (kthen (kmod (\<lambda>s. s\<lparr>mem := write64 pte (PA2PTE pt OR PTE_V) (mem s)\<rparr>))
                           (walk_from level pt va alloc))) s)"

definition walk :: "addr \<Rightarrow> addr \<Rightarrow> bool \<Rightarrow> ('z kmem_st_scheme, addr) kprog" where
  "walk pagetable va alloc = (if va \<ge> MAXVA then kpanic ''walk'' else walk_from 2 pagetable va alloc)"

definition walkaddr :: "addr \<Rightarrow> addr \<Rightarrow> ('z kmem_st_scheme, addr) kprog" where
  "walkaddr pagetable va =
     (if va \<ge> MAXVA then kret 0
      else kbind (walk pagetable va False) (\<lambda>pte.
           if pte = 0 then kret 0
           else kbind (kget (\<lambda>s. read64 (mem s) pte)) (\<lambda>e.
             if e AND PTE_V = 0 then kret 0
             else if e AND PTE_U = 0 then kret 0
             else kret (PTE2PA e))))"

definition mappages_step ::
  "addr \<Rightarrow> addr \<Rightarrow> uint64 \<Rightarrow> addr \<times> addr \<Rightarrow> ('z kmem_st_scheme, (addr \<times> addr) + int) kprog" where
  "mappages_step pagetable last_a perm = (\<lambda>(a, pa).
     kbind (walk pagetable a True) (\<lambda>pte.
       if pte = 0 then kret (Inr (-1))
       else kbind (kget (\<lambda>s. read64 (mem s) pte)) (\<lambda>e.
         if e AND PTE_V \<noteq> 0 then kpanic ''mappages: remap''
         else kthen (kmod (\<lambda>s. s\<lparr>mem := write64 pte (PA2PTE pa OR perm OR PTE_V) (mem s)\<rparr>))
                (if a = last_a then kret (Inr 0) else kret (Inl (a + PGSIZE, pa + PGSIZE))))))"

definition mappages :: "addr \<Rightarrow> addr \<Rightarrow> uint64 \<Rightarrow> addr \<Rightarrow> uint64 \<Rightarrow> ('z kmem_st_scheme, int) kprog" where
  "mappages pagetable va sz pa perm =
     (if sz = 0 then kpanic ''mappages: size''
      else kwhile (mappages_step pagetable (PGROUNDDOWN (va + sz - 1)) perm) (PGROUNDDOWN va, pa))"

definition kvmmap :: "addr \<Rightarrow> addr \<Rightarrow> addr \<Rightarrow> uint64 \<Rightarrow> uint64 \<Rightarrow> ('z kmem_st_scheme, unit) kprog" where
  "kvmmap kpgtbl va pa sz perm =
     kbind (mappages kpgtbl va sz pa perm) (\<lambda>r. if r \<noteq> 0 then kpanic ''kvmmap'' else kret ())"

section \<open>User address spaces\<close>

definition uvmunmap_step ::
  "addr \<Rightarrow> addr \<Rightarrow> bool \<Rightarrow> addr \<Rightarrow> ('z kmem_st_scheme, addr + unit) kprog" where
  "uvmunmap_step pagetable limit do_free a =
     (if a < limit then
        kbind (walk pagetable a False) (\<lambda>pte.
          if pte = 0 then kpanic ''uvmunmap: walk''
          else kbind (kget (\<lambda>s. read64 (mem s) pte)) (\<lambda>e.
            if e AND PTE_V = 0 then kpanic ''uvmunmap: not mapped''
            else if PTE_FLAGS e = PTE_V then kpanic ''uvmunmap: not a leaf''
            else kthen (if do_free then kfree (PTE2PA e) else kret ())
                   (kthen (kmod (\<lambda>s. s\<lparr>mem := write64 pte 0 (mem s)\<rparr>))
                      (kret (Inl (a + PGSIZE))))))
      else kret (Inr ()))"

definition uvmunmap :: "addr \<Rightarrow> addr \<Rightarrow> uint64 \<Rightarrow> bool \<Rightarrow> ('z kmem_st_scheme, unit) kprog" where
  "uvmunmap pagetable va npages do_free =
     (if va mod PGSIZE \<noteq> 0 then kpanic ''uvmunmap: not aligned''
      else kwhile (uvmunmap_step pagetable (va + npages * PGSIZE) do_free) va)"

definition uvmcreate :: "('z kmem_st_scheme, addr) kprog" where
  "uvmcreate =
     kbind kalloc (\<lambda>pagetable.
       if pagetable = 0 then kret 0
       else kthen (kmod (\<lambda>s. s\<lparr>mem := memset pagetable 0 4096 (mem s)\<rparr>)) (kret pagetable))"

text \<open>Bytes copied between a physical address and a kernel object that is not a page.\<close>

definition load_bytes :: "memory \<Rightarrow> addr \<Rightarrow> nat \<Rightarrow> uchar list" where
  "load_bytes m a n = map (\<lambda>i. m (a + of_nat i)) [0 ..< n]"

definition store_bytes :: "addr \<Rightarrow> cptr \<Rightarrow> nat \<Rightarrow> memory \<Rightarrow> memory" where
  "store_bytes dst src n m = (\<lambda>a. if unat (a - dst) < n then src (unat (a - dst)) else m a)"

definition uvminit :: "addr \<Rightarrow> cptr \<Rightarrow> uint \<Rightarrow> ('z kmem_st_scheme, unit) kprog" where
  "uvminit pagetable src sz =
     (if sz \<ge> 4096 then kpanic ''inituvm: more than a page''
      else kbind kalloc (\<lambda>m.
           kthen (kmod (\<lambda>s. s\<lparr>mem := memset m 0 4096 (mem s)\<rparr>))
          (kbind (mappages pagetable 0 PGSIZE m (PTE_W OR PTE_R OR PTE_X OR PTE_U)) (\<lambda>_.
           kmod (\<lambda>s. s\<lparr>mem := store_bytes m src (unat sz) (mem s)\<rparr>)))))"

definition uvmdealloc :: "addr \<Rightarrow> uint64 \<Rightarrow> uint64 \<Rightarrow> ('z kmem_st_scheme, uint64) kprog" where
  "uvmdealloc pagetable oldsz newsz =
     (if newsz \<ge> oldsz then kret oldsz
      else kthen
        (if PGROUNDUP newsz < PGROUNDUP oldsz then
           uvmunmap pagetable (PGROUNDUP newsz)
             (scast (ucast ((PGROUNDUP oldsz - PGROUNDUP newsz) div PGSIZE) :: 32 word)) True
         else kret ())
        (kret newsz))"

definition uvmalloc_step ::
  "addr \<Rightarrow> uint64 \<Rightarrow> uint64 \<Rightarrow> uint64 \<Rightarrow> ('z kmem_st_scheme, uint64 + uint64) kprog" where
  "uvmalloc_step pagetable oldsz newsz a =
     (if a < newsz then
        kbind kalloc (\<lambda>m.
          if m = 0 then kbind (uvmdealloc pagetable a oldsz) (\<lambda>_. kret (Inr 0))
          else kthen (kmod (\<lambda>s. s\<lparr>mem := memset m 0 4096 (mem s)\<rparr>))
              (kbind (mappages pagetable a PGSIZE m (PTE_W OR PTE_X OR PTE_R OR PTE_U)) (\<lambda>r.
                 if r \<noteq> 0 then kthen (kfree m) (kbind (uvmdealloc pagetable a oldsz) (\<lambda>_. kret (Inr 0)))
                 else kret (Inl (a + PGSIZE)))))
      else kret (Inr newsz))"

definition uvmalloc :: "addr \<Rightarrow> uint64 \<Rightarrow> uint64 \<Rightarrow> ('z kmem_st_scheme, uint64) kprog" where
  "uvmalloc pagetable oldsz newsz =
     (if newsz < oldsz then kret oldsz
      else kwhile (uvmalloc_step pagetable (PGROUNDUP oldsz) newsz) (PGROUNDUP oldsz))"

text \<open>
  \<^verbatim>\<open>freewalk\<close> calls itself for every entry that points to a lower-level table; the argument \<open>i\<close> is
  the loop variable. On a cyclic structure it does not return.
\<close>

partial_function (option) freewalk_at ::
  "addr \<Rightarrow> nat \<Rightarrow> 'z kmem_st_scheme \<Rightarrow> (unit, 'z kmem_st_scheme) outcome option" where
  "freewalk_at pagetable i s =
     (if i \<ge> 512 then Some (kfree pagetable s)
      else let slot = pagetable + 8 * of_nat i; pte = read64 (mem s) slot
           in if pte AND PTE_V \<noteq> 0 \<and> pte AND (PTE_R OR PTE_W OR PTE_X) = 0
              then Option.bind (freewalk_at (PTE2PA pte) 0 s) (\<lambda>r.
                     case r of
                       Ret u s' \<Rightarrow> freewalk_at pagetable (Suc i) (s'\<lparr>mem := write64 slot 0 (mem s')\<rparr>)
                     | Panic e \<Rightarrow> Some (Panic e) | Block \<Rightarrow> Some Block | Hang \<Rightarrow> Some Hang)
              else if pte AND PTE_V \<noteq> 0 then Some (Panic ''freewalk: leaf'')
              else freewalk_at pagetable (Suc i) s)"

definition freewalk :: "addr \<Rightarrow> ('z kmem_st_scheme, unit) kprog" where
  "freewalk pagetable s = (case freewalk_at pagetable 0 s of None \<Rightarrow> Hang | Some r \<Rightarrow> r)"

definition uvmfree :: "addr \<Rightarrow> uint64 \<Rightarrow> ('z kmem_st_scheme, unit) kprog" where
  "uvmfree pagetable sz =
     kthen (if sz > 0 then uvmunmap pagetable 0 (PGROUNDUP sz div PGSIZE) True else kret ())
       (freewalk pagetable)"

definition uvmcopy_err :: "addr \<Rightarrow> addr \<Rightarrow> ('z kmem_st_scheme, addr + int) kprog" where
  "uvmcopy_err new i = kthen (uvmunmap new 0 (i div PGSIZE) True) (kret (Inr (-1)))"

definition uvmcopy_step ::
  "addr \<Rightarrow> addr \<Rightarrow> uint64 \<Rightarrow> addr \<Rightarrow> ('z kmem_st_scheme, addr + int) kprog" where
  "uvmcopy_step old new sz i =
     (if i < sz then
        kbind (walk old i False) (\<lambda>pte.
          if pte = 0 then kpanic ''uvmcopy: pte should exist''
          else kbind (kget (\<lambda>s. read64 (mem s) pte)) (\<lambda>e.
            if e AND PTE_V = 0 then kpanic ''uvmcopy: page not present''
            else kbind kalloc (\<lambda>m.
              if m = 0 then uvmcopy_err new i
              else kthen (kmod (\<lambda>s. s\<lparr>mem := memmove m (PTE2PA e) 4096 (mem s)\<rparr>))
                  (kbind (mappages new i PGSIZE m (PTE_FLAGS e)) (\<lambda>r.
                     if r \<noteq> 0 then kthen (kfree m) (uvmcopy_err new i)
                     else kret (Inl (i + PGSIZE)))))))
      else kret (Inr 0))"

definition uvmcopy :: "addr \<Rightarrow> addr \<Rightarrow> uint64 \<Rightarrow> ('z kmem_st_scheme, int) kprog" where
  "uvmcopy old new sz = kwhile (uvmcopy_step old new sz) 0"

definition uvmclear :: "addr \<Rightarrow> addr \<Rightarrow> ('z kmem_st_scheme, unit) kprog" where
  "uvmclear pagetable va =
     kbind (walk pagetable va False) (\<lambda>pte.
       if pte = 0 then kpanic ''uvmclear''
       else kmod (\<lambda>s. s\<lparr>mem := write64 pte (read64 (mem s) pte AND NOT PTE_U) (mem s)\<rparr>))"

section \<open>Copying between user and kernel\<close>

text \<open>The locals of the loops: how many bytes of \<open>src\<close> are done (or the bytes collected), the user address, what is left.\<close>

definition copyout_step ::
  "addr \<Rightarrow> cptr \<Rightarrow> nat \<times> addr \<times> uint64 \<Rightarrow> ('z kmem_st_scheme, (nat \<times> addr \<times> uint64) + int) kprog" where
  "copyout_step pagetable src = (\<lambda>(done, dstva, len).
     if len > 0 then
       let va0 = PGROUNDDOWN dstva in
       kbind (walkaddr pagetable va0) (\<lambda>pa0.
         if pa0 = 0 then kret (Inr (-1))
         else let n0 = PGSIZE - (dstva - va0); n = (if n0 > len then len else n0)
              in kthen (kmod (\<lambda>s. s\<lparr>mem := store_bytes (pa0 + (dstva - va0)) (\<lambda>i. src (done + i)) (unat n) (mem s)\<rparr>))
                   (kret (Inl (done + unat n, va0 + PGSIZE, len - n))))
     else kret (Inr 0))"

definition copyout :: "addr \<Rightarrow> addr \<Rightarrow> cptr \<Rightarrow> uint64 \<Rightarrow> ('z kmem_st_scheme, int) kprog" where
  "copyout pagetable dstva src len = kwhile (copyout_step pagetable src) (0, dstva, len)"

definition copyin_step ::
  "addr \<Rightarrow> uchar list \<times> addr \<times> uint64 \<Rightarrow>
   ('z kmem_st_scheme, (uchar list \<times> addr \<times> uint64) + (int \<times> uchar list)) kprog" where
  "copyin_step pagetable = (\<lambda>(dst, srcva, len).
     if len > 0 then
       let va0 = PGROUNDDOWN srcva in
       kbind (walkaddr pagetable va0) (\<lambda>pa0.
         if pa0 = 0 then kret (Inr (-1, dst))
         else let n0 = PGSIZE - (srcva - va0); n = (if n0 > len then len else n0)
              in kbind (kget (\<lambda>s. load_bytes (mem s) (pa0 + (srcva - va0)) (unat n))) (\<lambda>bs.
                   kret (Inl (dst @ bs, va0 + PGSIZE, len - n))))
     else kret (Inr (0, dst)))"

definition copyin :: "addr \<Rightarrow> addr \<Rightarrow> uint64 \<Rightarrow> ('z kmem_st_scheme, int \<times> uchar list) kprog" where
  "copyin pagetable srcva len = kwhile (copyin_step pagetable) ([], srcva, len)"

text \<open>The inner loop of \<^verbatim>\<open>copyinstr\<close>: the bytes stored and whether the terminator was among them.\<close>

fun str_chunk :: "memory \<Rightarrow> addr \<Rightarrow> nat \<Rightarrow> uchar list \<times> bool" where
  "str_chunk m p 0 = ([], False)"
| "str_chunk m p (Suc n) =
     (if m p = 0 then ([0], True)
      else let (xs, got_null) = str_chunk m (p + 1) n in (m p # xs, got_null))"

definition copyinstr_step ::
  "addr \<Rightarrow> bool \<times> uchar list \<times> addr \<times> uint64 \<Rightarrow>
   ('z kmem_st_scheme, (bool \<times> uchar list \<times> addr \<times> uint64) + (int \<times> uchar list)) kprog" where
  "copyinstr_step pagetable = (\<lambda>(got_null, dst, srcva, maxn).
     if \<not> got_null \<and> maxn > 0 then
       let va0 = PGROUNDDOWN srcva in
       kbind (walkaddr pagetable va0) (\<lambda>pa0.
         if pa0 = 0 then kret (Inr (-1, dst))
         else let n0 = PGSIZE - (srcva - va0); n = (if n0 > maxn then maxn else n0)
              in kbind (kget (\<lambda>s. str_chunk (mem s) (pa0 + (srcva - va0)) (unat n))) (\<lambda>(xs, g).
                   kret (Inl (g, dst @ xs, va0 + PGSIZE, if g then maxn - (of_nat (length xs) - 1) else maxn - n))))
     else kret (Inr (if got_null then 0 else -1, dst)))"

definition copyinstr :: "addr \<Rightarrow> addr \<Rightarrow> uint64 \<Rightarrow> ('z kmem_st_scheme, int \<times> uchar list) kprog" where
  "copyinstr pagetable srcva maxn = kwhile (copyinstr_step pagetable) (False, [], srcva, maxn)"

end
