(* ===== verification/PageTable.thy ===== *)
theory PageTable
  imports Vm
begin

text \<open>
  Correctness of the page-table code of \<^verbatim>\<open>kernel/vm.c\<close>: a page table is a tree whose tables are
  distinct pages; walking with allocation grows it by pages of the free list, mapping a range updates
  exactly the leaves of the range, and the copy routines read and write user memory through it.
\<close>

section \<open>Slots of a table page\<close>

definition tslot :: "addr \<Rightarrow> nat \<Rightarrow> addr" where "tslot t i = t + 8 * of_nat i"

definition px :: "nat \<Rightarrow> addr \<Rightarrow> nat" where "px level va = unat va div 2 ^ (12 + 9 * level) mod 512"

lemma mask_512: "(0x1FF :: addr) = mask 9"
  by (simp add: mask_eq_exp_minus_1)

lemma unat_PX: "unat (PX level va) = px level va"
  unfolding PX_def px_def mask_512 take_bit_eq_mask [symmetric]
  unfolding unsigned_take_bit_eq unsigned_drop_bit_eq
  using unat_64 [of va] by (simp add: drop_bit_eq_div take_bit_eq_mod)

lemma PX_eq: "PX level va = of_nat (px level va)"
  by (metis of_nat_unat_word unat_PX)

lemma px_less [simp]: "px level va < 512"
  by (simp add: px_def)

lemma slot_PX: "t + 8 * PX level va = tslot t (px level va)"
  by (simp add: tslot_def PX_eq)

lemma unat_slot:
  assumes "t mod PGSIZE = 0" "i < 512"
  shows "unat (tslot t i) = unat t + 8 * i"
proof -
  obtain k where "unat t = 4096 * k"
    using assms(1) unfolding aligned_iff mod_eq_0_iff_dvd dvd_def by auto
  then have "unat t \<le> 18446744073709547520" using unat_64 [of t] by simp
  moreover have "unat (8 * of_nat i :: addr) = 8 * i" using assms(2) by (simp add: unat_word_ariths unat_of_nat)
  ultimately show ?thesis using assms(2) by (simp add: tslot_def unat_word_ariths)
qed

lemma slot_in_page: "t mod PGSIZE = 0 \<Longrightarrow> i < 512 \<Longrightarrow> j < 8 \<Longrightarrow> in_page t (tslot t i + of_nat j)"
proof -
  assume a: "t mod PGSIZE = 0" "i < 512" "j < 8"
  have "tslot t i + of_nat j = t + of_nat (8 * i + j)" by (simp add: tslot_def)
  with a show ?thesis by (simp del: of_nat_add)
qed

lemma slot_nonzero: "t mod PGSIZE = 0 \<Longrightarrow> i < 512 \<Longrightarrow> t \<noteq> 0 \<Longrightarrow> tslot t i \<noteq> 0"
  using unat_slot [of t i] by (metis add_is_0 unat_eq_zero)

lemma read64_write64_other:
  assumes "unat a + 8 \<le> unat b \<or> unat b + 8 \<le> unat a" "unat a \<le> 18446744073709551608" "unat b \<le> 18446744073709551608"
  shows "read64 (write64 a v m) b = read64 m b"
proof (rule read64_cong)
  fix i :: nat
  assume i: "i < 8"
  have "8 \<le> unat (b + of_nat i - a)"
    using assms i unat_64 [of b] by (auto simp: unat_sub_if' unat_word_ariths unat_of_nat)
  then show "write64 a v m (b + of_nat i) = m (b + of_nat i)" by (rule write64_other)
qed

lemma read_slot_other:
  assumes "t mod PGSIZE = 0" "t' mod PGSIZE = 0" "i < 512" "i' < 512" "t \<noteq> t' \<or> i \<noteq> i'"
  shows "read64 (write64 (tslot t i) e m) (tslot t' i') = read64 m (tslot t' i')"
proof -
  obtain k k' where k: "unat t = 4096 * k" "unat t' = 4096 * k'"
    using assms(1,2) unfolding aligned_iff mod_eq_0_iff_dvd dvd_def by auto
  then have "k < 4503599627370496" "k' < 4503599627370496"
    using unat_64 [of t] unat_64 [of t'] by simp_all
  moreover have "k \<noteq> k' \<or> i \<noteq> i'" using assms(5) k by (metis word_unat_eq_iff)
  then have "4096 * k + 8 * i + 8 \<le> 4096 * k' + 8 * i' \<or> 4096 * k' + 8 * i' + 8 \<le> 4096 * k + 8 * i"
    using assms(3,4) by (cases k k' rule: linorder_cases) auto
  ultimately show ?thesis
    using assms by (intro read64_write64_other) (auto simp: unat_slot k)
qed

lemma read_slot_same_but:
  assumes "same_but p m m'" "p mod PGSIZE = 0" "t mod PGSIZE = 0" "t \<noteq> p" "i < 512"
  shows "read64 m' (tslot t i) = read64 m (tslot t i)"
proof (rule read64_cong)
  fix j :: nat
  assume "j < 8"
  with assms have "\<not> in_page p (tslot t i + of_nat j)"
    using slot_in_page [of t i j] in_page_disjoint [of t p] by auto
  with assms(1) show "m' (tslot t i + of_nat j) = m (tslot t i + of_nat j)" by (simp add: same_but_def)
qed

lemma read_slot_zero: "t mod PGSIZE = 0 \<Longrightarrow> i < 512 \<Longrightarrow> read64 (memset t 0 4096 m) (tslot t i) = 0"
proof -
  assume a: "t mod PGSIZE = 0" "i < 512"
  then have "read64 (memset t 0 4096 m) (tslot t i) = read64 (\<lambda>_. 0) (tslot t i)"
    by (intro read64_cong) (simp add: memset_page slot_in_page)
  also have "\<dots> = 0" by (rule bit_word_eqI) (simp add: read64_def bit_le_get)
  finally show ?thesis .
qed

lemma PTE_V_or: "(x OR PTE_V) AND PTE_V \<noteq> 0"
proof -
  have "bit ((x OR PTE_V) AND PTE_V) 0" by (simp add: bit_simps)
  then show ?thesis by auto
qed

lemma PTE2PA_PA2PTE:
  assumes "p mod PGSIZE = 0" "p < 0x100000000000000" "f < 0x400"
  shows "PTE2PA (PA2PTE p OR f) = p"
proof (rule bit_word_eqI)
  fix n
  assume n: "n < LENGTH(64)"
  have low: "\<not> bit p n" if "n < 12" for n
  proof -
    have "take_bit 12 p = 0" using assms(1) by (simp add: take_bit_eq_mod)
    with that show ?thesis by (metis bit_0_eq bit_take_bit_iff bot_apply bot_bool_def)
  qed
  have high: "\<not> bit p n" if "56 \<le> n" for n
  proof -
    have "take_bit 56 p = p" using assms(2) by (simp add: take_bit_eq_mod word_unat_eq_iff unat_mod_distrib word_less_nat_alt)
    with that show ?thesis by (metis bit_take_bit_iff not_le)
  qed
  have f: "\<not> bit f n" if "10 \<le> n" for n
  proof -
    have "take_bit 10 f = f" using assms(3) by (simp add: take_bit_eq_mod word_unat_eq_iff unat_mod_distrib word_less_nat_alt)
    with that show ?thesis by (metis bit_take_bit_iff not_le)
  qed
  show "bit (PTE2PA (PA2PTE p OR f)) n \<longleftrightarrow> bit p n"
    using n low [of n] high [of n] f [of "n - 2"]
    by (cases "n < 12") (auto simp: PTE2PA_def PA2PTE_def bit_simps not_less)
qed

section \<open>The tree of tables\<close>

text \<open>
  The page reached from the root after \<open>d\<close> steps of the walk for \<open>va\<close>: table pages for \<open>d \<le> 2\<close>, the
  mapped page for \<open>d = 3\<close>; 0 where an entry on the way is not valid. \<open>pte_of\<close> is the valid leaf
  entry (0 if there is none).
\<close>

fun tbl :: "memory \<Rightarrow> addr \<Rightarrow> nat \<Rightarrow> addr \<Rightarrow> addr" where
  "tbl m pt 0 va = pt"
| "tbl m pt (Suc d) va =
     (let t = tbl m pt d va; e = read64 m (tslot t (px (2 - d) va))
      in if t \<noteq> 0 \<and> e AND PTE_V \<noteq> 0 then PTE2PA e else 0)"

definition pte_of :: "memory \<Rightarrow> addr \<Rightarrow> addr \<Rightarrow> uint64" where
  "pte_of m pt va =
     (let t = tbl m pt 2 va; e = read64 m (tslot t (px 0 va))
      in if t \<noteq> 0 \<and> e AND PTE_V \<noteq> 0 then e else 0)"

text \<open>The part of the address space below a table, by number.\<close>

definition region :: "nat \<Rightarrow> addr \<Rightarrow> nat" where
  "region d va = unat va div 2 ^ (12 + 9 * (3 - d))"

lemma region_Suc:
  assumes "d \<le> 2"
  shows "region d va = region (Suc d) va div 512" and "px (2 - d) va = region (Suc d) va mod 512"
proof -
  have "12 + 9 * (3 - d) = (12 + 9 * (2 - d)) + 9" using assms by simp
  then have "(2::nat) ^ (12 + 9 * (3 - d)) = 2 ^ (12 + 9 * (2 - d)) * 512" by (simp only: power_add) simp
  then show "region d va = region (Suc d) va div 512"
    by (simp only: region_def div_mult2_eq) simp
  show "px (2 - d) va = region (Suc d) va mod 512" by (simp add: region_def px_def)
qed

lemma region_Suc_eq:
  assumes "d \<le> 2"
  shows "region (Suc d) va = region (Suc d) va' \<longleftrightarrow> region d va = region d va' \<and> px (2 - d) va = px (2 - d) va'"
  using region_Suc [OF assms] by (metis div_mult_mod_eq)

lemma region_0: "va < MAXVA \<Longrightarrow> region 0 va = 0"
  by (simp add: region_def word_less_nat_alt)

definition tables :: "memory \<Rightarrow> addr \<Rightarrow> addr set" where
  "tables m pt = {tbl m pt d va | d va. d \<le> 2 \<and> va < MAXVA} - {0}"

definition pt_inv :: "memory \<Rightarrow> addr \<Rightarrow> bool" where
  "pt_inv m pt \<longleftrightarrow> pt \<noteq> 0 \<and> (\<forall>t\<in>tables m pt. t mod PGSIZE = 0) \<and>
     (\<forall>d va d' va'. d \<le> 2 \<longrightarrow> va < MAXVA \<longrightarrow> d' \<le> 2 \<longrightarrow> va' < MAXVA \<longrightarrow> tbl m pt d va \<noteq> 0 \<longrightarrow>
        tbl m pt d va = tbl m pt d' va' \<longrightarrow> d = d' \<and> region d va = region d va') \<and>
     (\<forall>d va. d < 2 \<longrightarrow> va < MAXVA \<longrightarrow> tbl m pt d va \<noteq> 0 \<longrightarrow>
        read64 m (tslot (tbl m pt d va) (px (2 - d) va)) AND PTE_V \<noteq> 0 \<longrightarrow> tbl m pt (Suc d) va \<noteq> 0)"

lemma tables_I: "d \<le> 2 \<Longrightarrow> va < MAXVA \<Longrightarrow> tbl m pt d va \<noteq> 0 \<Longrightarrow> tbl m pt d va \<in> tables m pt"
  by (auto simp: tables_def)

lemma pt_inv_aligned: "pt_inv m pt \<Longrightarrow> d \<le> 2 \<Longrightarrow> va < MAXVA \<Longrightarrow> tbl m pt d va mod PGSIZE = 0"
  using tables_I [of d va m pt] by (cases "tbl m pt d va = 0") (auto simp: pt_inv_def)

lemma pt_inv_inj:
  "pt_inv m pt \<Longrightarrow> tbl m pt d va = tbl m pt d' va' \<Longrightarrow> tbl m pt d va \<noteq> 0 \<Longrightarrow>
   d \<le> 2 \<Longrightarrow> va < MAXVA \<Longrightarrow> d' \<le> 2 \<Longrightarrow> va' < MAXVA \<Longrightarrow> d = d' \<and> region d va = region d va'"
  unfolding pt_inv_def by blast

lemma tbl_same_but:
  assumes "pt_inv m pt" "same_but p m m'" "p mod PGSIZE = 0" "p \<notin> tables m pt" "va < MAXVA"
  shows "d \<le> 3 \<Longrightarrow> tbl m' pt d va = tbl m pt d va"
    and "d \<le> 2 \<Longrightarrow> tbl m pt d va \<noteq> 0 \<Longrightarrow>
      read64 m' (tslot (tbl m pt d va) (px (2 - d) va)) = read64 m (tslot (tbl m pt d va) (px (2 - d) va))"
    and "pte_of m' pt va = pte_of m pt va"
proof -
  have rd: "read64 m' (tslot (tbl m pt d va) (px (2 - d) va)) = read64 m (tslot (tbl m pt d va) (px (2 - d) va))"
    if "d \<le> 2" "tbl m pt d va \<noteq> 0" for d
    using assms that tables_I [of d va m pt] pt_inv_aligned [of m pt d va] by (intro read_slot_same_but [OF assms(2,3)]) auto
  then show "d \<le> 2 \<Longrightarrow> tbl m pt d va \<noteq> 0 \<Longrightarrow>
      read64 m' (tslot (tbl m pt d va) (px (2 - d) va)) = read64 m (tslot (tbl m pt d va) (px (2 - d) va))" .
  show t: "tbl m' pt d va = tbl m pt d va" if "d \<le> 3" for d
    using that by (induction d) (auto simp: Let_def rd)
  show "pte_of m' pt va = pte_of m pt va"
    using rd [of 2] by (auto simp: pte_of_def Let_def t)
qed

lemma tbl_write:
  assumes "pt_inv m pt" "d \<le> 2" "va < MAXVA" "va' < MAXVA" "t = tbl m pt d va" "t \<noteq> 0"
    and m': "m' = write64 (tslot t (px (2 - d) va)) e m"
  shows "d' \<le> 2 \<Longrightarrow> d' \<noteq> d \<or> region (Suc d) va' \<noteq> region (Suc d) va \<Longrightarrow> tbl m pt d' va' \<noteq> 0 \<Longrightarrow>
      read64 m' (tslot (tbl m pt d' va') (px (2 - d') va')) = read64 m (tslot (tbl m pt d' va') (px (2 - d') va'))"
    and "d' \<le> 3 \<Longrightarrow> d' \<le> d \<or> region (Suc d) va' \<noteq> region (Suc d) va \<Longrightarrow> tbl m' pt d' va' = tbl m pt d' va'"
proof -
  have rd: "read64 m' (tslot (tbl m pt d' va') (px (2 - d') va')) = read64 m (tslot (tbl m pt d' va') (px (2 - d') va'))"
    if "d' \<le> 2" "d' \<noteq> d \<or> region (Suc d) va' \<noteq> region (Suc d) va" "tbl m pt d' va' \<noteq> 0" for d'
    unfolding m'
  proof (rule read_slot_other)
    show "t \<noteq> tbl m pt d' va' \<or> px (2 - d) va \<noteq> px (2 - d') va'"
      using pt_inv_inj [OF assms(1), of d va d' va'] assms(2-6) that region_Suc_eq [OF assms(2), of va' va] by auto
  qed (use assms pt_inv_aligned that in auto)
  then show "d' \<le> 2 \<Longrightarrow> d' \<noteq> d \<or> region (Suc d) va' \<noteq> region (Suc d) va \<Longrightarrow> tbl m pt d' va' \<noteq> 0 \<Longrightarrow>
      read64 m' (tslot (tbl m pt d' va') (px (2 - d') va')) = read64 m (tslot (tbl m pt d' va') (px (2 - d') va'))" .
  show "d' \<le> 3 \<Longrightarrow> d' \<le> d \<or> region (Suc d) va' \<noteq> region (Suc d) va \<Longrightarrow> tbl m' pt d' va' = tbl m pt d' va'"
    by (induction d') (auto simp: Let_def rd)
qed

lemma pt_inv_same_but:
  assumes "pt_inv m pt" "same_but p m m'" "p mod PGSIZE = 0" "p \<notin> tables m pt"
  shows "pt_inv m' pt" and "tables m' pt = tables m pt"
proof -
  have t: "\<And>d va. d \<le> 3 \<Longrightarrow> va < MAXVA \<Longrightarrow> tbl m' pt d va = tbl m pt d va"
    using tbl_same_but(1) [OF assms] .
  show tb: "tables m' pt = tables m pt" unfolding tables_def
    by (intro arg_cong [where f = "\<lambda>X. X - {0}"] Collect_cong ex_cong1) (auto simp: t)
  show "pt_inv m' pt"
    unfolding pt_inv_def tb
    using assms(1) tbl_same_but(2) [OF assms] by (auto simp: pt_inv_def t simp del: tbl.simps)
qed

lemma tbl_region: "d \<le> 3 \<Longrightarrow> region d va' = region d va \<Longrightarrow> tbl m pt d va' = tbl m pt d va"
proof (induction d)
  case (Suc d)
  then show ?case using region_Suc_eq [of d va' va] by (simp add: Let_def)
qed simp

text \<open>Hanging a zeroed page \<open>p\<close> into an empty slot of the tree.\<close>

lemma tbl_grow:
  assumes inv: "pt_inv m pt" and d: "d < 2" and va: "va < MAXVA" "va' < MAXVA"
    and t: "t = tbl m pt d va" "t \<noteq> 0" "read64 m (tslot t (px (2 - d) va)) AND PTE_V = 0"
    and p: "p mod PGSIZE = 0" "p \<noteq> 0" "p < PHYSTOP" "p \<notin> tables m pt" "\<forall>i<512. read64 m (tslot p i) = 0"
    and m': "m' = write64 (tslot t (px (2 - d) va)) (PA2PTE p OR PTE_V) m"
  shows "d' \<le> 3 \<Longrightarrow> tbl m' pt d' va' =
      (if d' \<le> d \<or> region (Suc d) va' \<noteq> region (Suc d) va then tbl m pt d' va' else if d' = Suc d then p else 0)"
      (is "_ \<Longrightarrow> _ = ?new d'")
    and "pte_of m' pt va' = pte_of m pt va'"
proof -
  have d2: "d \<le> 2" using d by simp
  note w = tbl_write [OF inv d2 va t(1,2) m']
  have e: "PTE2PA (PA2PTE p OR PTE_V) = p"
    using p by (intro PTE2PA_PA2PTE) (auto intro: less_trans)
  have pz: "read64 m' (tslot p i) = 0" if "i < 512" for i
    using p t that tables_I [of d va m pt] va d pt_inv_aligned [OF inv, of d va]
    by (subst m', subst read_slot_other) auto
  have new: "tbl m' pt d' va' = ?new d'" if "d' \<le> 3" for d'
    using that
  proof (induction d')
    case (Suc d')
    consider "Suc d' \<le> d \<or> region (Suc d) va' \<noteq> region (Suc d) va"
      | "d' = d" "region (Suc d) va' = region (Suc d) va" | "d' > d" "region (Suc d) va' = region (Suc d) va"
      by linarith
    then show ?case
    proof cases
      case 1
      then show ?thesis using w(2) [OF Suc.prems] by auto
    next
      case 2
      then have "region d va' = region d va" "px (2 - d) va' = px (2 - d) va"
        using region_Suc_eq [of d va' va] d by auto
      with 2 Suc t have "tbl m' pt d va' = t" using tbl_region [of d va' va m pt] d by simp
      with 2 t e show ?thesis
        by (simp add: Let_def m' \<open>px (2 - d) va' = px (2 - d) va\<close> PTE_V_or)
    next
      case 3
      then have "tbl m' pt d' va' = (if d' = Suc d then p else 0)" using Suc by simp
      with 3 pz show ?thesis by (simp add: Let_def)
    qed
  qed simp
  then show "d' \<le> 3 \<Longrightarrow> tbl m' pt d' va' = ?new d'" .
  show "pte_of m' pt va' = pte_of m pt va'"
  proof (cases "region (Suc d) va' = region (Suc d) va")
    case True
    then have "tbl m pt (Suc d) va' = 0" using t tbl_region [of "Suc d" va' va m pt] d by (simp add: Let_def)
    moreover have "d = 0 \<or> d = 1" using d by auto
    ultimately have "tbl m pt 2 va' = 0" by (auto simp: numeral_2_eq_2)
    moreover have "tbl m' pt 2 va' = 0 \<or> tbl m' pt 2 va' = p" using new [of 2] True d by auto
    ultimately show ?thesis using pz [of "px 0 va'"] by (auto simp: pte_of_def Let_def)
  next
    case False
    then show ?thesis
      using new [of 2] w(1) [of 2] d by (cases "tbl m pt 2 va' = 0") (auto simp: pte_of_def Let_def)
  qed
qed

lemma pt_inv_grow:
  assumes inv: "pt_inv m pt" and d: "d < 2" and va: "va < MAXVA"
    and t: "t = tbl m pt d va" "t \<noteq> 0" "read64 m (tslot t (px (2 - d) va)) AND PTE_V = 0"
    and p: "p mod PGSIZE = 0" "p \<noteq> 0" "p < PHYSTOP" "p \<notin> tables m pt" "\<forall>i<512. read64 m (tslot p i) = 0"
    and m': "m' = write64 (tslot t (px (2 - d) va)) (PA2PTE p OR PTE_V) m"
  shows "pt_inv m' pt" and "tables m' pt \<subseteq> insert p (tables m pt)"
proof -
  have d2: "d \<le> 2" using d by simp
  note new = tbl_grow(1) [OF inv d va _ t p m']
  have old: "tbl m' pt d1 va1 \<in> tables m pt \<and> tbl m' pt d1 va1 = tbl m pt d1 va1 \<or>
      tbl m' pt d1 va1 = p \<and> d1 = Suc d \<and> region d1 va1 = region d1 va"
    if "d1 \<le> 2" "va1 < MAXVA" "tbl m' pt d1 va1 \<noteq> 0" for d1 va1
    using new [OF that(2), of d1] that tables_I [of d1 va1 m pt] by (auto split: if_splits)
  show tb: "tables m' pt \<subseteq> insert p (tables m pt)"
    using old by (auto simp: tables_def [of m'])
  have inj: "d1 = d2 \<and> region d1 va1 = region d1 va2"
    if "d1 \<le> 2" "va1 < MAXVA" "d2 \<le> 2" "va2 < MAXVA" "tbl m' pt d1 va1 \<noteq> 0" "tbl m' pt d1 va1 = tbl m' pt d2 va2"
    for d1 va1 d2 va2
    using old [of d1 va1] old [of d2 va2] that p(4) pt_inv_inj [OF inv, of d1 va1 d2 va2] by auto
  have pz: "read64 m' (tslot p i) = 0" if "i < 512" for i
    using p t that tables_I [of d va m pt] va d pt_inv_aligned [OF inv, of d va]
    by (subst m', subst read_slot_other) auto
  have nz: "tbl m' pt (Suc d1) va1 \<noteq> 0"
    if h: "d1 < 2" "va1 < MAXVA" "tbl m' pt d1 va1 \<noteq> 0" "read64 m' (tslot (tbl m' pt d1 va1) (px (2 - d1) va1)) AND PTE_V \<noteq> 0"
    for d1 va1
  proof -
    consider "d1 = d" "region (Suc d) va1 = region (Suc d) va" | "tbl m' pt d1 va1 = p"
      | "d1 < d \<or> region (Suc d) va1 \<noteq> region (Suc d) va"
      using new [OF h(2), of d1] h(1,3) by (cases d1 d rule: linorder_cases) (auto split: if_splits)
    then show ?thesis
    proof cases
      case 1
      then show ?thesis using new [OF h(2), of "Suc d"] d p(2) by auto
    next
      case 2
      then show ?thesis using h(4) pz [of "px (2 - d1) va1"] by simp
    next
      case 3
      then have "tbl m' pt d1 va1 = tbl m pt d1 va1" "tbl m' pt (Suc d1) va1 = tbl m pt (Suc d1) va1"
        using new [OF h(2), of d1] new [OF h(2), of "Suc d1"] h(1) by auto
      moreover have "read64 m' (tslot (tbl m pt d1 va1) (px (2 - d1) va1)) = read64 m (tslot (tbl m pt d1 va1) (px (2 - d1) va1))"
        using tbl_write(1) [OF inv d2 va h(2) t(1,2) m', of d1] 3 h calculation by auto
      ultimately show ?thesis using inv h unfolding pt_inv_def by metis
    qed
  qed
  have "\<forall>x\<in>tables m pt. x mod PGSIZE = 0" using inv by (simp add: pt_inv_def)
  then have "\<forall>x\<in>tables m' pt. x mod PGSIZE = 0" using tb p(1) by (metis insert_iff subset_iff)
  moreover have "pt \<noteq> 0" using inv by (simp add: pt_inv_def)
  ultimately show "pt_inv m' pt" unfolding pt_inv_def using inj nz by blast
qed

text \<open>Writing a leaf entry.\<close>

lemma leaf_write:
  assumes inv: "pt_inv m pt" and va: "va < MAXVA" and t: "t = tbl m pt 2 va" "t \<noteq> 0"
    and m': "m' = write64 (tslot t (px 0 va)) e m"
  shows "pt_inv m' pt" and "tables m' pt = tables m pt"
    and "e AND PTE_V \<noteq> 0 \<Longrightarrow> va' < MAXVA \<Longrightarrow>
      pte_of m' pt va' = (if region 3 va' = region 3 va then e else pte_of m pt va')"
proof -
  have m2: "m' = write64 (tslot t (px (2 - 2) va)) e m" using m' by simp
  note w = tbl_write [OF inv order_refl va _ t m2]
  have tb: "tbl m' pt d va' = tbl m pt d va'" if "d \<le> 2" "va' < MAXVA" for d va'
    using w(2) [OF that(2), of d] that(1) by simp
  show tbs: "tables m' pt = tables m pt" unfolding tables_def
    by (intro arg_cong [where f = "\<lambda>X. X - {0}"] Collect_cong ex_cong1) (auto simp: tb)
  have rd: "read64 m' (tslot (tbl m pt d va') (px (2 - d) va')) = read64 m (tslot (tbl m pt d va') (px (2 - d) va'))"
    if "d < 2" "va' < MAXVA" "tbl m pt d va' \<noteq> 0" for d va'
    using w(1) [OF that(2), of d] that by simp
  show "pt_inv m' pt"
    unfolding pt_inv_def tbs using inv rd by (auto simp: pt_inv_def tb Suc_le_eq simp del: tbl.simps)
  show "pte_of m' pt va' = (if region 3 va' = region 3 va then e else pte_of m pt va')"
    if e: "e AND PTE_V \<noteq> 0" and va': "va' < MAXVA"
  proof (cases "region 3 va' = region 3 va")
    case True
    then have "region 2 va' = region 2 va" "px 0 va' = px 0 va"
      using region_Suc_eq [of 2 va' va] by (simp_all add: numeral_3_eq_3 numeral_2_eq_2)
    then have "tbl m pt 2 va' = t" using t tbl_region [of 2 va' va m pt] by simp
    then have "tbl m' pt 2 va' = t" using tb [of 2 va'] va' by simp
    moreover have "read64 m' (tslot t (px 0 va')) = e" using \<open>px 0 va' = px 0 va\<close> by (simp add: m')
    ultimately show ?thesis using True e t(2) by (simp add: pte_of_def Let_def)
  next
    case False
    then show ?thesis
      using w(1) [OF va', of 2] va' by (cases "tbl m pt 2 va' = 0") (auto simp: pte_of_def Let_def tb)
  qed
qed

section \<open>Walking with allocation\<close>

text \<open>
  What an operation on the tree may do: take pages from the front of the free list, write to table
  pages and to the pages taken, and nothing else.
\<close>

definition pt_step ::
  "addr \<Rightarrow> 'z kmem_st_scheme \<Rightarrow> addr list \<Rightarrow> 'z kmem_st_scheme \<Rightarrow> addr list \<Rightarrow> bool" where
  "pt_step pt s free s' free' \<longleftrightarrow>
     kmem_inv s' free' \<and> pt_inv (mem s') pt \<and> set free' \<inter> tables (mem s') pt = {} \<and>
     (\<exists>taken. free = taken @ free') \<and> s'\<lparr>mem := mem s, freelist := freelist s\<rparr> = s \<and>
     tables (mem s') pt \<union> set free' \<subseteq> tables (mem s) pt \<union> set free \<and>
     (\<forall>a. (\<forall>p\<in>tables (mem s) pt \<union> set free. \<not> in_page p a) \<longrightarrow> mem s' a = mem s a)"

lemma pt_step_refl:
  "kmem_inv s free \<Longrightarrow> pt_inv (mem s) pt \<Longrightarrow> set free \<inter> tables (mem s) pt = {} \<Longrightarrow> pt_step pt s free s free"
  by (auto simp: pt_step_def)

lemma pt_step_trans:
  assumes "pt_step pt s free s' free'" "pt_step pt s' free' s'' free''"
  shows "pt_step pt s free s'' free''"
proof -
  have "s''\<lparr>mem := mem s, freelist := freelist s\<rparr> =
      (s''\<lparr>mem := mem s', freelist := freelist s'\<rparr>)\<lparr>mem := mem s, freelist := freelist s\<rparr>" by simp
  also have "\<dots> = s" using assms unfolding pt_step_def by (simp only:)
  finally have "s''\<lparr>mem := mem s, freelist := freelist s\<rparr> = s" .
  moreover have "\<exists>taken. free = taken @ free''" using assms unfolding pt_step_def by auto
  moreover have "mem s'' a = mem s a" if "\<forall>p\<in>tables (mem s) pt \<union> set free. \<not> in_page p a" for a
  proof -
    have "tables (mem s') pt \<union> set free' \<subseteq> tables (mem s) pt \<union> set free" using assms(1) unfolding pt_step_def by blast
    then have "\<forall>p\<in>tables (mem s') pt \<union> set free'. \<not> in_page p a" using that by blast
    then have "mem s'' a = mem s' a" "mem s' a = mem s a" using assms that unfolding pt_step_def by blast+
    then show ?thesis by simp
  qed
  ultimately show ?thesis using assms unfolding pt_step_def by blast
qed

lemma kmem_inv_same:
  assumes "kmem_inv s free" "mem s' = m'" "freelist s' = freelist s" "kend s' = kend s"
    "same_but p (mem s) m'" "p mod PGSIZE = 0" "p \<notin> set free"
  shows "kmem_inv s' free"
proof -
  have "flist m' (freelist s) free = flist (mem s) (freelist s) free"
    using assms by (intro flist_same_but [of p]) (auto simp: kmem_inv_def page_ok_def)
  then show ?thesis using assms by (auto simp: kmem_inv_def page_ok_def)
qed

lemma same_but_slot: "t mod PGSIZE = 0 \<Longrightarrow> i < 512 \<Longrightarrow> same_but t m (write64 (tslot t i) e m)"
proof -
  assume a: "t mod PGSIZE = 0" "i < 512"
  have "unat (a - tslot t i) \<ge> 8" if "\<not> in_page t a" for a
  proof (rule ccontr)
    assume "\<not> 8 \<le> unat (a - tslot t i)"
    then have "in_page t (tslot t i + of_nat (unat (a - tslot t i)))" using a by (intro slot_in_page) auto
    with that show False by simp
  qed
  then show ?thesis by (simp add: same_but_def write64_other)
qed

lemma alloc_table:
  assumes km: "kmem_inv s (p # free)" and inv: "pt_inv (mem s) pt" "set (p # free) \<inter> tables (mem s) pt = {}"
    and d: "d < 2" and va: "va < MAXVA" and t: "t = tbl (mem s) pt d va" "t \<noteq> 0"
      "read64 (mem s) (tslot t (px (2 - d) va)) AND PTE_V = 0"
    and s': "s' = s\<lparr>freelist := read64 (mem s) p, mem := write64 (tslot t (px (2 - d) va)) (PA2PTE p OR PTE_V)
               (memset p 0 4096 (memset p 5 4096 (mem s)))\<rparr>"
  shows "pt_step pt s (p # free) s' free" and "tbl (mem s') pt (Suc d) va = p"
    and "va' < MAXVA \<Longrightarrow> pte_of (mem s') pt va' = pte_of (mem s) pt va'"
proof -
  let ?m = "memset p 0 4096 (memset p 5 4096 (mem s))"
  let ?s = "s\<lparr>freelist := read64 (mem s) p, mem := ?m\<rparr>"
  have p: "p mod PGSIZE = 0" "p \<noteq> 0" "p < PHYSTOP" "p \<notin> tables (mem s) pt" "p \<notin> set free"
    using km inv by (auto simp: kmem_inv_def page_ok_def)
  have sb: "same_but p (mem s) ?m" by (blast intro: same_but_trans same_but_memset)
  note fr = tbl_same_but [OF inv(1) sb p(1,4)] and inv' = pt_inv_same_but [OF inv(1) sb p(1,4)]
  have t': "t = tbl ?m pt d va" "read64 ?m (tslot t (px (2 - d) va)) AND PTE_V = 0"
    using fr(1,2) [OF va, of d] d t by auto
  have p': "p \<notin> tables ?m pt" "\<forall>i<512. read64 ?m (tslot p i) = 0" using p inv' read_slot_zero [OF p(1)] by auto
  have m': "mem s' = write64 (tslot t (px (2 - d) va)) (PA2PTE p OR PTE_V) ?m" using s' by simp
  note g = pt_inv_grow [OF inv'(1) d va t'(1) t(2) t'(2) p(1,2,3) p' m']
    and gt = tbl_grow [OF inv'(1) d va _ t'(1) t(2) t'(2) p(1,2,3) p' m']
  show "tbl (mem s') pt (Suc d) va = p" using gt(1) [OF va, of "Suc d"] d by auto
  show "va' < MAXVA \<Longrightarrow> pte_of (mem s') pt va' = pte_of (mem s) pt va'"
    using gt(2) [of va'] fr(3) [of va'] by simp
  have tt: "t \<in> tables (mem s) pt" "t mod PGSIZE = 0"
    using tables_I [of d va "mem s" pt] pt_inv_aligned [OF inv(1), of d va] d va t by auto
  have "kmem_inv ?s free"
    using kalloc_some(2) [OF km] sb p same_but_memset [of p "memset p 5 4096 (mem s)" 0]
    by (elim kmem_inv_same) auto
  then have "kmem_inv s' free"
    by (rule kmem_inv_same [where p = t]) (use tt inv s' same_but_slot [OF tt(2)] in auto)
  moreover have "mem s' a = mem s a" if "\<forall>q\<in>tables (mem s) pt \<union> set (p # free). \<not> in_page q a" for a
    using that sb same_but_slot [OF tt(2), of "px (2 - d) va" ?m] tt(1) by (auto simp: m' same_but_def)
  ultimately show "pt_step pt s (p # free) s' free"
    using g inv p inv'(2) unfolding pt_step_def s' by auto
qed

lemma walk_alloc:
  assumes "l \<le> 2" "va < MAXVA" "kmem_inv s free" "pt_inv (mem s) pt" "set free \<inter> tables (mem s) pt = {}"
    "tbl (mem s) pt (2 - l) va \<noteq> 0"
  shows "\<exists>r s' free'. walk_from l (tbl (mem s) pt (2 - l) va) va True s = Ret r s' \<and> pt_step pt s free s' free' \<and>
    (\<forall>va'<MAXVA. pte_of (mem s') pt va' = pte_of (mem s) pt va') \<and>
    (if r = 0 then free' = [] else tbl (mem s') pt 2 va \<noteq> 0 \<and> r = tslot (tbl (mem s') pt 2 va) (px 0 va))"
  using assms
proof (induction l arbitrary: s free)
  case 0
  then have "tslot (tbl (mem s) pt 2 va) (px 0 va) \<noteq> 0"
    using pt_inv_aligned [OF 0(4), of 2 va] by (intro slot_nonzero) auto
  with 0 pt_step_refl [OF 0(3-5)] show ?case
    by (intro exI [of _ "tslot (tbl (mem s) pt 2 va) (px 0 va)"] exI [of _ s] exI [of _ free])
      (simp add: kprog_simps slot_PX)
next
  case (Suc l)
  let ?d = "2 - Suc l"
  have d: "?d < 2" "Suc ?d = 2 - l" "2 - ?d = Suc l" using Suc.prems(1) by auto
  let ?t = "tbl (mem s) pt ?d va"
  let ?e = "read64 (mem s) (tslot ?t (px (Suc l) va))"
  show ?case
  proof (cases "?e AND PTE_V = 0")
    case False
    then have "tbl (mem s) pt (2 - l) va = PTE2PA ?e" using Suc.prems(6) by (simp only: d(2) [symmetric] tbl.simps Let_def d(3)) simp
    moreover have "tbl (mem s) pt (2 - l) va \<noteq> 0"
      using Suc.prems(2,4,6) False d unfolding pt_inv_def by metis
    ultimately show ?thesis
      using Suc.IH [OF _ Suc.prems(2-5)] Suc.prems(1) False by (simp add: slot_PX Let_def)
  next
    case True
    show ?thesis
    proof (cases free)
      case Nil
      with True Suc.prems(3) pt_step_refl [OF Suc.prems(3-5)] show ?thesis
        by (intro exI [of _ 0] exI [of _ s] exI [of _ "[]"]) (simp add: slot_PX Let_def kprog_simps kalloc_none)
    next
      case (Cons p fs)
      let ?s = "s\<lparr>freelist := read64 (mem s) p, mem := write64 (tslot ?t (px (2 - ?d) va)) (PA2PTE p OR PTE_V)
               (memset p 0 4096 (memset p 5 4096 (mem s)))\<rparr>"
      have True': "read64 (mem s) (tslot ?t (px (2 - ?d) va)) AND PTE_V = 0" using True d(3) by (simp only:)
      note a = alloc_table [OF Suc.prems(3-5) [unfolded Cons] d(1) Suc.prems(2) refl Suc.prems(6) True' refl]
      have p0: "p \<noteq> 0" using Suc.prems(3) Cons by (simp add: kmem_inv_def)
      have "kmem_inv ?s fs" "pt_inv (mem ?s) pt" "set fs \<inter> tables (mem ?s) pt = {}" using a(1) unfolding pt_step_def by blast+
      then obtain r s' free' where r: "walk_from l p va True ?s = Ret r s'" "pt_step pt ?s fs s' free'"
        "\<forall>va'<MAXVA. pte_of (mem s') pt va' = pte_of (mem ?s) pt va'"
        "if r = 0 then free' = [] else tbl (mem s') pt 2 va \<noteq> 0 \<and> r = tslot (tbl (mem s') pt 2 va) (px 0 va)"
        using Suc.IH [of ?s fs] Suc.prems(1,2) a(2) p0 unfolding d(2) by force
      have "walk_from (Suc l) ?t va True s = Ret r s'"
        using True r(1) [unfolded d(3)] p0 kalloc_some(1) [OF Suc.prems(3) [unfolded Cons]]
        by (simp add: slot_PX Let_def kprog_simps d(3))
      moreover have "pt_step pt s free s' free'" using pt_step_trans [OF a(1) r(2)] Cons by simp
      moreover have "\<forall>va'<MAXVA. pte_of (mem s') pt va' = pte_of (mem s) pt va'"
        using r(3) a(3) by (auto simp del: tbl.simps)
      ultimately show ?thesis using r(4) by (intro exI conjI)
    qed
  qed
qed

lemma walk_alloc_root:
  assumes "va < MAXVA" "kmem_inv s free" "pt_inv (mem s) pt" "set free \<inter> tables (mem s) pt = {}"
  obtains r s' free' where "walk pt va True s = Ret r s'" "pt_step pt s free s' free'"
    "\<forall>va'<MAXVA. pte_of (mem s') pt va' = pte_of (mem s) pt va'"
    "if r = 0 then free' = [] else tbl (mem s') pt 2 va \<noteq> 0 \<and> r = tslot (tbl (mem s') pt 2 va) (px 0 va)"
proof -
  have "pt \<noteq> 0" using assms(3) by (simp add: pt_inv_def)
  moreover have "\<not> MAXVA \<le> va" using assms(1) by (simp add: not_le)
  ultimately show thesis
    using walk_alloc [OF _ assms, of 2] that by (auto simp: walk_def simp del: walk_from.simps)
qed

text \<open>Reading the tree.\<close>

lemma walk_from_False: "\<exists>r. walk_from l pt va False s = Ret r s"
  by (induction l arbitrary: pt) (auto simp: kprog_simps Let_def)

lemma walk_lookup:
  assumes "l \<le> 2" "va < MAXVA" "pt_inv (mem s) pt" "tbl (mem s) pt (2 - l) va \<noteq> 0"
  shows "walk_from l (tbl (mem s) pt (2 - l) va) va False s =
    Ret (if tbl (mem s) pt 2 va = 0 then 0 else tslot (tbl (mem s) pt 2 va) (px 0 va)) s"
  using assms
proof (induction l)
  case 0
  then show ?case by (simp add: kprog_simps slot_PX)
next
  case (Suc l)
  let ?d = "2 - Suc l"
  have d: "?d < 2" "Suc ?d = 2 - l" "2 - ?d = Suc l" using Suc.prems(1) by auto
  let ?e = "read64 (mem s) (tslot (tbl (mem s) pt ?d va) (px (Suc l) va))"
  have step: "tbl (mem s) pt (2 - l) va = (if ?e AND PTE_V = 0 then 0 else PTE2PA ?e)"
    using Suc.prems(4) by (simp only: d(2) [symmetric] tbl.simps Let_def d(3)) simp
  show ?case
  proof (cases "?e AND PTE_V = 0")
    case True
    then have "tbl (mem s) pt (2 - l) va = 0" using step by simp
    moreover have "l = 0 \<or> l = 1" using Suc.prems(1) by auto
    ultimately have "tbl (mem s) pt 2 va = 0" by (auto simp: numeral_2_eq_2)
    with True show ?thesis by (simp add: slot_PX Let_def)
  next
    case False
    then have "tbl (mem s) pt (2 - l) va \<noteq> 0"
      using Suc.prems(2-4) d unfolding pt_inv_def by metis
    with Suc False step show ?thesis by (simp add: slot_PX Let_def)
  qed
qed

definition upage :: "memory \<Rightarrow> addr \<Rightarrow> addr \<Rightarrow> addr" where
  "upage m pt va = (let e = pte_of m pt va in if va < MAXVA \<and> e AND PTE_U \<noteq> 0 then PTE2PA e else 0)"

lemma walkaddr_upage: "pt_inv (mem s) pt \<Longrightarrow> walkaddr pt va s = Ret (upage (mem s) pt va) s"
proof (cases "va < MAXVA")
  case True
  assume inv: "pt_inv (mem s) pt"
  then have "pt \<noteq> 0" by (simp add: pt_inv_def)
  moreover have "\<not> MAXVA \<le> va" using True by (simp add: not_le)
  ultimately have w: "walk pt va False s = Ret (if tbl (mem s) pt 2 va = 0 then 0 else tslot (tbl (mem s) pt 2 va) (px 0 va)) s"
    using walk_lookup [OF _ True inv, of 2] by (simp add: walk_def del: walk_from.simps)
  moreover have "tbl (mem s) pt 2 va \<noteq> 0 \<Longrightarrow> tslot (tbl (mem s) pt 2 va) (px 0 va) \<noteq> 0"
    using pt_inv_aligned [OF inv, of 2 va] True by (intro slot_nonzero) auto
  ultimately show ?thesis
    using True by (auto simp: walkaddr_def kprog_simps upage_def pte_of_def Let_def)
qed (simp add: walkaddr_def upage_def kprog_simps not_less leD Let_def)

section \<open>Mapping a range\<close>

text \<open>The leaf entries after the first \<open>j\<close> pages from \<open>a\<close> are mapped to consecutive pages from \<open>pa\<close>.\<close>

definition mapped_view :: "(addr \<Rightarrow> uint64) \<Rightarrow> addr \<Rightarrow> nat \<Rightarrow> addr \<Rightarrow> uint64 \<Rightarrow> addr \<Rightarrow> uint64" where
  "mapped_view old a j pa perm va =
     (let i = region 3 va - region 3 a in
      if region 3 a \<le> region 3 va \<and> i < j then PA2PTE (pa + of_nat (4096 * i)) OR perm OR PTE_V else old va)"

lemma region_3: "region 3 va = unat va div 4096"
  by (simp add: region_def)

lemma mapped_view_0 [simp]: "mapped_view old a 0 pa perm = old"
  by (simp add: mapped_view_def fun_eq_iff)

lemma mapped_view_cong: "f va = g va \<Longrightarrow> mapped_view f a j pa perm va = mapped_view g a j pa perm va"
  by (simp add: mapped_view_def Let_def)

lemma mapped_view_Suc:
  assumes "region 3 a' = Suc (region 3 a)"
  shows "mapped_view (mapped_view old a 1 pa perm) a' j (pa + PGSIZE) perm va = mapped_view old a (Suc j) pa perm va"
proof (cases "region 3 a' \<le> region 3 va \<and> region 3 va - region 3 a' < j")
  case True
  then have "region 3 va - region 3 a = Suc (region 3 va - region 3 a')" unfolding assms by linarith
  with True assms show ?thesis by (simp add: mapped_view_def algebra_simps)
next
  case False
  then show ?thesis using assms by (auto simp: mapped_view_def Let_def)
qed

lemma pt_step_leaf:
  assumes "kmem_inv s free" "pt_inv (mem s) pt" "set free \<inter> tables (mem s) pt = {}" "va < MAXVA"
    "tbl (mem s) pt 2 va \<noteq> 0"
  shows "pt_step pt s free (s\<lparr>mem := write64 (tslot (tbl (mem s) pt 2 va) (px 0 va)) e (mem s)\<rparr>) free"
proof -
  let ?t = "tbl (mem s) pt 2 va" and ?m = "write64 (tslot (tbl (mem s) pt 2 va) (px 0 va)) e (mem s)"
  note lw = leaf_write [OF assms(2,4) refl assms(5) refl, of e]
  have t: "?t \<in> tables (mem s) pt" "?t mod PGSIZE = 0"
    using tables_I [of 2 va "mem s" pt] pt_inv_aligned [OF assms(2), of 2 va] assms by auto
  have sb: "same_but ?t (mem s) ?m" by (rule same_but_slot [OF t(2)]) simp
  have "kmem_inv (s\<lparr>mem := ?m\<rparr>) free"
    by (rule kmem_inv_same [OF assms(1) _ _ _ sb]) (use t assms(3) in auto)
  with lw(1,2) assms t sb show ?thesis by (auto simp: pt_step_def same_but_def)
qed

lemma mappages_step_ok:
  assumes inv: "kmem_inv s free" "pt_inv (mem s) pt" "set free \<inter> tables (mem s) pt = {}"
    and a: "a < MAXVA" "pte_of (mem s) pt a = 0"
  obtains s' free' where "pt_step pt s free s' free'"
    "mappages_step pt last_a perm (a, pa) s = Ret (Inr (-1)) s'" "free' = []"
    "\<forall>va<MAXVA. pte_of (mem s') pt va = pte_of (mem s) pt va"
  | s' free' where "pt_step pt s free s' free'"
    "mappages_step pt last_a perm (a, pa) s = Ret (if a = last_a then Inr 0 else Inl (a + PGSIZE, pa + PGSIZE)) s'"
    "\<forall>va<MAXVA. pte_of (mem s') pt va = mapped_view (pte_of (mem s) pt) a 1 pa perm va"
proof -
  obtain r s1 free1 where w: "walk pt a True s = Ret r s1" "pt_step pt s free s1 free1"
    "\<forall>va'<MAXVA. pte_of (mem s1) pt va' = pte_of (mem s) pt va'"
    "if r = 0 then free1 = [] else tbl (mem s1) pt 2 a \<noteq> 0 \<and> r = tslot (tbl (mem s1) pt 2 a) (px 0 a)"
    using walk_alloc_root [OF a(1) inv] .
  show thesis
  proof (cases "r = 0")
    case True
    with w that(1) show ?thesis by (simp add: mappages_step_def kprog_simps)
  next
    case False
    let ?t = "tbl (mem s1) pt 2 a"
    let ?s2 = "s1\<lparr>mem := write64 (tslot ?t (px 0 a)) (PA2PTE pa OR perm OR PTE_V) (mem s1)\<rparr>"
    have r: "?t \<noteq> 0" "r = tslot ?t (px 0 a)" using w(4) False by auto
    have inv1: "kmem_inv s1 free1" "pt_inv (mem s1) pt" "set free1 \<inter> tables (mem s1) pt = {}"
      using w(2) unfolding pt_step_def by blast+
    have "pte_of (mem s1) pt a = 0" using w(3) a by simp
    then have "read64 (mem s1) r AND PTE_V = 0" using r by (auto simp: pte_of_def Let_def split: if_splits)
    then have "mappages_step pt last_a perm (a, pa) s =
        Ret (if a = last_a then Inr 0 else Inl (a + PGSIZE, pa + PGSIZE)) ?s2"
      using w(1) False r by (simp add: mappages_step_def kprog_simps)
    moreover have V: "(PA2PTE pa OR perm OR PTE_V) AND PTE_V \<noteq> 0"
      using PTE_V_or [of "PA2PTE pa OR perm"] by (simp add: or.assoc)
    moreover have "pt_step pt s free ?s2 free1" by (rule pt_step_trans [OF w(2) pt_step_leaf [OF inv1 a(1) r(1)]])
    moreover have "\<forall>va<MAXVA. pte_of (mem ?s2) pt va = mapped_view (pte_of (mem s) pt) a 1 pa perm va"
      using leaf_write(3) [OF inv1(2) a(1) refl r(1) refl V] w(3)
      by (auto simp: mapped_view_def Let_def)
    ultimately show ?thesis by (intro that(2))
  qed
qed

lemma mappages_loop:
  assumes "kmem_inv s free" "pt_inv (mem s) pt" "set free \<inter> tables (mem s) pt = {}"
    "unat a + 4096 * k = unat last_a" "last_a < MAXVA"
    "\<forall>i\<le>k. pte_of (mem s) pt (a + of_nat (4096 * i)) = 0"
  shows "\<exists>r s' free' j. kwhile (mappages_step pt last_a perm) (a, pa) s = Ret r s' \<and> pt_step pt s free s' free' \<and>
     (\<forall>va<MAXVA. pte_of (mem s') pt va = mapped_view (pte_of (mem s) pt) a j pa perm va) \<and>
     (r = 0 \<and> j = Suc k \<or> r = -1 \<and> j \<le> k \<and> free' = [])"
  using assms
proof (induction k arbitrary: s free a pa)
  case 0
  then have a: "a = last_a" by (simp add: word_unat_eq_iff)
  with 0 have h: "a < MAXVA" "pte_of (mem s) pt a = 0" by auto
  show ?case
  proof (cases rule: mappages_step_ok [OF 0(1-3) h, where last_a = last_a and perm = perm and pa = pa])
    case (1 s' free')
    then show ?thesis
      by (intro exI [of _ "-1"] exI [of _ s'] exI [of _ free'] exI [of _ 0], subst kwhile_unfold) simp
  next
    case (2 s' free')
    with a show ?thesis
      by (intro exI [of _ "0"] exI [of _ s'] exI [of _ free'] exI [of _ 1], subst kwhile_unfold) simp
  qed
next
  case (Suc k)
  have lt: "unat last_a < 274877906944" using Suc.prems(5) by (simp add: word_less_nat_alt)
  have a: "a < MAXVA" "a \<noteq> last_a" using Suc.prems(4) lt by (auto simp: word_less_nat_alt)
  have na: "unat (a + PGSIZE) = unat a + 4096" using Suc.prems(4) lt by (simp add: unat_word_ariths)
  have h: "pte_of (mem s) pt a = 0" using Suc.prems(6) [rule_format, of 0] by simp
  show ?case
  proof (cases rule: mappages_step_ok [OF Suc.prems(1-3) a(1) h, where last_a = last_a and perm = perm and pa = pa])
    case (1 s' free')
    then show ?thesis
      by (intro exI [of _ "-1"] exI [of _ s'] exI [of _ free'] exI [of _ 0], subst kwhile_unfold) simp
  next
    case (2 s1 free1)
    have inv1: "kmem_inv s1 free1" "pt_inv (mem s1) pt" "set free1 \<inter> tables (mem s1) pt = {}"
      using 2(1) unfolding pt_step_def by blast+
    have rg: "region 3 (a + PGSIZE) = Suc (region 3 a)" by (simp add: region_3 na)
    have "pte_of (mem s1) pt (a + PGSIZE + of_nat (4096 * i)) = 0" if "i \<le> k" for i
    proof -
      have "unat (a + PGSIZE + of_nat (4096 * i)) = unat a + 4096 + 4096 * i"
        using na Suc.prems(4) lt that by (simp add: unat_word_ariths unat_of_nat)
      then have "a + PGSIZE + of_nat (4096 * i) < MAXVA" "region 3 (a + PGSIZE + of_nat (4096 * i)) = Suc (region 3 a) + i"
        using Suc.prems(4) lt that by (simp_all add: word_less_nat_alt region_3)
      moreover have "pte_of (mem s) pt (a + PGSIZE + of_nat (4096 * i)) = 0"
        using Suc.prems(6) [rule_format, of "Suc i"] that by (simp add: algebra_simps)
      ultimately show ?thesis using 2(3) by (simp add: mapped_view_def)
    qed
    then obtain r s' free' j where
      "kwhile (mappages_step pt last_a perm) (a + PGSIZE, pa + PGSIZE) s1 = Ret r s'" "pt_step pt s1 free1 s' free'"
      "\<forall>va<MAXVA. pte_of (mem s') pt va = mapped_view (pte_of (mem s1) pt) (a + PGSIZE) j (pa + PGSIZE) perm va"
      "r = 0 \<and> j = Suc k \<or> r = -1 \<and> j \<le> k \<and> free' = []"
      using Suc.IH [OF inv1, of "a + PGSIZE" "pa + PGSIZE"] Suc.prems(4,5) na by auto
    moreover have "mapped_view (pte_of (mem s1) pt) (a + PGSIZE) j (pa + PGSIZE) perm va =
        mapped_view (pte_of (mem s) pt) a (Suc j) pa perm va" if "va < MAXVA" for va
      using mapped_view_Suc [OF rg, of "pte_of (mem s) pt" pa perm j va] mapped_view_cong 2(3) that by metis
    ultimately show ?thesis
      using 2(2) a(2) pt_step_trans [OF 2(1)]
      by (intro exI [of _ r] exI [of _ s'] exI [of _ free'] exI [of _ "Suc j"], subst kwhile_unfold) auto
  qed
qed

lemma region_3_round: "region 3 (PGROUNDDOWN va) = region 3 va"
  by (simp add: region_3 unat_PGROUNDDOWN)

text \<open>
  C4. Mapping a range. On a well-formed tree, if none of the pages of the range is mapped yet,
  \<^verbatim>\<open>mappages\<close> returns: 0 with every page of the range mapped to consecutive physical pages with the
  requested permissions, or -1 with a prefix of the range mapped when the free list ran out. All other
  translations, and all memory outside the tables and the pages taken, are unchanged, and the tree
  stays well formed.
\<close>

theorem mappages_maps_range:
  assumes inv: "kmem_inv s free" "pt_inv (mem s) pt" "set free \<inter> tables (mem s) pt = {}"
    and sz: "sz \<noteq> 0" "unat va + unat sz \<le> unat MAXVA"
    and unmapped: "\<forall>x<MAXVA. region 3 va \<le> region 3 x \<longrightarrow> region 3 x \<le> region 3 (va + sz - 1) \<longrightarrow> pte_of (mem s) pt x = 0"
  shows "\<exists>r s' free' j. mappages pt va sz pa perm s = Ret r s' \<and> pt_step pt s free s' free' \<and>
     (\<forall>x<MAXVA. pte_of (mem s') pt x = mapped_view (pte_of (mem s) pt) va j pa perm x) \<and>
     (r = 0 \<and> j = Suc (region 3 (va + sz - 1) - region 3 va) \<or>
      r = -1 \<and> j \<le> region 3 (va + sz - 1) - region 3 va \<and> free' = [])"
proof -
  let ?a = "PGROUNDDOWN va" and ?l = "PGROUNDDOWN (va + sz - 1)"
  have sz0: "unat sz > 0" using sz(1) by (simp add: unat_gt_0)
  have e: "unat (va + sz - 1) = unat va + unat sz - 1"
  proof -
    have "unat (va + sz) = unat va + unat sz" using sz(2) by (simp add: unat_word_ariths)
    then show ?thesis using sz0 by (simp add: unat_sub_if')
  qed
  define k where "k = region 3 (va + sz - 1) - region 3 va"
  have le: "region 3 va \<le> region 3 (va + sz - 1)" using e sz0 by (simp add: region_3 div_le_mono)
  then have k: "unat ?a + 4096 * k = unat ?l" unfolding k_def by (simp add: unat_PGROUNDDOWN region_3)
  have lt: "unat ?l < 274877906944" using e sz sz0 by (simp add: unat_PGROUNDDOWN)
  then have l: "?l < MAXVA" by (simp add: word_less_nat_alt)
  have "pte_of (mem s) pt (?a + of_nat (4096 * i)) = 0" if "i \<le> k" for i
  proof -
    have u: "unat (?a + of_nat (4096 * i)) = unat ?a + 4096 * i"
      using that k lt by (simp add: unat_word_ariths unat_of_nat)
    then have "region 3 (?a + of_nat (4096 * i)) = region 3 va + i"
      by (simp add: region_3 unat_PGROUNDDOWN)
    moreover have "?a + of_nat (4096 * i) < MAXVA" using u that k lt by (simp add: word_less_nat_alt)
    ultimately show ?thesis using unmapped that le unfolding k_def by simp
  qed
  from mappages_loop [OF inv k l] this sz(1) show ?thesis
    unfolding k_def mappages_def mapped_view_def region_3_round by simp
qed

lemma pt_inv_empty:
  assumes "pt mod PGSIZE = 0" "pt \<noteq> 0" "\<forall>i<512. read64 m (tslot pt i) = 0"
  shows "pt_inv m pt" and "tables m pt = {pt}" and "pte_of m pt va = 0"
proof -
  have t: "tbl m pt (Suc d) va = 0" for d va
  proof (induction d)
    case 0
    then show ?case using assms(3) by simp
  qed simp
  then have tb: "tbl m pt d va = (if d = 0 then pt else 0)" for d va by (cases d) (auto simp del: tbl.simps(2))
  have ex: "\<exists>va::addr. va < MAXVA" by (rule exI [of _ 0]) simp
  show tbs: "tables m pt = {pt}" using assms(2) by (auto simp: tables_def tb ex)
  show "pt_inv m pt"
    unfolding pt_inv_def tbs
  proof (intro conjI allI impI)
    show "d = d'" and "region d x = region d x'"
      if "d \<le> 2" "x < MAXVA" "d' \<le> 2" "x' < MAXVA" "tbl m pt d x \<noteq> 0" "tbl m pt d x = tbl m pt d' x'" for d x d' x'
      using that by (auto simp: tb region_0 split: if_splits simp del: tbl.simps)
    show "tbl m pt (Suc d) x \<noteq> 0"
      if "tbl m pt d x \<noteq> 0" "read64 m (tslot (tbl m pt d x) (px (2 - d) x)) AND PTE_V \<noteq> 0" for d x
      using that assms(3) by (simp add: tb split: if_splits del: tbl.simps)
  qed (use assms in simp_all)
  show "pte_of m pt va = 0" by (simp add: pte_of_def tb)
qed

section \<open>User memory\<close>

text \<open>
  The user's view of memory through a page table: the byte at \<open>va\<close>, if the page is mapped for the user.
\<close>

definition xlate :: "'z kmem_st_scheme \<Rightarrow> addr \<Rightarrow> addr \<Rightarrow> addr" where
  "xlate s pt va = ret_val (walkaddr pt va s)"

definition ubyte :: "'z kmem_st_scheme \<Rightarrow> addr \<Rightarrow> addr \<Rightarrow> uchar option" where
  "ubyte s pt va =
     (let p = xlate s pt (PGROUNDDOWN va) in if p = 0 then None else Some (mem s (p + (va - PGROUNDDOWN va))))"

definition ubytes :: "'z kmem_st_scheme \<Rightarrow> addr \<Rightarrow> addr \<Rightarrow> nat \<Rightarrow> uchar list option" where
  "ubytes s pt va n = those (map (\<lambda>i. ubyte s pt (va + of_nat i)) [0 ..< n])"

lemma walkaddr_Ret: "walkaddr pt va s = Ret (xlate s pt va) s"
proof -
  have "\<exists>r. walkaddr pt va s = Ret r s"
    using walk_from_False [of 2 pt va s] by (auto simp: walkaddr_def walk_def kprog_simps simp del: walk_from.simps)
  then show ?thesis by (auto simp: xlate_def)
qed

lemma those_append:
  "those (xs @ ys) = (case those xs of None \<Rightarrow> None | Some us \<Rightarrow> map_option (append us) (those ys))"
  by (induction xs; cases "those ys") (auto split: option.splits)

lemma ubytes_add:
  "ubytes s pt va (m + n) =
     (case ubytes s pt va m of None \<Rightarrow> None | Some us \<Rightarrow> map_option (append us) (ubytes s pt (va + of_nat m) n))"
proof -
  have "[0 ..< m + n] = [0 ..< m] @ map (\<lambda>i. m + i) [0 ..< n]"
    using upt_add_eq_append [of 0 m n] map_add_upt [of m n] by (simp add: add.commute)
  then show ?thesis by (simp add: ubytes_def those_append comp_def add.assoc split: option.split)
qed

text \<open>The bytes of one page.\<close>

lemma page_offset:
  assumes "i < 4096 - unat (va - PGROUNDDOWN va)"
  shows "PGROUNDDOWN (va + of_nat i) = PGROUNDDOWN va"
    and "unat (va - PGROUNDDOWN va) < 4096" 
proof -
  have le: "unat (PGROUNDDOWN va) \<le> unat va" by (simp add: unat_PGROUNDDOWN)
  then have off: "unat (va - PGROUNDDOWN va) = unat va mod 4096"
    by (simp add: unat_sub_if' unat_PGROUNDDOWN minus_div_mult_eq_mod)
  then show "unat (va - PGROUNDDOWN va) < 4096" by simp
  have i: "unat va mod 4096 + i < 4096" using assms off by simp
  then have d: "(unat va + i) div 4096 = unat va div 4096" by (subst div_add1_eq) simp
  have "unat va div 4096 < 4503599627370496" using unat_64 [of va] by (intro less_mult_imp_div_less) simp
  with i have "unat va + i < 18446744073709551616" using mult_div_mod_eq [of 4096 "unat va"] by linarith
  then have "unat (va + of_nat i) = unat va + i" by (simp add: unat_word_ariths unat_of_nat)
  with d have "unat (va + of_nat i) div 4096 = unat va div 4096" by simp
  then show "PGROUNDDOWN (va + of_nat i) = PGROUNDDOWN va"
    by (simp add: word_unat_eq_iff unat_PGROUNDDOWN)
qed

lemma those_map_Some: "those (map (\<lambda>x. Some (f x)) xs) = Some (map f xs)"
  by (induction xs) auto

lemma those_None: "None \<in> set xs \<Longrightarrow> those xs = None"
  by (induction xs) (auto split: option.splits)

lemma ubytes_page:
  assumes "n \<le> 4096 - unat (va - PGROUNDDOWN va)" "xlate s pt (PGROUNDDOWN va) \<noteq> 0"
  shows "ubytes s pt va n = Some (load_bytes (mem s) (xlate s pt (PGROUNDDOWN va) + (va - PGROUNDDOWN va)) n)"
proof -
  have "ubyte s pt (va + of_nat i) =
      Some (mem s (xlate s pt (PGROUNDDOWN va) + (va - PGROUNDDOWN va) + of_nat i))" if "i < n" for i
    using page_offset(1) [of i va] that assms by (simp add: ubyte_def algebra_simps)
  then have "map (\<lambda>i. ubyte s pt (va + of_nat i)) [0 ..< n] =
      map (\<lambda>i. Some (mem s (xlate s pt (PGROUNDDOWN va) + (va - PGROUNDDOWN va) + of_nat i))) [0 ..< n]"
    by (intro map_cong) auto
  then show ?thesis by (simp only: ubytes_def those_map_Some load_bytes_def)
qed

lemma ubytes_unmapped:
  assumes "0 < n" "xlate s pt (PGROUNDDOWN va) = 0"
  shows "ubytes s pt va n = None"
proof -
  have "ubyte s pt (va + of_nat 0) = None" using assms(2) by (simp add: ubyte_def)
  then have "None \<in> set (map (\<lambda>i. ubyte s pt (va + of_nat i)) [0 ..< n])" using assms(1) by force
  then show ?thesis unfolding ubytes_def by (rule those_None)
qed

text \<open>How the copy loops cut a range at page boundaries.\<close>

lemma chunk:
  fixes va len :: addr
  defines "n0 \<equiv> PGSIZE - (va - PGROUNDDOWN va)"
  defines "n \<equiv> (if n0 > len then len else n0)"
  assumes "len > 0"
  shows "unat n \<le> 4096 - unat (va - PGROUNDDOWN va)" "unat (len - n) < unat len" "unat n + unat (len - n) = unat len"
    "0 < unat n" "len - n \<noteq> 0 \<Longrightarrow> PGROUNDDOWN va + PGSIZE = va + of_nat (unat n)"
proof -
  have "unat (va - PGROUNDDOWN va) < 4096"
  proof -
    have "unat (PGROUNDDOWN va) \<le> unat va" by (simp add: unat_PGROUNDDOWN)
    then show ?thesis by (simp add: unat_sub_if' unat_PGROUNDDOWN minus_div_mult_eq_mod)
  qed
  then have n0: "unat n0 = 4096 - unat (va - PGROUNDDOWN va)" unfolding n0_def by (simp add: unat_sub_if')
  show "unat n \<le> 4096 - unat (va - PGROUNDDOWN va)"
    using n0 by (auto simp: n_def word_less_nat_alt)
  show n: "0 < unat n" using n0 \<open>unat (va - PGROUNDDOWN va) < 4096\<close> assms(3) by (auto simp: n_def word_less_nat_alt)
  have "n \<le> len" by (auto simp: n_def)
  then show "unat n + unat (len - n) = unat len" by (simp add: unat_sub_if' word_le_nat_alt)
  with n show "unat (len - n) < unat len" by linarith
  show "len - n \<noteq> 0 \<Longrightarrow> PGROUNDDOWN va + PGSIZE = va + of_nat (unat n)"
    by (auto simp: n_def n0_def split: if_splits)
qed

lemma copyin_loop:
  "case ubytes s pt va (unat len) of
     Some bs \<Rightarrow> kwhile (copyin_step pt) (dst, va, len) s = Ret (0, dst @ bs) s
   | None \<Rightarrow> \<exists>bs. kwhile (copyin_step pt) (dst, va, len) s = Ret (-1, bs) s"
proof (induction "unat len" arbitrary: dst va len rule: less_induct)
  case less
  show ?case
  proof (cases "len = 0")
    case True
    then show ?thesis by (subst kwhile_unfold) (simp add: copyin_step_def kprog_simps ubytes_def)
  next
    case False
    then have "len > 0" by (simp add: word_neq_0_conv)
    note c = chunk [OF this, of va]
    let ?n = "if PGSIZE - (va - PGROUNDDOWN va) > len then len else PGSIZE - (va - PGROUNDDOWN va)"
    let ?p = "xlate s pt (PGROUNDDOWN va)"
    show ?thesis
    proof (cases "?p = 0")
      case True
      then show ?thesis
        using \<open>len > 0\<close> ubytes_unmapped [of "unat len" s pt va]
        by (subst kwhile_unfold) (simp add: copyin_step_def kprog_simps walkaddr_Ret Let_def word_less_nat_alt)
    next
      case p: False
      let ?bs = "load_bytes (mem s) (?p + (va - PGROUNDDOWN va)) (unat ?n)"
      have un: "kwhile (copyin_step pt) (dst, va, len) s =
          kwhile (copyin_step pt) (dst @ ?bs, PGROUNDDOWN va + PGSIZE, len - ?n) s"
        using p \<open>len > 0\<close>
        by (subst kwhile_unfold) (simp add: copyin_step_def kprog_simps walkaddr_Ret Let_def)
      have u: "ubytes s pt va (unat len) = map_option (append ?bs) (ubytes s pt (va + of_nat (unat ?n)) (unat (len - ?n)))"
        using ubytes_add [of s pt va "unat ?n" "unat (len - ?n)"] c(3) ubytes_page [OF c(1) p] by simp
      have v: "ubytes s pt (PGROUNDDOWN va + PGSIZE) (unat (len - ?n)) = ubytes s pt (va + of_nat (unat ?n)) (unat (len - ?n))"
      proof (cases "len - ?n = 0")
        case True
        then show ?thesis by (simp only: ubytes_def) simp
      next
        case False
        show ?thesis by (simp only: c(5) [OF False])
      qed
      from less [OF c(2), where va = "PGROUNDDOWN va + PGSIZE" and dst = "dst @ ?bs"] show ?thesis
        unfolding un u v by (cases "ubytes s pt (va + of_nat (unat ?n)) (unat (len - ?n))") simp_all
    qed
  qed
qed

text \<open>A well-formed user address space: user pages are aligned, are not tables, and are mapped once.\<close>

definition uspace_ok :: "'z kmem_st_scheme \<Rightarrow> addr \<Rightarrow> bool" where
  "uspace_ok s pt \<longleftrightarrow> pt_inv (mem s) pt \<and>
     (\<forall>va. xlate s pt va \<noteq> 0 \<longrightarrow> xlate s pt va mod PGSIZE = 0 \<and> xlate s pt va \<notin> tables (mem s) pt) \<and>
     (\<forall>va va'. xlate s pt va \<noteq> 0 \<longrightarrow> xlate s pt va = xlate s pt va' \<longrightarrow> region 3 va = region 3 va')"

lemma uspace_inj:
  "uspace_ok s pt \<Longrightarrow> xlate s pt va = xlate s pt va' \<Longrightarrow> xlate s pt va \<noteq> 0 \<Longrightarrow> region 3 va = region 3 va'"
  unfolding uspace_ok_def by blast

lemma xlate_upage: "pt_inv (mem s) pt \<Longrightarrow> xlate s pt va = upage (mem s) pt va"
  by (simp add: xlate_def walkaddr_upage)

lemma round_eq: "region 3 va = region 3 va' \<Longrightarrow> PGROUNDDOWN va = PGROUNDDOWN va'"
  by (simp add: word_unat_eq_iff unat_PGROUNDDOWN region_3)

lemma same_page:
  assumes "unat (x - va) < 4096 - unat (va - PGROUNDDOWN va)"
  shows "PGROUNDDOWN x = PGROUNDDOWN va"
  using page_offset(1) [OF assms] by simp

lemma offset_less: "unat (va - PGROUNDDOWN va) < 4096"
proof -
  have "unat (PGROUNDDOWN va) \<le> unat va" by (simp add: unat_PGROUNDDOWN)
  then show ?thesis by (simp add: unat_sub_if' unat_PGROUNDDOWN minus_div_mult_eq_mod)
qed

lemma in_page_range:
  assumes "unat (a - (p + off)) < n" "n \<le> 4096 - unat off"
  shows "in_page p a"
proof -
  have u: "unat (a - (p + off)) + unat off < 4096" using assms by linarith
  have "a - p = (a - (p + off)) + off" by simp
  then have "unat (a - p) = unat ((a - (p + off)) + off)" by (simp only:)
  also have "\<dots> = unat (a - (p + off)) + unat off" using u by (subst unat_word_ariths) simp
  finally show ?thesis using u by (simp add: in_page_def)
qed

lemma uspace_same_but:
  assumes ok: "uspace_ok s pt" and sb: "same_but p (mem s) (mem s')" and pa: "p mod PGSIZE = 0" "p \<notin> tables (mem s) pt"
  shows "xlate s' pt = xlate s pt" "uspace_ok s' pt"
proof -
  have inv: "pt_inv (mem s) pt" using ok by (simp add: uspace_ok_def)
  note inv' = pt_inv_same_but [OF inv sb pa]
  show x: "xlate s' pt = xlate s pt"
  proof
    fix y
    show "xlate s' pt y = xlate s pt y"
      using tbl_same_but(3) [OF inv sb pa, of y]
      by (cases "y < MAXVA") (simp_all add: xlate_upage [OF inv] xlate_upage [OF inv'(1)] upage_def)
  qed
  then show "uspace_ok s' pt" using ok inv'(1) unfolding uspace_ok_def inv'(2) x by blast
qed

lemma store_page:
  assumes ok: "uspace_ok s pt" and p: "p = xlate s pt (PGROUNDDOWN va)" "p \<noteq> 0"
    and n: "n \<le> 4096 - unat (va - PGROUNDDOWN va)"
    and s': "s' = s\<lparr>mem := store_bytes (p + (va - PGROUNDDOWN va)) f n (mem s)\<rparr>"
  shows "xlate s' pt = xlate s pt" "uspace_ok s' pt"
    "ubyte s' pt x = (if unat (x - va) < n then Some (f (unat (x - va))) else ubyte s pt x)"
proof -
  let ?off = "va - PGROUNDDOWN va"
  have inv: "pt_inv (mem s) pt" and pa: "p mod PGSIZE = 0" "p \<notin> tables (mem s) pt"
    using ok p unfolding uspace_ok_def by metis+
  have sb: "same_but p (mem s) (mem s')"
    using in_page_range [OF _ n] by (auto simp: same_but_def s' store_bytes_def)
  note us = uspace_same_but [OF ok sb pa]
  then show x: "xlate s' pt = xlate s pt" and "uspace_ok s' pt" by (simp_all only:)
  let ?q = "xlate s pt (PGROUNDDOWN x)"
  have same: "PGROUNDDOWN x = PGROUNDDOWN va" if "unat (x - va) < n"
    by (rule same_page) (use that n in linarith)
  show "ubyte s' pt x = (if unat (x - va) < n then Some (f (unat (x - va))) else ubyte s pt x)"
  proof (cases "?q = p")
    case True
    then have "region 3 (PGROUNDDOWN x) = region 3 (PGROUNDDOWN va)"
      using uspace_inj [OF ok, of "PGROUNDDOWN x" "PGROUNDDOWN va"] p(1) [symmetric] p(2) by simp
    then have "PGROUNDDOWN x = PGROUNDDOWN va" using round_eq [of x va] by (simp add: region_3_round)
    then show ?thesis using p(1) [symmetric] p(2) x by (simp add: ubyte_def s' store_bytes_def)
  next
    case False
    then have nr: "\<not> unat (x - va) < n" using same p(1) by metis
    have "\<not> in_page p (?q + (x - PGROUNDDOWN x))" if "?q \<noteq> 0"
    proof -
      have "?q mod PGSIZE = 0" using ok that by (simp add: uspace_ok_def)
      moreover have "in_page ?q (?q + (x - PGROUNDDOWN x))" using offset_less by (simp add: in_page_def)
      ultimately show ?thesis using in_page_disjoint [of ?q p] pa False by auto
    qed
    then have "?q \<noteq> 0 \<Longrightarrow> mem s' (?q + (x - PGROUNDDOWN x)) = mem s (?q + (x - PGROUNDDOWN x))"
      using sb by (simp add: same_but_def)
    with nr x show ?thesis by (auto simp: ubyte_def Let_def)
  qed
qed

lemma diff_shift:
  fixes d n len :: addr
  assumes "unat n + unat (len - n) = unat len"
  shows "unat (d - n) < unat (len - n) \<longleftrightarrow> unat n \<le> unat d \<and> unat d < unat len"
proof (cases "unat n \<le> unat d")
  case True
  then have "unat (d - n) = unat d - unat n" by (simp add: unat_sub_if')
  with True assms show ?thesis by linarith
next
  case False
  then have "unat (d - n) = unat d + 18446744073709551616 - unat n" by (simp add: unat_sub_if')
  with False assms unat_64 [of len] unat_64 [of n] show ?thesis by linarith
qed

lemma copyout_loop:
  assumes "uspace_ok s pt" "\<forall>i<unat len. ubyte s pt (va + of_nat i) \<noteq> None" "unat va + unat len < 2 ^ 64"
  shows "\<exists>s'. kwhile (copyout_step pt src) (dn, va, len) s = Ret 0 s' \<and> uspace_ok s' pt \<and> xlate s' pt = xlate s pt \<and>
    (\<forall>x. ubyte s' pt x = (if unat (x - va) < unat len then Some (src (dn + unat (x - va))) else ubyte s pt x))"
  using assms
proof (induction "unat len" arbitrary: dn va len s rule: less_induct)
  case less
  show ?case
  proof (cases "len = 0")
    case True
    with less.prems show ?thesis by (subst kwhile_unfold) (simp add: copyout_step_def kprog_simps)
  next
    case False
    then have l: "len > 0" by (simp add: word_neq_0_conv)
    note c = chunk [OF l, of va]
    let ?n = "if PGSIZE - (va - PGROUNDDOWN va) > len then len else PGSIZE - (va - PGROUNDDOWN va)"
    let ?p = "xlate s pt (PGROUNDDOWN va)"
    have p: "?p \<noteq> 0" using less.prems(2) [rule_format, of 0] l by (auto simp: ubyte_def Let_def word_less_nat_alt split: if_splits)
    let ?s = "s\<lparr>mem := store_bytes (?p + (va - PGROUNDDOWN va)) (\<lambda>i. src (dn + i)) (unat ?n) (mem s)\<rparr>"
    note st = store_page [OF less.prems(1) refl p c(1) refl, of "\<lambda>i. src (dn + i)"]
    have un: "kwhile (copyout_step pt src) (dn, va, len) s =
        kwhile (copyout_step pt src) (dn + unat ?n, PGROUNDDOWN va + PGSIZE, len - ?n) ?s"
      using p l by (subst kwhile_unfold) (simp add: copyout_step_def kprog_simps walkaddr_Ret Let_def)
    show ?thesis
    proof (cases "len - ?n = 0")
      case True
      then have "?n = len" by (simp only: right_minus_eq)
      with st show ?thesis unfolding un True
        by (subst kwhile_unfold) (simp add: copyout_step_def kprog_simps)
    next
      case False
      note va' = c(5) [OF False]
      have uv: "unat (va + of_nat (unat ?n)) = unat va + unat ?n"
        using less.prems(3) c(3) by (simp only: of_nat_unat_word unat_word_ariths) simp
      have sh: "unat (x - (va + of_nat (unat ?n))) < unat (len - ?n) \<longleftrightarrow> unat ?n \<le> unat (x - va) \<and> unat (x - va) < unat len"
        "unat ?n \<le> unat (x - va) \<Longrightarrow> unat ?n + unat (x - (va + of_nat (unat ?n))) = unat (x - va)" for x
      proof -
        have e: "x - (va + of_nat (unat ?n)) = (x - va) - ?n" by (simp only: of_nat_unat_word diff_diff_add)
        show "unat ?n \<le> unat (x - va) \<Longrightarrow> unat ?n + unat (x - (va + of_nat (unat ?n))) = unat (x - va)"
          unfolding e by (simp add: unat_sub_if' word_le_nat_alt)
        show "unat (x - (va + of_nat (unat ?n))) < unat (len - ?n) \<longleftrightarrow> unat ?n \<le> unat (x - va) \<and> unat (x - va) < unat len"
          unfolding e by (rule diff_shift [OF c(3)])
      qed
      have "\<forall>i<unat (len - ?n). ubyte ?s pt (va + of_nat (unat ?n) + of_nat i) \<noteq> None"
      proof (intro allI impI)
        fix i assume "i < unat (len - ?n)"
        then have "ubyte s pt (va + of_nat (unat ?n + i)) \<noteq> None" using less.prems(2) c(3) by (simp only:) auto
        then show "ubyte ?s pt (va + of_nat (unat ?n) + of_nat i) \<noteq> None"
          unfolding st(3) by (simp only: of_nat_add add.assoc split: if_split) simp
      qed
      moreover have "unat (va + of_nat (unat ?n)) + unat (len - ?n) < 2 ^ 64" using uv less.prems(3) c(3) by linarith
      ultimately obtain s' where s': "kwhile (copyout_step pt src) (dn + unat ?n, va + of_nat (unat ?n), len - ?n) ?s = Ret 0 s'"
         "uspace_ok s' pt" "xlate s' pt = xlate ?s pt"
         "\<forall>x. ubyte s' pt x = (if unat (x - (va + of_nat (unat ?n))) < unat (len - ?n)
            then Some (src (dn + unat ?n + unat (x - (va + of_nat (unat ?n))))) else ubyte ?s pt x)"
        using less.hyps [OF c(2) st(2)] by blast
      have "ubyte s' pt x = (if unat (x - va) < unat len then Some (src (dn + unat (x - va))) else ubyte s pt x)" for x
        using s'(4) [rule_format, of x] sh [of x] st(3) [of x] c(3) by (simp only: add.assoc split: if_split_asm if_split) auto
      with s'(1-3) st(1) un va' show ?thesis by (intro exI [of _ s']) (simp only: simp_thms)
    qed
  qed
qed

lemma length_ubytes: "ubytes s pt va n = Some bs \<Longrightarrow> length bs = n"
proof -
  have "those xs = Some ys \<Longrightarrow> length ys = length xs" for xs :: "uchar option list" and ys
    by (induction xs arbitrary: ys) (auto split: option.splits)
  then show "ubytes s pt va n = Some bs \<Longrightarrow> length bs = n" by (fastforce simp: ubytes_def)
qed

text \<open>However \<^verbatim>\<open>copyin\<close> ends, every byte before the first unmapped one has been stored.\<close>

lemma copyin_prefix:
  assumes "\<forall>i<n. ubyte s pt (va + of_nat i) \<noteq> None" "n \<le> unat len"
  shows "\<exists>r bs. kwhile (copyin_step pt) (dst, va, len) s = Ret (r, dst @ bs) s \<and> n \<le> length bs \<and> length bs \<le> unat len"
  using assms
proof (induction "unat len" arbitrary: dst va len n rule: less_induct)
  case less
  show ?case
  proof (cases "len = 0")
    case True
    with less.prems show ?thesis by (subst kwhile_unfold) (simp add: copyin_step_def kprog_simps)
  next
    case False
    then have l: "len > 0" by (simp add: word_neq_0_conv)
    note c = chunk [OF l, of va]
    let ?n = "if PGSIZE - (va - PGROUNDDOWN va) > len then len else PGSIZE - (va - PGROUNDDOWN va)"
    let ?p = "xlate s pt (PGROUNDDOWN va)"
    show ?thesis
    proof (cases "?p = 0")
      case True
      then have "n = 0" using less.prems(1) [rule_format, of 0] by (cases n) (auto simp: ubyte_def)
      with True l show ?thesis
        by (subst kwhile_unfold) (simp add: copyin_step_def kprog_simps walkaddr_Ret Let_def)
    next
      case p: False
      let ?bs = "load_bytes (mem s) (?p + (va - PGROUNDDOWN va)) (unat ?n)"
      have un: "kwhile (copyin_step pt) (dst, va, len) s =
          kwhile (copyin_step pt) (dst @ ?bs, PGROUNDDOWN va + PGSIZE, len - ?n) s"
        using p l by (subst kwhile_unfold) (simp add: copyin_step_def kprog_simps walkaddr_Ret Let_def)
      have "\<forall>i<n - unat ?n. ubyte s pt (PGROUNDDOWN va + PGSIZE + of_nat i) \<noteq> None"
      proof (cases "len - ?n = 0")
        case True
        then have "?n = len" by (simp only: right_minus_eq)
        then show ?thesis using less.prems(2) by (simp only:) simp
      next
        case False
        have "ubyte s pt (va + of_nat (unat ?n + i)) \<noteq> None" if "i < n - unat ?n" for i
          by (rule less.prems(1) [rule_format]) (use that in linarith)
        then show ?thesis unfolding c(5) [OF False] by (simp only: of_nat_add add.assoc) blast
      qed
      moreover have "n - unat ?n \<le> unat (len - ?n)" using less.prems(2) c(3) by linarith
      ultimately obtain r bs where r:
        "kwhile (copyin_step pt) (dst @ ?bs, PGROUNDDOWN va + PGSIZE, len - ?n) s = Ret (r, (dst @ ?bs) @ bs) s"
        "n - unat ?n \<le> length bs" "length bs \<le> unat (len - ?n)"
        using less.hyps [OF c(2)] by blast
      have bl: "length ?bs = unat ?n" by (simp add: load_bytes_def)
      have "n \<le> length (?bs @ bs) \<and> length (?bs @ bs) \<le> unat len"
        using r(2,3) c(3) unfolding length_append bl by linarith
      moreover have "kwhile (copyin_step pt) (dst, va, len) s = Ret (r, dst @ ?bs @ bs) s"
        using r(1) unfolding un append_assoc .
      ultimately show ?thesis by blast
    qed
  qed
qed

lemma copyin_Ret:
  obtains r bs where "copyin pt va len s = Ret (r, bs) s" "r = 0 \<and> length bs = unat len \<or> r = -1"
    "length bs \<le> unat len"
  using copyin_loop [where s = s and dst = "[]" and va = va and len = len and pt = pt] that
    copyin_prefix [of 0 s pt va len "[]"]
  by (auto simp: copyin_def dest: length_ubytes split: option.splits)

lemma copyin_ubytes: "copyin pt va len s = Ret (0, bs) s \<Longrightarrow> ubytes s pt va (unat len) = Some bs"
  using copyin_loop [where s = s and dst = "[]" and va = va and len = len and pt = pt]
  by (auto simp: copyin_def split: option.splits)

lemma copyin_mapped:
  assumes "\<forall>i<unat len. ubyte s pt (va + of_nat i) \<noteq> None"
  shows "\<exists>bs. copyin pt va len s = Ret (0, bs) s"
proof -
  have "\<forall>x\<in>set xs. x \<noteq> None \<Longrightarrow> those xs \<noteq> None" for xs :: "uchar option list"
    by (induction xs) (auto split: option.splits)
  then have "ubytes s pt va (unat len) \<noteq> None" using assms by (auto simp: ubytes_def)
  then show ?thesis
    using copyin_loop [where s = s and dst = "[]" and va = va and len = len and pt = pt]
    by (auto simp: copyin_def)
qed


text \<open>
  C6. What \<^verbatim>\<open>copyout\<close> stores in mapped user memory, \<^verbatim>\<open>copyin\<close> reads back, and no other user byte changes.
\<close>

theorem copyout_copyin:
  assumes "uspace_ok s pt" "\<forall>i<unat len. ubyte s pt (va + of_nat i) \<noteq> None" "unat va + unat len < 2 ^ 64"
  shows "\<exists>s'. copyout pt va src len s = Ret 0 s' \<and> copyin pt va len s' = Ret (0, map src [0 ..< unat len]) s' \<and>
    (\<forall>x. unat len \<le> unat (x - va) \<longrightarrow> ubyte s' pt x = ubyte s pt x)"
proof -
  obtain s' where s': "copyout pt va src len s = Ret 0 s'"
    "\<forall>x. ubyte s' pt x = (if unat (x - va) < unat len then Some (src (unat (x - va))) else ubyte s pt x)"
    using copyout_loop [OF assms, of src 0] by (auto simp: copyout_def)
  have "ubyte s' pt (va + of_nat i) = Some (src i)" if "i < unat len" for i
    using s'(2) that unat_64 [of len] by (simp add: unat_of_nat)
  then have "map (\<lambda>i. ubyte s' pt (va + of_nat i)) [0 ..< unat len] = map (\<lambda>i. Some (src i)) [0 ..< unat len]"
    by (intro map_cong) auto
  then have "ubytes s' pt va (unat len) = Some (map src [0 ..< unat len])"
    by (simp only: ubytes_def those_map_Some)
  then have "copyin pt va len s' = Ret (0, map src [0 ..< unat len]) s'"
    using copyin_loop [where s = s' and dst = "[]" and va = va and len = len and pt = pt] by (simp add: copyin_def)
  with s' show ?thesis by auto
qed

section \<open>A small address space\<close>

text \<open>Two free pages and an empty root table.\<close>

definition small_kmem :: kmem_st where
  "small_kmem = \<lparr>mem = write64 0x80002000 0x80003000 (\<lambda>_. 0), freelist = 0x80002000, kend = 0x80000000\<rparr>"

lemma read64_zero: "read64 (\<lambda>_. 0) a = 0"
  by (rule bit_word_eqI) (simp add: read64_def bit_le_get)

lemma small_kmem_inv:
  "kmem_inv small_kmem [0x80002000, 0x80003000]" "pt_inv (mem small_kmem) 0x80001000"
  "tables (mem small_kmem) 0x80001000 = {0x80001000}" "pte_of (mem small_kmem) 0x80001000 va = 0"
proof -
  show "kmem_inv small_kmem [0x80002000, 0x80003000]"
    by (simp add: kmem_inv_def small_kmem_def page_ok_def read64_write64_other read64_zero)
  have "\<forall>i<512. read64 (mem small_kmem) (tslot 0x80001000 i) = 0"
    by (simp add: small_kmem_def read64_write64_other read64_zero unat_slot)
  then show "pt_inv (mem small_kmem) 0x80001000" "tables (mem small_kmem) 0x80001000 = {0x80001000}"
    "pte_of (mem small_kmem) 0x80001000 va = 0"
    using pt_inv_empty [where pt = "0x80001000" and m = "mem small_kmem"] by simp_all
qed

theorem mappages_maps_range_witness:
  "\<exists>r s' free' j. mappages 0x80001000 0 4096 0x80004000 (PTE_R OR PTE_W OR PTE_U) small_kmem = Ret r s' \<and>
     pt_step 0x80001000 small_kmem [0x80002000, 0x80003000] s' free' \<and>
     (\<forall>x<MAXVA. pte_of (mem s') 0x80001000 x =
        mapped_view (pte_of (mem small_kmem) 0x80001000) 0 j 0x80004000 (PTE_R OR PTE_W OR PTE_U) x) \<and>
     (r = 0 \<and> j = 1 \<or> r = -1 \<and> j = 0 \<and> free' = [])"
  using mappages_maps_range [OF small_kmem_inv(1,2), of "4096" "0" "0x80004000" "PTE_R OR PTE_W OR PTE_U"]
  by (simp add: small_kmem_inv(3,4) region_3)

lemma small_space:
  "\<exists>s::kmem_st. uspace_ok s 0x80001000 \<and> xlate s 0x80001000 0 = 0x80004000 \<and>
     0x80005000 \<notin> tables (mem s) 0x80001000"
proof -
  let ?pt = "0x80001000 :: addr" and ?e = "PA2PTE 0x80004000 OR 0x17 :: uint64"
  define s1 where "s1 = small_kmem\<lparr>freelist := read64 (mem small_kmem) 0x80002000,
    mem := write64 (tslot ?pt (px (2 - 0) 0)) (PA2PTE 0x80002000 OR PTE_V)
               (memset 0x80002000 0 4096 (memset 0x80002000 5 4096 (mem small_kmem)))\<rparr>"
  have z: "read64 (mem small_kmem) (tslot ?pt (px (2 - 0) 0)) AND PTE_V = 0"
    by (simp add: small_kmem_def read64_write64_other read64_zero px_def tslot_def)
  note a1 = alloc_table [OF small_kmem_inv(1,2) _ _ _ _ _ z s1_def]
  have s1: "pt_step ?pt small_kmem [0x80002000, 0x80003000] s1 [0x80003000]" "tbl (mem s1) ?pt 1 0 = 0x80002000"
    "\<And>va. va < MAXVA \<Longrightarrow> pte_of (mem s1) ?pt va = 0"
    using a1 by (simp_all add: small_kmem_inv(3,4))
  then have i1: "kmem_inv s1 [0x80003000]" "pt_inv (mem s1) ?pt" "set [0x80003000] \<inter> tables (mem s1) ?pt = {}"
    unfolding pt_step_def by blast+
  define s2 where "s2 = s1\<lparr>freelist := read64 (mem s1) 0x80003000,
    mem := write64 (tslot 0x80002000 (px (2 - 1) 0)) (PA2PTE 0x80003000 OR PTE_V)
               (memset 0x80003000 0 4096 (memset 0x80003000 5 4096 (mem s1)))\<rparr>"
  have "read64 (mem s1) (tslot 0x80002000 (px (2 - 1) 0)) AND PTE_V = 0"
    by (simp add: s1_def read_slot_other read_slot_zero)
  then have s2: "pt_step ?pt s1 [0x80003000] s2 []" "tbl (mem s2) ?pt (Suc 1) 0 = 0x80003000"
    "\<And>va. va < MAXVA \<Longrightarrow> pte_of (mem s2) ?pt va = 0"
    using alloc_table [OF i1 _ _ s1(2) [symmetric] _ _ s2_def] s1(3) by simp_all
  then have i2: "kmem_inv s2 []" "pt_inv (mem s2) ?pt" "set [] \<inter> tables (mem s2) ?pt = {}"
    unfolding pt_step_def by blast+
  have t2: "tbl (mem s2) ?pt 2 0 = 0x80003000" using s2(2) by (simp only: Suc_1 numeral_2_eq_2 One_nat_def)
  define s3 where "s3 = s2\<lparr>mem := write64 (tslot 0x80003000 (px 0 0)) ?e (mem s2)\<rparr>"
  have e: "PTE2PA ?e = 0x80004000" "?e AND PTE_V \<noteq> 0" "?e AND PTE_U \<noteq> 0" by (simp_all add: PTE2PA_def PA2PTE_def)
  have m3: "mem s3 = write64 (tslot 0x80003000 (px 0 0)) ?e (mem s2)" by (simp add: s3_def)
  note lw = leaf_write [OF i2(2) _ t2 [symmetric] _ m3]
  have inv3: "pt_inv (mem s3) ?pt" using lw(1) by simp
  have "tables (mem s3) ?pt \<subseteq> {?pt, 0x80002000, 0x80003000}"
    using lw(2) s2(1) s1(1) small_kmem_inv(3) unfolding pt_step_def by auto
  then have nt: "0x80004000 \<notin> tables (mem s3) ?pt" "0x80005000 \<notin> tables (mem s3) ?pt" by auto
  have x: "xlate s3 ?pt va = (if va < MAXVA \<and> region 3 va = region 3 0 then 0x80004000 else 0)" for va
    using lw(3) [of va] s2(3) [of va] e by (auto simp: xlate_upage [OF inv3] upage_def Let_def)
  have "uspace_ok s3 ?pt" unfolding uspace_ok_def using inv3 nt by (auto simp: x split: if_splits)
  moreover have "xlate s3 ?pt 0 = 0x80004000" by (simp add: x)
  ultimately show ?thesis using nt(2) by blast
qed

theorem copyout_copyin_witness:
  "\<exists>s s' :: kmem_st. copyout 0x80001000 8 (\<lambda>i. of_nat (65 + i)) 3 s = Ret 0 s' \<and>
     copyin 0x80001000 8 3 s' = Ret (0, [65, 66, 67]) s'"
proof -
  obtain s :: kmem_st where s: "uspace_ok s 0x80001000" "xlate s 0x80001000 0 = 0x80004000"
    using small_space by blast
  have r: "PGROUNDDOWN (8 + of_nat i) = 0" if "i < 3" for i
    using that by (auto simp: word_unat_eq_iff unat_PGROUNDDOWN less_Suc_eq numeral_3_eq_3)
  have "\<forall>i<unat (3 :: addr). ubyte s 0x80001000 (8 + of_nat i) \<noteq> None"
    using s(2) r by (auto simp: ubyte_def Let_def)
  from copyout_copyin [OF s(1) this, of "\<lambda>i. of_nat (65 + i)"] obtain s' where
    "copyout 0x80001000 8 (\<lambda>i. of_nat (65 + i)) 3 s = Ret 0 s'"
    "copyin 0x80001000 8 3 s' = Ret (0, map (\<lambda>i. of_nat (65 + i)) [0 ..< unat (3 :: addr)]) s'" by auto
  moreover have "map (\<lambda>i. of_nat (65 + i) :: uchar) [0 ..< unat (3 :: addr)] = [65, 66, 67]"
    by (simp add: upt_rec)
  ultimately show ?thesis by (intro exI [of _ s] exI [of _ s'] conjI) (simp_all only:)
qed

section \<open>Copies of one byte\<close>

lemma copyin_byte:
  "case ubyte s pt va of
     Some b \<Rightarrow> copyin pt va 1 s = Ret (0, [b]) s
   | None \<Rightarrow> \<exists>bs. copyin pt va 1 s = Ret (-1, bs) s"
  using copyin_loop [where s = s and dst = "[]" and va = va and len = 1 and pt = pt]
  by (simp add: copyin_def ubytes_def split: option.splits)

lemma copy_one: "(if PGSIZE - (va - PGROUNDDOWN va) > 1 then 1 else PGSIZE - (va - PGROUNDDOWN va)) = (1 :: uint64)"
proof -
  have "unat (va - PGROUNDDOWN va) < 4096"
    by (simp add: unat_sub_if' unat_PGROUNDDOWN minus_div_mult_eq_mod)
  then have "unat (PGSIZE - (va - PGROUNDDOWN va)) = 4096 - unat (va - PGROUNDDOWN va)" by (simp add: unat_sub_if')
  with \<open>unat (va - PGROUNDDOWN va) < 4096\<close> have "0 < unat (PGSIZE - (va - PGROUNDDOWN va))" by simp
  then show ?thesis by (auto simp: word_less_nat_alt word_unat_eq_iff)
qed

lemma store_byte: "store_bytes p (\<lambda>_. c) (Suc 0) m = m(p := c)"
proof
  fix a
  have "unat (a - p) = 0 \<longleftrightarrow> a = p" by (simp add: unat_eq_0)
  then show "store_bytes p (\<lambda>_. c) (Suc 0) m a = (m(p := c)) a" by (simp add: store_bytes_def)
qed

lemma copyout_byte:
  "copyout pt va (\<lambda>_. c) 1 s =
     (let p = xlate s pt (PGROUNDDOWN va)
      in if p = 0 then Ret (-1) s else Ret 0 (s\<lparr>mem := (mem s)(p + (va - PGROUNDDOWN va) := c)\<rparr>))"
proof -
  have "copyout_step pt (\<lambda>_. c) (0, va, 1) s =
    (let p = xlate s pt (PGROUNDDOWN va)
      in if p = 0 then Ret (Inr (-1)) s
         else Ret (Inl (1, PGROUNDDOWN va + PGSIZE, 0)) (s\<lparr>mem := (mem s)(p + (va - PGROUNDDOWN va) := c)\<rparr>))"
    unfolding copyout_step_def Let_def prod.case copy_one by (simp add: walkaddr_Ret kprog_simps store_byte)
  moreover have "kwhile (copyout_step pt (\<lambda>_. c)) (1, x, 0) t = Ret 0 t" for x and t :: "'a kmem_st_scheme"
    by (subst kwhile_unfold) (simp add: copyout_step_def kprog_simps)
  ultimately show ?thesis
    unfolding copyout_def by (subst kwhile_unfold) (simp add: Let_def)
qed

text \<open>What user space reads depends on the physical memory only.\<close>

lemma walk_from_mem: "mem s = mem t \<Longrightarrow> \<exists>r. walk_from l pt va False s = Ret r s \<and> walk_from l pt va False t = Ret r t"
  by (induction l arbitrary: pt) (auto simp: kprog_simps Let_def)

lemma xlate_mem: "mem s = mem t \<Longrightarrow> xlate s pt va = xlate t pt va"
  using walk_from_mem [of s t 2 pt va]
  by (auto simp: xlate_def walkaddr_def walk_def kprog_simps simp del: walk_from.simps)

lemma ubyte_mem: "mem s = mem t \<Longrightarrow> ubyte s pt va = ubyte t pt va"
  by (simp add: ubyte_def xlate_mem [of s t] Let_def)

lemma uspace_mem: "mem s = mem t \<Longrightarrow> uspace_ok s pt = uspace_ok t pt"
  by (simp add: uspace_ok_def xlate_mem [of s t])

end
