(* ===== verification/ProcState.thy ===== *)
theory ProcState
  imports PageTable
begin

text \<open>
  The process table of \<^verbatim>\<open>kernel/proc.h\<close> and \<^verbatim>\<open>kernel/proc.c\<close>, and the fetching of system-call arguments
  from \<^verbatim>\<open>kernel/syscall.c\<close>. A pointer into \<^verbatim>\<open>proc[]\<close>, \<^verbatim>\<open>ftable.file[]\<close> or \<^verbatim>\<open>itable.inode[]\<close> is the index
  of the slot. The trapframe is a physical page; its registers are read and written in memory.
\<close>

abbreviation NPROC :: nat where "NPROC \<equiv> 64"
abbreviation NOFILE :: nat where "NOFILE \<equiv> 16"

datatype procstate = UNUSED | USED | SLEEPING | RUNNABLE | RUNNING | ZOMBIE

text \<open>Sleep channels: the kernel objects whose addresses are passed to \<^verbatim>\<open>sleep\<close> and \<^verbatim>\<open>wakeup\<close>.\<close>

datatype chan =
    ChNull | ChProc nat | ChTicks | ChLog | ChPipeRead addr | ChPipeWrite addr
  | ChBuf nat | ChInode nat | ChConsole | ChUart | ChDisk nat | ChDiskFree

record kcontext =
  c_ra :: uint64
  c_sp :: uint64
  c_s :: "nat \<Rightarrow> uint64"

record proc =
  p_state :: procstate
  p_chan :: chan
  p_killed :: int
  p_xstate :: int
  p_pid :: int
  p_parent :: "nat option"
  p_kstack :: uint64
  p_sz :: uint64
  p_pagetable :: addr
  p_trapframe :: addr
  p_context :: kcontext
  p_ofile :: "nat \<Rightarrow> nat option"
  p_cwd :: "nat option"
  p_name :: cptr

text \<open>\<open>cur\<close> is the slot of the running process; the slot number \<open>NPROC\<close> stands for no process.\<close>

record proc_st = kmem_st +
  procs :: "nat \<Rightarrow> proc"
  cur :: nat
  initproc :: nat
  nextpid :: int

definition myproc :: "'z proc_st_scheme \<Rightarrow> proc" where
  "myproc s = procs s (cur s)"

definition upd_proc :: "nat \<Rightarrow> (proc \<Rightarrow> proc) \<Rightarrow> 'z proc_st_scheme \<Rightarrow> 'z proc_st_scheme" where
  "upd_proc i f s = s\<lparr>procs := (procs s)(i := f (procs s i))\<rparr>"

lemma upd_proc_simps [simp]:
  "mem (upd_proc i f s) = mem s" "freelist (upd_proc i f s) = freelist s" "kend (upd_proc i f s) = kend s"
  "cur (upd_proc i f s) = cur s" "nextpid (upd_proc i f s) = nextpid s" "initproc (upd_proc i f s) = initproc s"
  "procs (upd_proc i f s) = (procs s)(i := f (procs s i))"
  by (simp_all add: upd_proc_def)

section \<open>System-call arguments\<close>

text \<open>Byte offsets of the saved registers in \<^verbatim>\<open>struct trapframe\<close>.\<close>

abbreviation tf_epc :: addr where "tf_epc \<equiv> 24"
abbreviation tf_sp :: addr where "tf_sp \<equiv> 48"
abbreviation tf_a0 :: addr where "tf_a0 \<equiv> 112"
abbreviation tf_a1 :: addr where "tf_a1 \<equiv> 120"
abbreviation tf_a7 :: addr where "tf_a7 \<equiv> 168"

definition argraw :: "nat \<Rightarrow> ('z proc_st_scheme, uint64) kprog" where
  "argraw n =
     (if n \<le> 5 then kget (\<lambda>s. read64 (mem s) (p_trapframe (myproc s) + tf_a0 + 8 * of_nat n))
      else kpanic ''argraw'')"

text \<open>
  \<^verbatim>\<open>argint\<close> and \<^verbatim>\<open>argaddr\<close> always return 0, so only the value fetched is modelled. \<^verbatim>\<open>argint\<close> keeps the
  low 32 bits as a signed number.
\<close>

definition argint :: "nat \<Rightarrow> ('z proc_st_scheme, int) kprog" where
  "argint n = kbind (argraw n) (\<lambda>x. kret (sint (ucast x :: 32 word)))"

definition argaddr :: "nat \<Rightarrow> ('z proc_st_scheme, uint64) kprog" where
  "argaddr n = argraw n"

definition fetchaddr :: "addr \<Rightarrow> ('z proc_st_scheme, int \<times> uint64) kprog" where
  "fetchaddr a = (\<lambda>s.
     if a \<ge> p_sz (myproc s) \<or> a + 8 > p_sz (myproc s) then Ret (-1, 0) s
     else kbind (copyin (p_pagetable (myproc s)) a 8) (\<lambda>(r, bs).
            if r \<noteq> 0 then kret (-1, 0) else kret (0, le_get 8 (\<lambda>i. bs ! i) 0)) s)"

text \<open>A buffer filled with the bytes \<open>bs\<close>.\<close>

definition buf_view :: "uchar list \<Rightarrow> cptr" where
  "buf_view bs = (\<lambda>i. if i < length bs then bs ! i else 0)"

definition fetchstr :: "addr \<Rightarrow> int \<Rightarrow> ('z proc_st_scheme, int \<times> uchar list) kprog" where
  "fetchstr a maxn = (\<lambda>s.
     kbind (copyinstr (p_pagetable (myproc s)) a (word_of_int maxn)) (\<lambda>(err, bs).
       if err < 0 then kret (err, bs)
       else (case strlen (buf_view bs) of None \<Rightarrow> (\<lambda>_. Hang) | Some n \<Rightarrow> kret (int n, bs))) s)"

definition argstr :: "nat \<Rightarrow> int \<Rightarrow> ('z proc_st_scheme, int \<times> uchar list) kprog" where
  "argstr n maxn = kbind (argaddr n) (\<lambda>a. fetchstr a maxn)"

section \<open>Copies whose other end is in user space or in the kernel\<close>

text \<open>
  The \<^verbatim>\<open>user_dst\<close> flag and the address of \<^verbatim>\<open>either_copyout\<close> and \<^verbatim>\<open>either_copyin\<close>: a user virtual address, an
  address in the directly mapped physical memory, or a local variable of the caller. What is copied to a
  local variable is returned by the routine that makes the copy.
\<close>

datatype dest = DUser addr | DMem addr | DObj
datatype source = SUser addr | SMem addr | SObj cptr

fun dest_add :: "dest \<Rightarrow> uint64 \<Rightarrow> dest" where
  "dest_add (DUser a) n = DUser (a + n)"
| "dest_add (DMem a) n = DMem (a + n)"
| "dest_add DObj n = DObj"

fun source_add :: "source \<Rightarrow> uint64 \<Rightarrow> source" where
  "source_add (SUser a) n = SUser (a + n)"
| "source_add (SMem a) n = SMem (a + n)"
| "source_add (SObj f) n = SObj (\<lambda>i. f (unat n + i))"

fun either_copyout :: "dest \<Rightarrow> cptr \<Rightarrow> uint64 \<Rightarrow> ('z proc_st_scheme, int) kprog" where
  "either_copyout (DUser dst) src len = (\<lambda>s. copyout (p_pagetable (myproc s)) dst src len s)"
| "either_copyout (DMem dst) src len = kthen (kmod (\<lambda>s. s\<lparr>mem := store_bytes dst src (unat len) (mem s)\<rparr>)) (kret 0)"
| "either_copyout DObj src len = kret 0"

text \<open>The bytes that reached the destination are returned with the status.\<close>

fun either_copyin :: "source \<Rightarrow> uint64 \<Rightarrow> ('z proc_st_scheme, int \<times> uchar list) kprog" where
  "either_copyin (SUser src) len = (\<lambda>s. copyin (p_pagetable (myproc s)) src len s)"
| "either_copyin (SMem src) len = kget (\<lambda>s. (0, load_bytes (mem s) src (unat len)))"
| "either_copyin (SObj src) len = kret (0, map src [0 ..< unat len])"

section \<open>Waking sleepers\<close>

definition wakeup :: "chan \<Rightarrow> 'z proc_st_scheme \<Rightarrow> 'z proc_st_scheme" where
  "wakeup ch s = s\<lparr>procs := (\<lambda>i.
     if i < NPROC \<and> i \<noteq> cur s \<and> p_state (procs s i) = SLEEPING \<and> p_chan (procs s i) = ch
     then (procs s i)\<lparr>p_state := RUNNABLE\<rparr> else procs s i)\<rparr>"

lemma wakeup_simps [simp]:
  "mem (wakeup ch s) = mem s" "freelist (wakeup ch s) = freelist s" "kend (wakeup ch s) = kend s"
  "cur (wakeup ch s) = cur s" "nextpid (wakeup ch s) = nextpid s" "initproc (wakeup ch s) = initproc s"
  "p_pid (procs (wakeup ch s) i) = p_pid (procs s i)"
  "p_pid (myproc (wakeup ch s)) = p_pid (myproc s)"
  "p_pagetable (myproc (wakeup ch s)) = p_pagetable (myproc s)"
  by (simp_all add: wakeup_def myproc_def)

text \<open>
  \<^verbatim>\<open>sleep\<close> up to the switch to the scheduler: the running process waits on the channel. The routines that sleep
  after they have changed the state return their progress and are continued from there.
\<close>

definition go_to_sleep :: "chan \<Rightarrow> 'z proc_st_scheme \<Rightarrow> 'z proc_st_scheme" where
  "go_to_sleep ch s = upd_proc (cur s) (\<lambda>p. p\<lparr>p_chan := ch, p_state := SLEEPING\<rparr>) s"

section \<open>Sleep locks\<close>

text \<open>
  \<^verbatim>\<open>kernel/sleeplock.c\<close>. \<open>acquiresleep\<close> yields no lock if the caller has to sleep. The wakeup of \<open>releasesleep\<close>, whose
  channel is the lock itself, is done by the routine that owns the lock.
\<close>

record sleeplock =
  sl_locked :: bool
  sl_pid :: int

definition initsleeplock :: sleeplock where
  "initsleeplock = \<lparr>sl_locked = False, sl_pid = 0\<rparr>"

definition acquiresleep :: "int \<Rightarrow> sleeplock \<Rightarrow> sleeplock option" where
  "acquiresleep pid lk = (if sl_locked lk then None else Some \<lparr>sl_locked = True, sl_pid = pid\<rparr>)"

definition releasesleep :: "sleeplock \<Rightarrow> sleeplock" where
  "releasesleep lk = lk\<lparr>sl_locked := False, sl_pid := 0\<rparr>"

definition holdingsleep :: "int \<Rightarrow> sleeplock \<Rightarrow> bool" where
  "holdingsleep pid lk \<longleftrightarrow> sl_locked lk \<and> sl_pid lk = pid"

section \<open>A process that makes a system call\<close>

definition boot_proc :: proc where
  "boot_proc = \<lparr>p_state = RUNNING, p_chan = ChNull, p_killed = 0, p_xstate = 0, p_pid = 1, p_parent = None, p_kstack = 0,
     p_sz = 4096, p_pagetable = 0x80001000, p_trapframe = 0x80005000, p_context = \<lparr>c_ra = 0, c_sp = 0, c_s = (\<lambda>_. 0)\<rparr>,
     p_ofile = (\<lambda>_. None), p_cwd = None, p_name = (\<lambda>_. 0)\<rparr>"

text \<open>A process that passes \<open>a\<close> and \<open>n\<close> to the kernel and has its first page mapped.\<close>

lemma boot_args:
  fixes a :: addr and n :: uint64
  shows "\<exists>m. \<forall>s :: 'z proc_st_scheme. mem s = m \<and> myproc s = boot_proc \<longrightarrow>
     argaddr 0 s = Ret a s \<and> argint 1 s = Ret (sint (ucast n :: 32 word)) s \<and> (\<forall>x. unat x < 4096 \<longrightarrow> ubyte s 0x80001000 x \<noteq> None)"
proof -
  obtain t :: kmem_st where t: "uspace_ok t 0x80001000" "xlate t 0x80001000 0 = 0x80004000" "0x80005000 \<notin> tables (mem t) 0x80001000"
    using small_space by blast
  let ?m = "write64 0x80005070 a (write64 0x80005078 n (mem t))"
  have sb: "same_but 0x80005000 (mem t) ?m"
    using same_but_trans [OF same_but_slot [of "0x80005000" 15 "mem t" n] same_but_slot [of "0x80005000" 14 _ a]]
    by (simp add: tslot_def)
  have pg: "PGROUNDDOWN x = 0" if "unat x < 4096" for x
    using that by (simp add: word_unat_eq_iff unat_PGROUNDDOWN)
  have u: "ubyte s 0x80001000 x \<noteq> None" if "mem s = ?m" "unat x < 4096" for s :: "'z proc_st_scheme" and x
  proof -
    have "xlate s 0x80001000 = xlate t 0x80001000"
      using uspace_same_but(1) [OF t(1) _ _ t(3), of s] sb that(1) by simp
    then show ?thesis using t(2) pg [OF that(2)] by (simp add: ubyte_def)
  qed
  show ?thesis
    using u by (intro exI [of _ ?m]) (simp add: argaddr_def argint_def argraw_def kprog_simps boot_proc_def read64_write64_other)
qed

end
