(* ===== verification/Bio.thy ===== *)
theory Bio
  imports ProcState
begin

text \<open>
  The buffer cache, \<^verbatim>\<open>kernel/bio.c\<close>. A pointer to a buffer is its index in \<^verbatim>\<open>bcache.buf[]\<close>; the list
  head \<^verbatim>\<open>bcache.head\<close> has the index \<open>NBUF\<close>. A block is the function from byte offsets to bytes; only
  the offsets below \<open>BSIZE\<close> are used. The disk is the map from block numbers to blocks; \<open>dtrace\<close> records
  the writes in the order in which they reach it, which is what a crash can cut off.
\<close>

abbreviation NBUF :: nat where "NBUF \<equiv> 30"
abbreviation BSIZE :: nat where "BSIZE \<equiv> 65536"
abbreviation ROOTDEV :: uint where "ROOTDEV \<equiv> 1"

type_synonym block = cptr

record buf =
  b_valid :: bool
  b_disk :: bool
  b_dev :: uint
  b_blockno :: uint
  b_lock :: sleeplock
  b_refcnt :: uint
  b_prev :: nat
  b_next :: nat
  b_data :: block

record bio_st = proc_st +
  bcache :: "nat \<Rightarrow> buf"
  disk :: "uint \<Rightarrow> block"
  dtrace :: "(uint \<times> block) list"

definition upd_buf :: "nat \<Rightarrow> (buf \<Rightarrow> buf) \<Rightarrow> 'z bio_st_scheme \<Rightarrow> 'z bio_st_scheme" where
  "upd_buf b f s = s\<lparr>bcache := (bcache s)(b := f (bcache s b))\<rparr>"

text \<open>
  The disk driver as its callers see it: the request for buffer \<open>b\<close> is complete when the call returns.
  The driver has a single disk and does not look at the device number.
\<close>

definition virtio_disk_rw :: "nat \<Rightarrow> bool \<Rightarrow> ('z bio_st_scheme, unit) kprog" where
  "virtio_disk_rw b wr = kmod (\<lambda>s.
     let bn = b_blockno (bcache s b) in
     if wr then s\<lparr>disk := (disk s)(bn := b_data (bcache s b)), dtrace := dtrace s @ [(bn, b_data (bcache s b))]\<rparr>
     else upd_buf b (\<lambda>x. x\<lparr>b_data := disk s bn\<rparr>) s)"

section \<open>Operations\<close>

definition binit_step :: "nat \<Rightarrow> 'z bio_st_scheme \<Rightarrow> 'z bio_st_scheme" where
  "binit_step b s =
     (let s = upd_buf b (\<lambda>x. x\<lparr>b_next := b_next (bcache s NBUF)\<rparr>) s;
          s = upd_buf b (\<lambda>x. x\<lparr>b_prev := NBUF\<rparr>) s;
          s = upd_buf b (\<lambda>x. x\<lparr>b_lock := initsleeplock\<rparr>) s;
          s = upd_buf (b_next (bcache s NBUF)) (\<lambda>x. x\<lparr>b_prev := b\<rparr>) s
      in upd_buf NBUF (\<lambda>x. x\<lparr>b_next := b\<rparr>) s)"

definition binit :: "('z bio_st_scheme, unit) kprog" where
  "binit = kmod (\<lambda>s.
     let s = upd_buf NBUF (\<lambda>x. x\<lparr>b_prev := NBUF, b_next := NBUF\<rparr>) s in fold binit_step [0 ..< NBUF] s)"

text \<open>The two searches of \<^verbatim>\<open>bget\<close>: forwards for the block, backwards for an unused buffer.\<close>

definition bfind_step :: "uint \<Rightarrow> uint \<Rightarrow> nat \<Rightarrow> ('z bio_st_scheme, nat + nat option) kprog" where
  "bfind_step dev blockno b = (\<lambda>s.
     if b = NBUF then Ret (Inr None) s
     else if b_dev (bcache s b) = dev \<and> b_blockno (bcache s b) = blockno then Ret (Inr (Some b)) s
     else Ret (Inl (b_next (bcache s b))) s)"

definition bfree_step :: "nat \<Rightarrow> ('z bio_st_scheme, nat + nat option) kprog" where
  "bfree_step b = (\<lambda>s.
     if b = NBUF then Ret (Inr None) s
     else if b_refcnt (bcache s b) = 0 then Ret (Inr (Some b)) s
     else Ret (Inl (b_prev (bcache s b))) s)"

text \<open>\<^verbatim>\<open>acquiresleep(&b->lock)\<close>.\<close>

definition block_lock :: "nat \<Rightarrow> ('z bio_st_scheme, unit) kprog" where
  "block_lock b = (\<lambda>s. case acquiresleep (p_pid (myproc s)) (b_lock (bcache s b)) of
       None \<Rightarrow> Block | Some lk \<Rightarrow> Ret () (upd_buf b (\<lambda>x. x\<lparr>b_lock := lk\<rparr>) s))"

definition bget :: "uint \<Rightarrow> uint \<Rightarrow> ('z bio_st_scheme, nat) kprog" where
  "bget dev blockno = (\<lambda>s.
     kbind (kwhile (bfind_step dev blockno) (b_next (bcache s NBUF))) (\<lambda>r. case r of
       Some b \<Rightarrow> kthen (kmod (upd_buf b (\<lambda>x. x\<lparr>b_refcnt := b_refcnt x + 1\<rparr>))) (kthen (block_lock b) (kret b))
     | None \<Rightarrow> (\<lambda>s.
         kbind (kwhile bfree_step (b_prev (bcache s NBUF))) (\<lambda>r. case r of
           Some b \<Rightarrow>
             kthen (kmod (upd_buf b (\<lambda>x. x\<lparr>b_dev := dev, b_blockno := blockno, b_valid := False, b_refcnt := 1\<rparr>)))
               (kthen (block_lock b) (kret b))
         | None \<Rightarrow> kpanic ''bget: no buffers'') s)) s)"

definition bread :: "uint \<Rightarrow> uint \<Rightarrow> ('z bio_st_scheme, nat) kprog" where
  "bread dev blockno =
     kbind (bget dev blockno) (\<lambda>b s.
       if \<not> b_valid (bcache s b)
       then kthen (virtio_disk_rw b False) (kthen (kmod (upd_buf b (\<lambda>x. x\<lparr>b_valid := True\<rparr>))) (kret b)) s
       else Ret b s)"

definition bwrite :: "nat \<Rightarrow> ('z bio_st_scheme, unit) kprog" where
  "bwrite b = (\<lambda>s.
     if \<not> holdingsleep (p_pid (myproc s)) (b_lock (bcache s b)) then Panic ''bwrite''
     else virtio_disk_rw b True s)"

text \<open>Taking \<open>b\<close> out of the list and putting it at the front.\<close>

definition unlink_buf :: "nat \<Rightarrow> 'z bio_st_scheme \<Rightarrow> 'z bio_st_scheme" where
  "unlink_buf b s =
     (let s = upd_buf (b_next (bcache s b)) (\<lambda>x. x\<lparr>b_prev := b_prev (bcache s b)\<rparr>) s
      in upd_buf (b_prev (bcache s b)) (\<lambda>x. x\<lparr>b_next := b_next (bcache s b)\<rparr>) s)"

definition link_front :: "nat \<Rightarrow> 'z bio_st_scheme \<Rightarrow> 'z bio_st_scheme" where
  "link_front b s =
     (let s = upd_buf b (\<lambda>x. x\<lparr>b_next := b_next (bcache s NBUF), b_prev := NBUF\<rparr>) s;
          s = upd_buf (b_next (bcache s NBUF)) (\<lambda>x. x\<lparr>b_prev := b\<rparr>) s
      in upd_buf NBUF (\<lambda>x. x\<lparr>b_next := b\<rparr>) s)"

definition brelse :: "nat \<Rightarrow> ('z bio_st_scheme, unit) kprog" where
  "brelse b = (\<lambda>s.
     if \<not> holdingsleep (p_pid (myproc s)) (b_lock (bcache s b)) then Panic ''brelse''
     else
       let s = wakeup (ChBuf b) (upd_buf b (\<lambda>x. x\<lparr>b_lock := releasesleep (b_lock x)\<rparr>) s);
           s = upd_buf b (\<lambda>x. x\<lparr>b_refcnt := b_refcnt x - 1\<rparr>) s
       in Ret () (if b_refcnt (bcache s b) = 0 then link_front b (unlink_buf b s) else s))"

definition bpin :: "nat \<Rightarrow> ('z bio_st_scheme, unit) kprog" where
  "bpin b = kmod (upd_buf b (\<lambda>x. x\<lparr>b_refcnt := b_refcnt x + 1\<rparr>))"

definition bunpin :: "nat \<Rightarrow> ('z bio_st_scheme, unit) kprog" where
  "bunpin b = kmod (upd_buf b (\<lambda>x. x\<lparr>b_refcnt := b_refcnt x - 1\<rparr>))"

section \<open>The doubly linked list\<close>

text \<open>\<open>lseg nx pv xs\<close>: following \<open>nx\<close> through \<open>xs\<close> and \<open>pv\<close> backwards.\<close>

fun lseg :: "(nat \<Rightarrow> nat) \<Rightarrow> (nat \<Rightarrow> nat) \<Rightarrow> nat list \<Rightarrow> bool" where
  "lseg nx pv (a # b # xs) \<longleftrightarrow> nx a = b \<and> pv b = a \<and> lseg nx pv (b # xs)"
| "lseg nx pv _ \<longleftrightarrow> True"

lemma lseg_append: "lseg nx pv (xs @ a # ys) \<longleftrightarrow> lseg nx pv (xs @ [a]) \<and> lseg nx pv (a # ys)"
  by (induction xs rule: induct_list012) simp_all

lemma lseg_cong:
  "(\<And>x. x \<in> set (butlast xs) \<Longrightarrow> nx x = nx' x) \<Longrightarrow> (\<And>x. x \<in> set (tl xs) \<Longrightarrow> pv x = pv' x) \<Longrightarrow>
   lseg nx pv xs = lseg nx' pv' xs"
  by (induction nx pv xs rule: lseg.induct) auto

lemma lseg_skip:
  assumes l: "lseg nx pv (xs @ p # b # n # ys)"
    and "p \<notin> set xs" "n \<notin> set (tl (xs @ [p]))" "p \<notin> set (butlast (n # ys))" "n \<notin> set ys"
  shows "nx b = n" "pv b = p" "lseg (nx(p := n)) (pv(n := p)) (xs @ p # n # ys)"
proof -
  have l': "lseg nx pv (xs @ [p])" "lseg nx pv (n # ys)" and b: "nx b = n" "pv b = p"
    using l unfolding lseg_append [of nx pv xs p "b # n # ys"] by simp_all
  show "nx b = n" "pv b = p" using b .
  have "lseg (nx(p := n)) (pv(n := p)) (xs @ [p]) = lseg nx pv (xs @ [p])"
    by (rule lseg_cong) (use assms in auto)
  moreover have "lseg (nx(p := n)) (pv(n := p)) (n # ys) = lseg nx pv (n # ys)"
    by (rule lseg_cong) (use assms in auto)
  ultimately show "lseg (nx(p := n)) (pv(n := p)) (xs @ p # n # ys)"
    using l' unfolding lseg_append [of _ _ xs p "n # ys"] by simp
qed

lemma lseg_unlink:
  assumes l: "lseg nx pv (h # us @ b # vs @ [h])" and d: "distinct (h # us @ b # vs)"
  shows "lseg (nx(pv b := nx b)) (pv(nx b := pv b)) (h # us @ vs @ [h])"
proof -
  define xs p where "xs = butlast (h # us)" and "p = last (h # us)"
  have xs: "h # us = xs @ [p]" unfolding xs_def p_def by (rule append_butlast_last_id [symmetric]) simp
  define n ys where "n = hd (vs @ [h])" and "ys = tl (vs @ [h])"
  have ys: "vs @ [h] = n # ys" unfolding n_def ys_def by simp
  have "h # us @ b # vs @ [h] = (h # us) @ b # (vs @ [h])" by simp
  then have s1: "h # us @ b # vs @ [h] = xs @ p # b # n # ys" unfolding xs ys by simp
  have "h # us @ vs @ [h] = (h # us) @ (vs @ [h])" by simp
  then have s2: "h # us @ vs @ [h] = xs @ p # n # ys" unfolding xs ys by simp
  have tl: "tl (xs @ [p]) = us" "butlast (n # ys) = vs" using xs ys by (metis list.sel(3), metis butlast_snoc)
  have "distinct (xs @ [p])" "distinct us" using d unfolding xs [symmetric] by auto
  have p: "p \<in> insert h (set us)" using arg_cong [OF xs, of set] by auto
  have n: "n \<in> insert h (set vs)" "set ys \<subseteq> insert h (set vs)"
    using ys by (cases vs; auto)+
  have "n \<notin> set ys" using ys d by (cases vs) auto
  then have "nx b = n" "pv b = p" "lseg (nx(p := n)) (pv(n := p)) (xs @ p # n # ys)"
    using lseg_skip [OF l [unfolded s1]] tl p n d \<open>distinct (xs @ [p])\<close> by auto
  then show ?thesis unfolding s2 by simp
qed

lemma lseg_front:
  assumes "lseg nx pv (h # ws @ [h])" "b \<notin> set ws" "b \<noteq> h" "distinct ws" "h \<notin> set ws"
  shows "lseg (nx(b := nx h, h := b)) (pv(b := h, nx h := b)) (h # b # ws @ [h])"
proof -
  define f ys where "f = hd (ws @ [h])" and "ys = tl (ws @ [h])"
  have ws: "ws @ [h] = f # ys" unfolding f_def ys_def by simp
  have f: "nx h = f" "lseg nx pv (f # ys)" using assms(1) unfolding ws by simp_all
  have "f \<notin> set ys" "b \<notin> set (f # ys)" "h \<notin> set (butlast (f # ys))"
    using assms ws by (cases ws; auto)+
  then have "lseg (nx(b := f, h := b)) (pv(b := h, f := b)) (f # ys) = lseg nx pv (f # ys)"
    by (intro lseg_cong) (auto split: if_splits dest: in_set_butlastD)
  with f \<open>b \<notin> set (f # ys)\<close> assms(3) show ?thesis unfolding ws by auto
qed

abbreviation nexts :: "'z bio_st_scheme \<Rightarrow> nat \<Rightarrow> nat" where "nexts s \<equiv> \<lambda>i. b_next (bcache s i)"
abbreviation prevs :: "'z bio_st_scheme \<Rightarrow> nat \<Rightarrow> nat" where "prevs s \<equiv> \<lambda>i. b_prev (bcache s i)"

text \<open>The buffers in the order of the list, most recently used first.\<close>

definition lru :: "'z bio_st_scheme \<Rightarrow> nat list \<Rightarrow> bool" where
  "lru s xs \<longleftrightarrow> lseg (nexts s) (prevs s) (NBUF # xs @ [NBUF]) \<and> distinct xs \<and> set xs = {..<NBUF}"

lemma lseg_snoc: "ws \<noteq> [] \<Longrightarrow> lseg nx pv (ws @ [b]) \<longleftrightarrow> lseg nx pv ws \<and> nx (last ws) = b \<and> pv b = last ws"
  by (induction ws rule: induct_list012) auto

lemma bfind_step_apply:
  "bfind_step dev bn b s = Ret (if b = NBUF then Inr None
     else if b_dev (bcache s b) = dev \<and> b_blockno (bcache s b) = bn then Inr (Some b) else Inl (b_next (bcache s b))) s"
  by (simp add: bfind_step_def)

lemma bfree_step_apply:
  "bfree_step b s = Ret (if b = NBUF then Inr None
     else if b_refcnt (bcache s b) = 0 then Inr (Some b) else Inl (b_prev (bcache s b))) s"
  by (simp add: bfree_step_def)

lemma bfind_list:
  assumes "lseg (nexts s) pv (ws @ [NBUF])" "NBUF \<notin> set ws"
  shows "kwhile (bfind_step dev bn) (hd (ws @ [NBUF])) s =
    Ret (List.find (\<lambda>b. b_dev (bcache s b) = dev \<and> b_blockno (bcache s b) = bn) ws) s"
  using assms
proof (induction ws)
  case Nil
  then show ?case by (subst kwhile_unfold) (simp add: bfind_step_apply)
next
  case (Cons b ws)
  then have "nexts s b = hd (ws @ [NBUF])" "lseg (nexts s) pv (ws @ [NBUF])" by (cases ws; simp)+
  with Cons show ?case by (subst kwhile_unfold, subst bfind_step_apply) auto
qed

lemma bfree_list:
  assumes "lseg nx (prevs s) (NBUF # ws)" "NBUF \<notin> set ws"
  shows "kwhile bfree_step (last (NBUF # ws)) s =
    Ret (List.find (\<lambda>b. b_refcnt (bcache s b) = 0) (rev ws)) s"
  using assms
proof (induction ws rule: rev_induct)
  case Nil
  then show ?case by (subst kwhile_unfold) (simp add: bfree_step_apply)
next
  case (snoc b ws)
  then have "lseg nx (prevs s) (NBUF # ws)" "prevs s b = last (NBUF # ws)"
    using lseg_snoc [of "NBUF # ws" nx "prevs s" b] by auto
  with snoc show ?case by (subst kwhile_unfold, subst bfree_step_apply) auto
qed

lemma lru_scans:
  assumes "lru s xs"
  shows "kwhile (bfind_step dev bn) (b_next (bcache s NBUF)) s =
      Ret (List.find (\<lambda>b. b_dev (bcache s b) = dev \<and> b_blockno (bcache s b) = bn) xs) s"
    and "kwhile bfree_step (b_prev (bcache s NBUF)) s = Ret (List.find (\<lambda>b. b_refcnt (bcache s b) = 0) (rev xs)) s"
proof -
  have l: "lseg (nexts s) (prevs s) (NBUF # xs @ [NBUF])" "NBUF \<notin> set xs" using assms by (auto simp: lru_def)
  then have "b_next (bcache s NBUF) = hd (xs @ [NBUF])" "lseg (nexts s) (prevs s) (xs @ [NBUF])" by (cases xs; simp)+
  then show "kwhile (bfind_step dev bn) (b_next (bcache s NBUF)) s =
      Ret (List.find (\<lambda>b. b_dev (bcache s b) = dev \<and> b_blockno (bcache s b) = bn) xs) s"
    using bfind_list [OF _ l(2)] by simp
  have "lseg (nexts s) (prevs s) (NBUF # xs)" "prevs s NBUF = last (NBUF # xs)"
    using l(1) lseg_snoc [of "NBUF # xs" "nexts s" "prevs s" NBUF] by auto
  then show "kwhile bfree_step (b_prev (bcache s NBUF)) s = Ret (List.find (\<lambda>b. b_refcnt (bcache s b) = 0) (rev xs)) s"
    using bfree_list [OF _ l(2), of "nexts s" s] by simp
qed

lemma bcache_upd_buf [simp]: "bcache (upd_buf b f s) = (bcache s)(b := f (bcache s b))"
  by (simp add: upd_buf_def)

lemma upd_buf_frame [simp]:
  "disk (upd_buf b f s) = disk s" "dtrace (upd_buf b f s) = dtrace s" "procs (upd_buf b f s) = procs s" "cur (upd_buf b f s) = cur s"
  "myproc (upd_buf b f s) = myproc s" "mem (upd_buf b f s) = mem s"
  by (simp_all add: upd_buf_def myproc_def)

lemma wakeup_bio [simp]:
  "bcache (wakeup ch s) = bcache s" "disk (wakeup ch s) = disk s" "dtrace (wakeup ch s) = dtrace s"
  by (simp_all add: wakeup_def)

lemma lru_link_front:
  assumes "lru s xs" "b < NBUF"
  shows "lru (link_front b (unlink_buf b s)) (b # remove1 b xs)"
proof -
  have d: "distinct xs" "set xs = {..<NBUF}" and l: "lseg (nexts s) (prevs s) (NBUF # xs @ [NBUF])"
    using assms(1) by (auto simp: lru_def)
  obtain us vs where xs: "xs = us @ b # vs" using d(2) assms(2) by (metis lessThan_iff split_list)
  have d': "distinct (NBUF # us @ b # vs)" using d xs by auto
  let ?u = "unlink_buf b s"
  have u: "lseg ((nexts s)(prevs s b := nexts s b)) ((prevs s)(nexts s b := prevs s b)) (NBUF # (us @ vs) @ [NBUF])"
    using lseg_unlink [OF _ d'] l xs by simp
  have lb: "lseg (nexts s) (prevs s) ((NBUF # us) @ [b])" "lseg (nexts s) (prevs s) (b # vs @ [NBUF])"
    using l lseg_append [of "nexts s" "prevs s" "NBUF # us" b "vs @ [NBUF]"] xs by simp_all
  have "prevs s b = last (NBUF # us)" using lb(1) lseg_snoc [of "NBUF # us" "nexts s" "prevs s" b] by simp
  moreover have "nexts s b = hd (vs @ [NBUF])" using lb(2) by (cases vs) auto
  moreover have "last (NBUF # us) \<in> insert NBUF (set us)" by simp
  moreover have "hd (vs @ [NBUF]) \<in> insert NBUF (set vs)" by (cases vs) simp_all
  ultimately have "prevs s b \<noteq> b" "nexts s b \<noteq> b" using d' assms(2) by auto
  then have n: "nexts ?u = (nexts s)(prevs s b := nexts s b)" and p: "prevs ?u = (prevs s)(nexts s b := prevs s b)"
    by (auto simp: unlink_buf_def Let_def fun_eq_iff)
  let ?t = "link_front b ?u"
  have f: "lseg ((nexts ?u)(b := nexts ?u NBUF, NBUF := b)) ((prevs ?u)(b := NBUF, nexts ?u NBUF := b)) (NBUF # b # (us @ vs) @ [NBUF])"
    by (rule lseg_front) (use u n p d' assms(2) in auto)
  have "nexts ?t = (nexts ?u)(b := nexts ?u NBUF, NBUF := b)" "prevs ?t = (prevs ?u)(b := NBUF, nexts ?u NBUF := b)"
    using assms(2) by (auto simp: link_front_def Let_def fun_eq_iff)
  moreover have "remove1 b xs = us @ vs" using d' xs by (simp add: remove1_append)
  ultimately show ?thesis using f d xs d' unfolding lru_def by auto
qed

section \<open>What the cache promises\<close>

definition cached :: "'z bio_st_scheme \<Rightarrow> uint \<Rightarrow> nat \<Rightarrow> bool" where
  "cached s bn b \<longleftrightarrow> b < NBUF \<and> b_dev (bcache s b) = ROOTDEV \<and> b_blockno (bcache s b) = bn"

text \<open>The contents of a block as its readers see it: the cached copy if there is a valid one.\<close>

definition view :: "'z bio_st_scheme \<Rightarrow> uint \<Rightarrow> block" where
  "view s bn = (case List.find (\<lambda>b. cached s bn b \<and> b_valid (bcache s b)) [0 ..< NBUF] of
     Some b \<Rightarrow> b_data (bcache s b) | None \<Rightarrow> disk s bn)"

text \<open>
  The state of the cache between operations of the running process: \<open>P\<close> are the pinned blocks, \<open>H\<close> the
  blocks it holds locked. Only these can differ from the disk.
\<close>

definition buf_ok :: "int \<Rightarrow> uint set \<Rightarrow> uint set \<Rightarrow> (uint \<Rightarrow> block) \<Rightarrow> buf \<Rightarrow> bool" where
  "buf_ok pid P H d x \<longleftrightarrow>
     (if b_dev x = ROOTDEV then
        b_refcnt x = of_bool (b_blockno x \<in> P) + of_bool (b_blockno x \<in> H) \<and>
        (if b_blockno x \<in> H then b_lock x = \<lparr>sl_locked = True, sl_pid = pid\<rparr> else \<not> sl_locked (b_lock x)) \<and>
        (b_valid x \<or> b_blockno x \<notin> P \<union> H) \<and>
        (b_valid x \<and> b_blockno x \<notin> P \<union> H \<longrightarrow> b_data x = d (b_blockno x))
      else b_dev x = 0 \<and> b_refcnt x = 0 \<and> \<not> sl_locked (b_lock x))"

definition cache_st :: "'z bio_st_scheme \<Rightarrow> uint set \<Rightarrow> uint set \<Rightarrow> bool" where
  "cache_st s P H \<longleftrightarrow> (\<exists>xs. lru s xs) \<and>
     (\<forall>bn b c. cached s bn b \<longrightarrow> cached s bn c \<longrightarrow> b = c) \<and>
     (\<forall>b<NBUF. buf_ok (p_pid (myproc s)) P H (disk s) (bcache s b)) \<and>
     (\<forall>bn\<in>P \<union> H. \<exists>b. cached s bn b) \<and> finite (P \<union> H)"

lemma find_upt_None: "List.find Q [0 ..< n] = None \<longleftrightarrow> (\<forall>b<n. \<not> Q b)"
  by (auto simp: find_None_iff)

lemma find_upt_Some: "List.find Q [0 ..< n] = Some b \<Longrightarrow> b < n \<and> Q b"
  by (auto simp: find_Some_iff)

lemma view_cached:
  assumes "cache_st s P H" "cached s bn b" "b_valid (bcache s b)"
  shows "view s bn = b_data (bcache s b)"
proof -
  obtain c where c: "List.find (\<lambda>b. cached s bn b \<and> b_valid (bcache s b)) [0 ..< NBUF] = Some c"
    using assms(2,3) find_upt_None [of "\<lambda>b. cached s bn b \<and> b_valid (bcache s b)" NBUF]
    by (cases "List.find (\<lambda>b. cached s bn b \<and> b_valid (bcache s b)) [0 ..< NBUF]") (auto simp: cached_def)
  then have "cached s bn c" using find_upt_Some [OF c] by blast
  then have "c = b" using assms(1,2) unfolding cache_st_def by blast
  then show ?thesis by (simp add: view_def c)
qed

lemma view_uncached: "\<forall>b. cached s bn b \<longrightarrow> \<not> b_valid (bcache s b) \<Longrightarrow> view s bn = disk s bn"
  using find_upt_None [of "\<lambda>b. cached s bn b \<and> b_valid (bcache s b)" NBUF] by (simp add: view_def)

lemma view_clean:
  assumes "cache_st s P H" "bn \<notin> P \<union> H"
  shows "view s bn = disk s bn"
proof (cases "\<exists>b. cached s bn b \<and> b_valid (bcache s b)")
  case True
  then obtain b where b: "cached s bn b" "b_valid (bcache s b)" by blast
  then have "buf_ok (p_pid (myproc s)) P H (disk s) (bcache s b)"
    using assms(1) by (simp add: cache_st_def cached_def)
  with b assms show ?thesis using view_cached [OF assms(1) b] by (auto simp: buf_ok_def cached_def)
qed (simp add: view_uncached)

lemma cache_st_cached:
  assumes "cache_st s P H" "bn \<in> P \<union> H"
  obtains b where "cached s bn b" "b_valid (bcache s b)" "buf_ok (p_pid (myproc s)) P H (disk s) (bcache s b)"
proof -
  obtain b where b: "cached s bn b" using assms unfolding cache_st_def by blast
  then have "buf_ok (p_pid (myproc s)) P H (disk s) (bcache s b)" using assms(1) by (simp add: cache_st_def cached_def)
  moreover have "b_valid (bcache s b)" using calculation b assms(2) by (auto simp: buf_ok_def cached_def)
  ultimately show thesis using that b by blast
qed

text \<open>A free buffer exists as long as not all buffers are referenced.\<close>

lemma free_buffer:
  assumes "cache_st s P H" "card (P \<union> H) < NBUF"
  shows "\<exists>b<NBUF. b_refcnt (bcache s b) = 0"
proof (rule ccontr)
  assume "\<not> ?thesis"
  then have nz: "b_refcnt (bcache s b) \<noteq> 0" if "b < NBUF" for b using that by blast
  have "b_blockno (bcache s b) \<in> P \<union> H \<and> cached s (b_blockno (bcache s b)) b" if "b < NBUF" for b
    using nz [OF that] assms(1) that by (auto simp: cache_st_def buf_ok_def cached_def split: if_splits)
  moreover from this have "inj_on (\<lambda>b. b_blockno (bcache s b)) {..<NBUF}"
    using assms(1) unfolding cache_st_def inj_on_def by (metis lessThan_iff)
  ultimately have "card {..<NBUF} \<le> card (P \<union> H)"
    using assms(1) by (intro card_inj_on_le) (auto simp: cache_st_def)
  with assms(2) show False by simp
qed

section \<open>The operations keep it\<close>

lemma lru_same_links:
  "lru s xs \<Longrightarrow> (\<And>i. b_next (bcache s' i) = b_next (bcache s i)) \<Longrightarrow> (\<And>i. b_prev (bcache s' i) = b_prev (bcache s i)) \<Longrightarrow> lru s' xs"
  by (simp add: lru_def)

lemma bget_buffer:
  assumes cs: "cache_st s P H" and b: "b < NBUF" "cached s bn b \<or> b_refcnt (bcache s b) = 0 \<and> (\<forall>c. \<not> cached s bn c)"
    and y: "b_dev y = ROOTDEV" "b_blockno y = bn" "b_valid y" "b_next y = b_next (bcache s b)" "b_prev y = b_prev (bcache s b)"
      "b_refcnt y = of_bool (bn \<in> P) + 1" "b_lock y = \<lparr>sl_locked = True, sl_pid = p_pid (myproc s)\<rparr>" "b_data y = view s bn"
    and bn: "bn \<notin> H"
  defines "s' \<equiv> upd_buf b (\<lambda>_. y) s"
  shows "cache_st s' P (insert bn H)" "cached s' bn b" "view s' = view s"
    "\<And>k c. k \<in> P \<union> H \<Longrightarrow> cached s k c \<Longrightarrow> cached s' k c"
proof -
  have old: "cached s bn' b \<Longrightarrow> bn' = bn \<or> bn' \<notin> P \<union> H" for bn'
  proof -
    assume "cached s bn' b"
    moreover have "buf_ok (p_pid (myproc s)) P H (disk s) (bcache s b)" using cs b(1) by (simp add: cache_st_def)
    ultimately show ?thesis using b(2)
      by (cases "bn' \<in> P"; cases "bn' \<in> H") (auto simp: buf_ok_def cached_def)
  qed
  have uniq: "cached s bn' c \<Longrightarrow> cached s bn' d \<Longrightarrow> c = d" for bn' c d
    using cs unfolding cache_st_def by blast
  have c': "cached s' bn' c \<longleftrightarrow> (if c = b then bn' = bn else cached s bn' c)" for bn' c
    using b(1) y by (auto simp: cached_def s'_def)
  show cb: "cached s' bn b" by (simp add: c')
  show "\<And>k c. k \<in> P \<union> H \<Longrightarrow> cached s k c \<Longrightarrow> cached s' k c"
    unfolding c' using old by auto
  obtain xs where "lru s xs" using cs by (auto simp: cache_st_def)
  then have "lru s' xs" by (rule lru_same_links) (auto simp: s'_def y)
  moreover have "\<forall>bn' c d. cached s' bn' c \<longrightarrow> cached s' bn' d \<longrightarrow> c = d"
    unfolding c' using b(2) uniq by (auto split: if_splits)
  moreover have "buf_ok (p_pid (myproc s')) P (insert bn H) (disk s') (bcache s' c)" if "c < NBUF" for c
  proof (cases "c = b")
    case True
    then show ?thesis using y by (simp add: s'_def buf_ok_def)
  next
    case False
    then have "b_dev (bcache s c) = ROOTDEV \<Longrightarrow> b_blockno (bcache s c) \<noteq> bn"
      using b(2) uniq [of bn c b] that by (auto simp: cached_def)
    moreover have "buf_ok (p_pid (myproc s)) P H (disk s) (bcache s c)" using cs that by (simp add: cache_st_def)
    ultimately show ?thesis using False by (auto simp: s'_def buf_ok_def)
  qed
  moreover have "\<exists>c. cached s' bn' c" if "bn' \<in> P \<union> insert bn H" for bn'
  proof (cases "bn' = bn")
    case False
    with that cs obtain c where "cached s bn' c" unfolding cache_st_def by blast
    moreover have "c \<noteq> b" using False that old [of bn'] calculation by auto
    ultimately show ?thesis by (intro exI [of _ c]) (simp add: c')
  qed (use cb in auto)
  ultimately show cs': "cache_st s' P (insert bn H)" using cs unfolding cache_st_def by auto
  show "view s' = view s"
  proof
    fix bn'
    consider "bn' = bn" | "bn' \<noteq> bn" "bn' \<in> P \<union> H" | "bn' \<notin> P \<union> insert bn H" by auto
    then show "view s' bn' = view s bn'"
    proof cases
      case 1
      then show ?thesis using view_cached [OF cs' cb] y by (simp add: s'_def)
    next
      case 2
      then obtain c where c: "cached s bn' c" "b_valid (bcache s c)" using cache_st_cached [OF cs] by metis
      then have "c \<noteq> b" using old 2 by auto
      then have "cached s' bn' c" "bcache s' c = bcache s c" using c c' by (auto simp: s'_def)
      then show ?thesis using view_cached [OF cs c] view_cached [OF cs', of bn' c] c(2) by simp
    next
      case 3
      then show ?thesis using view_clean [OF cs', of bn'] view_clean [OF cs, of bn'] by (simp add: s'_def)
    qed
  qed
qed

lemma upd_buf_upd_buf: "upd_buf b f (upd_buf b g s) = upd_buf b (\<lambda>_. f (g (bcache s b))) s"
  by (simp add: upd_buf_def)

lemma upd_buf_const: "upd_buf b f s = upd_buf b (\<lambda>_. f (bcache s b)) s"
  by (simp add: upd_buf_def)

text \<open>The buffer \<open>bget\<close> chooses, filled by \<open>bread\<close>.\<close>

definition filled :: "'z bio_st_scheme \<Rightarrow> uint set \<Rightarrow> uint \<Rightarrow> nat \<Rightarrow> buf \<Rightarrow> bool" where
  "filled s P bn b y \<longleftrightarrow>
     b_dev y = ROOTDEV \<and> b_blockno y = bn \<and> b_valid y \<and> b_next y = b_next (bcache s b) \<and> b_prev y = b_prev (bcache s b) \<and>
      b_refcnt y = of_bool (bn \<in> P) + 1 \<and> b_lock y = \<lparr>sl_locked = True, sl_pid = p_pid (myproc s)\<rparr> \<and> b_data y = view s bn"

lemma bread_found:
  assumes cs: "cache_st s P H" and b: "cached s bn b" and "bn \<notin> H"
    and f: "kwhile (bfind_step ROOTDEV bn) (b_next (bcache s NBUF)) s = Ret (Some b) s"
  shows "\<exists>y. bread ROOTDEV bn s = Ret b (upd_buf b (\<lambda>_. y) s) \<and>
      filled s P bn b y"
proof -
  have "b < NBUF" using b by (simp add: cached_def)
  then have ok: "buf_ok (p_pid (myproc s)) P H (disk s) (bcache s b)" using cs by (simp add: cache_st_def)
  have ul: "\<not> sl_locked (b_lock (bcache s b))" and rc: "b_refcnt (bcache s b) = of_bool (bn \<in> P)"
    using ok b \<open>bn \<notin> H\<close> by (auto simp: buf_ok_def cached_def)
  show ?thesis
  proof (cases "b_valid (bcache s b)")
    case True
    then show ?thesis using f ul rc b view_cached [OF cs b True]
      by (intro exI [of _ "(bcache s b)\<lparr>b_refcnt := b_refcnt (bcache s b) + 1,
             b_lock := \<lparr>sl_locked = True, sl_pid = p_pid (myproc s)\<rparr>\<rparr>"])
        (simp add: bread_def bget_def kprog_simps block_lock_def acquiresleep_def upd_buf_upd_buf cached_def filled_def)
  next
    case False
    then have "view s bn = disk s bn" using cs b unfolding cache_st_def by (intro view_uncached) blast
    then show ?thesis using f ul rc b False
      by (intro exI [of _ "(bcache s b)\<lparr>b_refcnt := b_refcnt (bcache s b) + 1,
             b_lock := \<lparr>sl_locked = True, sl_pid = p_pid (myproc s)\<rparr>, b_data := disk s bn, b_valid := True\<rparr>"])
        (simp add: bread_def bget_def kprog_simps block_lock_def acquiresleep_def upd_buf_upd_buf cached_def virtio_disk_rw_def filled_def)
  qed
qed

lemma bread_fresh:
  assumes cs: "cache_st s P H" and b: "b < NBUF" "b_refcnt (bcache s b) = 0" and bn: "\<forall>c. \<not> cached s bn c"
    and f: "kwhile (bfind_step ROOTDEV bn) (b_next (bcache s NBUF)) s = Ret None s"
       "kwhile bfree_step (b_prev (bcache s NBUF)) s = Ret (Some b) s"
  shows "\<exists>y. bread ROOTDEV bn s = Ret b (upd_buf b (\<lambda>_. y) s) \<and>
      filled s P bn b y"
proof -
  have ok: "buf_ok (p_pid (myproc s)) P H (disk s) (bcache s b)" using cs b by (simp add: cache_st_def)
  have ul: "\<not> sl_locked (b_lock (bcache s b))"
    using ok b(2) by (cases "b_blockno (bcache s b) \<in> P"; cases "b_blockno (bcache s b) \<in> H") (auto simp: buf_ok_def split: if_splits)
  have "bn \<notin> P" using cs bn unfolding cache_st_def by blast
  moreover have "view s bn = disk s bn" using bn by (intro view_uncached) blast
  ultimately show ?thesis using f ul
    by (intro exI [of _ "(bcache s b)\<lparr>b_dev := ROOTDEV, b_blockno := bn, b_refcnt := 1,
             b_lock := \<lparr>sl_locked = True, sl_pid = p_pid (myproc s)\<rparr>, b_data := disk s bn, b_valid := True\<rparr>"])
      (simp add: bread_def bget_def kprog_simps block_lock_def acquiresleep_def upd_buf_upd_buf virtio_disk_rw_def filled_def)
qed

text \<open>What an operation on the cache leaves alone: everything but the cache, the disk and the scheduling states.\<close>

definition same_procs :: "'z proc_st_scheme \<Rightarrow> 'y proc_st_scheme \<Rightarrow> bool" where
  "same_procs s s' \<longleftrightarrow> (\<exists>st. procs s' = (\<lambda>i. (procs s i)\<lparr>p_state := st i\<rparr>))"

lemma same_procs_wakeup: "procs s' = procs (wakeup ch s) \<Longrightarrow> same_procs s s'"
  unfolding same_procs_def
  by (rule exI [of _ "\<lambda>i. p_state (procs (wakeup ch s) i)"]) (simp add: wakeup_def fun_eq_iff)

lemma same_procs_refl: "procs s' = procs s \<Longrightarrow> same_procs s s'"
  unfolding same_procs_def by (rule exI [of _ "\<lambda>i. p_state (procs s i)"]) simp

lemma same_procs_trans: "same_procs s s' \<Longrightarrow> same_procs s' s'' \<Longrightarrow> same_procs s s''"
  by (auto simp: same_procs_def)

definition bio_only :: "'z bio_st_scheme \<Rightarrow> 'z bio_st_scheme \<Rightarrow> bool" where
  "bio_only s s' \<longleftrightarrow> same_procs s s' \<and> (\<exists>bc pr dk tr. s' = s\<lparr>procs := pr, bcache := bc, disk := dk, dtrace := tr\<rparr>)"

lemma bio_only_refl [simp, intro]: "bio_only s s"
  unfolding bio_only_def
  by (auto intro!: same_procs_refl exI [of _ "procs s"] exI [of _ "bcache s"] exI [of _ "disk s"] exI [of _ "dtrace s"])

lemma bio_only_trans:
  assumes "bio_only s s'" "bio_only s' s''"
  shows "bio_only s s''"
proof -
  obtain bc pr dk tr where "s'' = s\<lparr>procs := pr, bcache := bc, disk := dk, dtrace := tr\<rparr>"
    using assms by (auto simp: bio_only_def)
  then show ?thesis using assms same_procs_trans unfolding bio_only_def by blast
qed

lemma bio_onlyI:
  assumes "s' = s\<lparr>procs := procs s', bcache := bcache s', disk := disk s', dtrace := dtrace s'\<rparr>" "same_procs s s'"
  shows "bio_only s s'"
  using assms unfolding bio_only_def by blast

lemma bio_only_fields:
  assumes "bio_only s s'"
  shows "mem s' = mem s" "freelist s' = freelist s" "kend s' = kend s" "cur s' = cur s" "nextpid s' = nextpid s"
    "initproc s' = initproc s" "bio_st.more s' = bio_st.more s" "p_pid (myproc s') = p_pid (myproc s)"
    "p_pagetable (myproc s') = p_pagetable (myproc s)"
  using assms by (auto simp: bio_only_def same_procs_def myproc_def)

lemma bread_ok:
  assumes cs: "cache_st s P H" and bn: "bn \<notin> H" and room: "bn \<in> P \<or> card (P \<union> H) < NBUF"
  shows "returns (bread ROOTDEV bn) s (\<lambda>b s'. cache_st s' P (insert bn H) \<and> cached s' bn b \<and>
     (\<forall>k\<in>P \<union> H. \<forall>c. cached s k c \<longrightarrow> cached s' k c) \<and>
     view s' = view s \<and> disk s' = disk s \<and> dtrace s' = dtrace s \<and> bio_only s s')"
proof -
  obtain xs where xs: "lru s xs" using cs by (auto simp: cache_st_def)
  have set: "set xs = {..<NBUF}" using xs by (simp add: lru_def)
  have "\<exists>b y. b < NBUF \<and> (cached s bn b \<or> b_refcnt (bcache s b) = 0 \<and> (\<forall>c. \<not> cached s bn c)) \<and>
     bread ROOTDEV bn s = Ret b (upd_buf b (\<lambda>_. y) s) \<and>
      filled s P bn b y"
  proof (cases "List.find (\<lambda>b. b_dev (bcache s b) = ROOTDEV \<and> b_blockno (bcache s b) = bn) xs")
    case (Some b)
    then have "cached s bn b" using set by (auto simp: find_Some_iff cached_def)
    then have "b < NBUF \<and> (\<exists>y. bread ROOTDEV bn s = Ret b (upd_buf b (\<lambda>_. y) s) \<and> filled s P bn b y)"
      using bread_found [OF cs _ bn, of b] lru_scans(1) [OF xs, of ROOTDEV bn] Some by (simp add: cached_def)
    with \<open>cached s bn b\<close> show ?thesis by blast
  next
    case None
    then have un: "\<forall>c. \<not> cached s bn c" using set by (auto simp: find_None_iff cached_def)
    then have "bn \<notin> P" using cs unfolding cache_st_def by blast
    then obtain c where "c < NBUF" "b_refcnt (bcache s c) = 0" using free_buffer [OF cs] room by blast
    then obtain b where b: "List.find (\<lambda>b. b_refcnt (bcache s b) = 0) (rev xs) = Some b"
      using set by (cases "List.find (\<lambda>b. b_refcnt (bcache s b) = 0) (rev xs)") (auto simp: find_None_iff)
    then have "b < NBUF" "b_refcnt (bcache s b) = 0" using set by (auto simp: find_Some_iff in_set_conv_nth [symmetric] rev_nth)
    moreover have "\<exists>y. bread ROOTDEV bn s = Ret b (upd_buf b (\<lambda>_. y) s) \<and> filled s P bn b y"
      using lru_scans [OF xs] None b calculation by (intro bread_fresh [OF cs _ _ un]) simp_all
    ultimately show ?thesis using un by blast
  qed
  then obtain b y where by': "b < NBUF" "cached s bn b \<or> b_refcnt (bcache s b) = 0 \<and> (\<forall>c. \<not> cached s bn c)"
      and r: "bread ROOTDEV bn s = Ret b (upd_buf b (\<lambda>_. y) s)"
      and y: "filled s P bn b y"
    by blast
  note y' = y [unfolded filled_def]
  let ?s' = "upd_buf b (\<lambda>_. y) s"
  have "cache_st ?s' P (insert bn H)" "cached ?s' bn b" "view ?s' = view s"
    "\<And>k c. k \<in> P \<union> H \<Longrightarrow> cached s k c \<Longrightarrow> cached ?s' k c"
    using bget_buffer [OF cs by' _ _ _ _ _ _ _ _ bn, of y] y' by blast+
  moreover have "bio_only s ?s'" by (rule bio_onlyI) (simp_all add: upd_buf_def same_procs_refl)
  ultimately show ?thesis by (intro returns_Ret [where m = "bread ROOTDEV bn", OF r]) simp
qed

text \<open>A buffer without its links.\<close>

definition body :: "buf \<Rightarrow> buf" where
  "body x = x\<lparr>b_next := 0, b_prev := 0\<rparr>"

lemma body_links [simp]: "body (x\<lparr>b_next := n\<rparr>) = body x" "body (x\<lparr>b_prev := n\<rparr>) = body x"
  by (simp_all add: body_def)

lemma body_eqD:
  "body x = body y \<Longrightarrow> b_dev x = b_dev y \<and> b_blockno x = b_blockno y \<and> b_refcnt x = b_refcnt y \<and> b_lock x = b_lock y \<and>
     b_valid x = b_valid y \<and> b_data x = b_data y"
  by (cases x; cases y) (simp add: body_def)

text \<open>Changing the buffer \<open>b\<close> of one cached block, and possibly the links of the others.\<close>

lemma touch:
  assumes cs: "cache_st s P H" and b: "cached s bn b" and xs: "lru s' xs"
    and rest: "\<And>c. c \<noteq> b \<Longrightarrow> body (bcache s' c) = body (bcache s c)"
    and disk: "\<And>k. k \<noteq> bn \<Longrightarrow> disk s' k = disk s k" and pid: "p_pid (myproc s') = p_pid (myproc s)"
    and PH: "P' - {bn} = P - {bn}" "H' - {bn} = H - {bn}"
    and y: "b_dev (bcache s' b) = ROOTDEV" "b_blockno (bcache s' b) = bn" "b_valid (bcache s' b)"
      "buf_ok (p_pid (myproc s)) P' H' (disk s') (bcache s' b)"
  shows "cache_st s' P' H'" "cached s' = cached s" "view s' = (view s)(bn := b_data (bcache s' b))"
proof -
  have r: "b_dev (bcache s' c) = b_dev (bcache s c) \<and> b_blockno (bcache s' c) = b_blockno (bcache s c) \<and>
      b_refcnt (bcache s' c) = b_refcnt (bcache s c) \<and> b_lock (bcache s' c) = b_lock (bcache s c) \<and>
      b_valid (bcache s' c) = b_valid (bcache s c) \<and> b_data (bcache s' c) = b_data (bcache s c)" if "c \<noteq> b" for c
    using rest [OF that] by (rule body_eqD)
  have uniq: "cached s bn' c \<Longrightarrow> cached s bn' d \<Longrightarrow> c = d" for bn' c d
    using cs unfolding cache_st_def by blast
  have c': "cached s' bn' c \<longleftrightarrow> cached s bn' c" for bn' c
    using b y r [of c] by (cases "c = b") (auto simp: cached_def)
  have mem: "k \<in> P' \<longleftrightarrow> k \<in> P" "k \<in> H' \<longleftrightarrow> k \<in> H" if "k \<noteq> bn" for k using PH that by blast+
  have "buf_ok (p_pid (myproc s')) P' H' (disk s') (bcache s' c)" if "c < NBUF" for c
  proof (cases "c = b")
    case True
    then show ?thesis using y pid by simp
  next
    case False
    then have ne: "b_dev (bcache s c) = ROOTDEV \<Longrightarrow> b_blockno (bcache s c) \<noteq> bn"
      using b uniq [of bn c b] that by (auto simp: cached_def)
    moreover have "buf_ok (p_pid (myproc s)) P H (disk s) (bcache s c)" using cs that by (simp add: cache_st_def)
    ultimately show ?thesis using r [OF False] mem disk pid by (auto simp: buf_ok_def)
  qed
  moreover have "finite (P' \<union> H')"
  proof (rule finite_subset [of _ "insert bn (P \<union> H)"])
    show "P' \<union> H' \<subseteq> insert bn (P \<union> H)" using PH by blast
    show "finite (insert bn (P \<union> H))" using cs by (simp add: cache_st_def)
  qed
  moreover have "\<exists>c. cached s bn' c" if "bn' \<in> P' \<union> H'" for bn'
    using that b mem cs unfolding cache_st_def by (cases "bn' = bn") auto
  ultimately show cs': "cache_st s' P' H'" using xs uniq unfolding cache_st_def c' by blast
  have cb: "cached s' bn b" using b c' by simp
  show "cached s' = cached s" using c' by (intro ext) simp
  show "view s' = (view s)(bn := b_data (bcache s' b))"
  proof
    fix k
    have "view s' k = view s k" if "k \<noteq> bn"
    proof (cases "\<exists>c. cached s k c \<and> b_valid (bcache s c)")
      case True
      then obtain c where c: "cached s k c" "b_valid (bcache s c)" by blast
      then have "c \<noteq> b" using that b by (auto simp: cached_def)
      then show ?thesis using c view_cached [OF cs c] view_cached [OF cs', of k c] r c' by simp
    next
      case False
      then have "\<forall>c. cached s' k c \<longrightarrow> \<not> b_valid (bcache s' c)"
        using that b c' r by (metis cached_def)
      with False that disk show ?thesis by (simp add: view_uncached)
    qed
    then show "view s' k = ((view s)(bn := b_data (bcache s' b))) k"
      using view_cached [OF cs' cb] y by simp
  qed
qed

lemma cached_held:
  assumes cs: "cache_st s P H" and b: "cached s bn b" and H: "bn \<in> H"
  shows "b_dev (bcache s b) = ROOTDEV" "b_blockno (bcache s b) = bn" "b_valid (bcache s b)"
    "b_refcnt (bcache s b) = of_bool (bn \<in> P) + 1" "b_lock (bcache s b) = \<lparr>sl_locked = True, sl_pid = p_pid (myproc s)\<rparr>"
    "holdingsleep (p_pid (myproc s)) (b_lock (bcache s b))" "b < NBUF" "b_data (bcache s b) = view s bn"
proof -
  show lt: "b < NBUF" using b by (simp add: cached_def)
  then have ok: "buf_ok (p_pid (myproc s)) P H (disk s) (bcache s b)" using cs by (simp add: cache_st_def)
  show "b_dev (bcache s b) = ROOTDEV" "b_blockno (bcache s b) = bn" using b by (simp_all add: cached_def)
  with ok H show v: "b_valid (bcache s b)" and "b_refcnt (bcache s b) = of_bool (bn \<in> P) + 1"
    "b_lock (bcache s b) = \<lparr>sl_locked = True, sl_pid = p_pid (myproc s)\<rparr>"
    by (auto simp: buf_ok_def)
  then show "holdingsleep (p_pid (myproc s)) (b_lock (bcache s b))" by (simp add: holdingsleep_def)
  show "b_data (bcache s b) = view s bn" using view_cached [OF cs b v] by simp
qed

lemma held_update:
  assumes cs: "cache_st s P H" and b: "cached s bn b" and H: "bn \<in> H"
    and s': "bcache s' = (bcache s)(b := y)"
    and y: "y = (bcache s b)\<lparr>b_refcnt := b_refcnt y, b_data := b_data y\<rparr>" "b_refcnt y = of_bool (bn \<in> P') + 1"
    and disk: "\<And>k. k \<noteq> bn \<Longrightarrow> disk s' k = disk s k" and pid: "p_pid (myproc s') = p_pid (myproc s)"
    and P: "P' - {bn} = P - {bn}"
  shows "cache_st s' P' H \<and> cached s' = cached s \<and> view s' = (view s)(bn := b_data y)"
proof -
  obtain xs where xs: "lru s xs" using cs by (auto simp: cache_st_def)
  have "b_next y = b_next (bcache s b)" "b_prev y = b_prev (bcache s b)" by (subst y(1), simp)+
  then have lru: "lru s' xs" by (intro lru_same_links [OF xs]) (auto simp: s')
  have "body (bcache s' c) = body (bcache s c)" if "c \<noteq> b" for c
    using that by (simp add: s')
  note t = touch [OF cs b lru this disk pid P refl]
  note h = cached_held [OF cs b H]
  have "b_dev y = ROOTDEV" "b_blockno y = bn" "b_valid y" "b_lock y = \<lparr>sl_locked = True, sl_pid = p_pid (myproc s)\<rparr>"
    by (subst y(1), simp add: h)+
  then show ?thesis using t H y(2) by (simp add: s' buf_ok_def)
qed

lemma bwrite_ok:
  assumes cs: "cache_st s P H" and b: "cached s bn b" and H: "bn \<in> H"
  shows "returns (bwrite b) s (\<lambda>_ s'. cache_st s' P H \<and> cached s' = cached s \<and> view s' = view s \<and>
    disk s' = (disk s)(bn := view s bn) \<and> dtrace s' = dtrace s @ [(bn, view s bn)] \<and> bio_only s s')"
proof -
  note h = cached_held [OF cs b H]
  let ?s' = "s\<lparr>disk := (disk s)(bn := view s bn), dtrace := dtrace s @ [(bn, view s bn)]\<rparr>"
  have "cache_st ?s' P H \<and> cached ?s' = cached s \<and> view ?s' = (view s)(bn := b_data (bcache s b))"
    by (rule held_update [OF cs b H]) (simp_all add: h myproc_def)
  moreover have "bwrite b s = Ret () ?s'" 
    using h(6) by (simp add: bwrite_def h(2,8) virtio_disk_rw_def kprog_simps Let_def)
  moreover have "bio_only s ?s'" by (rule bio_onlyI) (simp_all add: same_procs_refl)
  ultimately show ?thesis using h(8) by (intro returns_Ret [of _ _ "()" ?s']) simp_all
qed

lemma set_data_ok:
  assumes "cache_st s P H" "cached s bn b" "bn \<in> H" and s': "s' = upd_buf b (\<lambda>x. x\<lparr>b_data := d\<rparr>) s"
  shows "cache_st s' P H \<and> cached s' = cached s \<and> view s' = (view s)(bn := d) \<and> disk s' = disk s \<and> dtrace s' = dtrace s \<and> bio_only s s'"
proof -
  have "bio_only s s'" unfolding s' by (rule bio_onlyI) (simp_all add: upd_buf_def same_procs_refl)
  then show ?thesis using held_update [OF assms(1-3), of s' "(bcache s b)\<lparr>b_data := d\<rparr>" P]
    by (simp add: s' cached_held [OF assms(1-3)])
qed

lemma bpin_ok:
  assumes "cache_st s P H" "cached s bn b" "bn \<in> H" "bn \<notin> P"
  shows "returns (bpin b) s (\<lambda>_ s'. cache_st s' (insert bn P) H \<and> cached s' = cached s \<and> view s' = view s \<and>
    disk s' = disk s \<and> dtrace s' = dtrace s \<and> bio_only s s')"
proof -
  let ?s' = "upd_buf b (\<lambda>x. x\<lparr>b_refcnt := b_refcnt x + 1\<rparr>) s"
  have "bio_only s ?s'" by (rule bio_onlyI) (simp_all add: upd_buf_def same_procs_refl)
  then show ?thesis
    using held_update [OF assms(1-3), of ?s' "(bcache s b)\<lparr>b_refcnt := b_refcnt (bcache s b) + 1\<rparr>" "insert bn P"] assms(4)
    by (simp add: bpin_def returns_simps cached_held [OF assms(1-3)])
qed

lemma bunpin_ok:
  assumes "cache_st s P H" "cached s bn b" "bn \<in> H" "bn \<in> P"
  shows "returns (bunpin b) s (\<lambda>_ s'. cache_st s' (P - {bn}) H \<and> cached s' = cached s \<and> view s' = view s \<and>
    disk s' = disk s \<and> dtrace s' = dtrace s \<and> bio_only s s')"
proof -
  let ?s' = "upd_buf b (\<lambda>x. x\<lparr>b_refcnt := b_refcnt x - 1\<rparr>) s"
  have "bio_only s ?s'" by (rule bio_onlyI) (simp_all add: upd_buf_def same_procs_refl)
  then show ?thesis
    using held_update [OF assms(1-3), of ?s' "(bcache s b)\<lparr>b_refcnt := b_refcnt (bcache s b) - 1\<rparr>" "P - {bn}"] assms(4)
    by (simp add: bunpin_def returns_simps cached_held [OF assms(1-3)])
qed

lemma wakeup_upd_buf: "wakeup ch (upd_buf b f s) = upd_buf b f (wakeup ch s)"
  by (simp add: wakeup_def upd_buf_def cong: if_cong)

lemma link_front_frame:
  "body (bcache (link_front b (unlink_buf b s)) c) = body (bcache s c)"
  "link_front b (unlink_buf b s) = s\<lparr>bcache := bcache (link_front b (unlink_buf b s))\<rparr>"
proof -
  have "body (bcache (unlink_buf b t) c) = body (bcache t c)" for t :: "'a bio_st_scheme"
    by (simp add: unlink_buf_def Let_def)
  moreover have "body (bcache (link_front b t) c) = body (bcache t c)" for t :: "'a bio_st_scheme"
    by (simp add: link_front_def Let_def)
  ultimately show "body (bcache (link_front b (unlink_buf b s)) c) = body (bcache s c)" by simp
  show "link_front b (unlink_buf b s) = s\<lparr>bcache := bcache (link_front b (unlink_buf b s))\<rparr>"
    by (simp add: link_front_def unlink_buf_def Let_def upd_buf_def)
qed

lemma brelse_ok:
  assumes cs: "cache_st s P H" and b: "cached s bn b" and H: "bn \<in> H" and clean: "bn \<in> P \<or> view s bn = disk s bn"
  shows "returns (brelse b) s (\<lambda>_ s'. cache_st s' P (H - {bn}) \<and> cached s' = cached s \<and> view s' = view s \<and>
    disk s' = disk s \<and> dtrace s' = dtrace s \<and> bio_only s s')"
proof -
  note h = cached_held [OF cs b H]
  define y where "y = (bcache s b)\<lparr>b_lock := releasesleep (b_lock (bcache s b)), b_refcnt := b_refcnt (bcache s b) - 1\<rparr>"
  define t where "t = (wakeup (ChBuf b) s)\<lparr>bcache := (bcache s)(b := y)\<rparr>"
  define s' where "s' = (if b_refcnt y = 0 then link_front b (unlink_buf b t) else t)"
  have t: "upd_buf b (\<lambda>x. x\<lparr>b_refcnt := b_refcnt x - 1\<rparr>)
      (wakeup (ChBuf b) (upd_buf b (\<lambda>x. x\<lparr>b_lock := releasesleep (b_lock x)\<rparr>) s)) = t"
    by (simp add: t_def y_def wakeup_upd_buf upd_buf_upd_buf) (simp add: upd_buf_def)
  have bt: "bcache t b = y" by (simp add: t_def)
  have r: "brelse b s = Ret () s'"
    using h(6) unfolding brelse_def Let_def t bt s'_def by simp
  obtain xs where "lru s xs" using cs by (auto simp: cache_st_def)
  then have "lru t xs" by (rule lru_same_links) (auto simp: t_def y_def)
  then have "\<exists>xs'. lru s' xs'" using lru_link_front [of t xs b] h(7) by (auto simp: s'_def)
  then obtain xs' where lru: "lru s' xs'" ..
  have bod: "body (bcache s' c) = body (bcache t c)" for c by (simp add: s'_def link_front_frame(1))
  have s't: "s' = t\<lparr>bcache := bcache s'\<rparr>"
    using link_front_frame(2) [of b t] by (simp add: s'_def)
  have f: "disk s' = disk s" "procs s' = procs (wakeup (ChBuf b) s)" "cur s' = cur s" "dtrace s' = dtrace s"
    by (subst s't, simp add: t_def)+
  have fs: "bio_only s s'"
    by (rule bio_onlyI) (subst s't, simp add: f t_def wakeup_def, rule same_procs_wakeup [OF f(2)])
  note yb = body_eqD [OF bod [of b], unfolded t_def, simplified]
  have y: "b_dev y = ROOTDEV" "b_blockno y = bn" "b_valid y" "b_refcnt y = of_bool (bn \<in> P)" "\<not> sl_locked (b_lock y)" "b_data y = view s bn"
    using h by (simp_all add: y_def releasesleep_def)
  have ok: "buf_ok (p_pid (myproc s)) P (H - {bn}) (disk s') (bcache s' b)"
    using y yb f(1) clean by (auto simp: buf_ok_def)
  have pid: "p_pid (myproc s') = p_pid (myproc s)"
    unfolding myproc_def f by (simp add: wakeup_def)
  have "cache_st s' P (H - {bn}) \<and> cached s' = cached s \<and> view s' = (view s)(bn := b_data (bcache s' b))"
    using touch [OF cs b lru _ _ pid _ _ _ _ _ ok] bod y yb f(1) by (simp add: t_def)
  then show ?thesis using fs f y yb by (intro returns_Ret [where m = "brelse b", OF r]) simp
qed

section \<open>The empty cache\<close>

text \<open>The state of the zero-initialised \<^verbatim>\<open>bcache\<close>.\<close>

definition buf0 :: buf where
  "buf0 = \<lparr>b_valid = False, b_disk = False, b_dev = 0, b_blockno = 0, b_lock = \<lparr>sl_locked = False, sl_pid = 0\<rparr>,
     b_refcnt = 0, b_prev = 0, b_next = 0, b_data = (\<lambda>_. 0)\<rparr>"

lemma body_lock: "body x = buf0 \<Longrightarrow> body (x\<lparr>b_lock := initsleeplock\<rparr>) = buf0"
  by (cases x) (simp add: body_def buf0_def initsleeplock_def)

lemma binit_links:
  assumes "bcache s = (\<lambda>_. buf0)" "n \<le> NBUF"
  defines "t \<equiv> fold binit_step [0 ..< n] (upd_buf NBUF (\<lambda>x. x\<lparr>b_prev := NBUF, b_next := NBUF\<rparr>) s)"
  shows "lseg (nexts t) (prevs t) (NBUF # rev [0 ..< n] @ [NBUF]) \<and> (\<forall>i. body (bcache t i) = buf0) \<and> t = s\<lparr>bcache := bcache t\<rparr>"
  using assms(2) unfolding t_def
proof (induction n)
  case 0
  then show ?case by (simp add: assms(1) buf0_def body_def upd_buf_def fun_upd_def)
next
  case (Suc n)
  let ?t = "fold binit_step [0 ..< n] (upd_buf NBUF (\<lambda>x. x\<lparr>b_prev := NBUF, b_next := NBUF\<rparr>) s)"
  let ?u = "binit_step n ?t"
  have IH: "lseg (nexts ?t) (prevs ?t) (NBUF # rev [0 ..< n] @ [NBUF])" "\<And>i. body (bcache ?t i) = buf0" "?t = s\<lparr>bcache := bcache ?t\<rparr>"
    using Suc by auto
  have "n \<noteq> NBUF" using Suc.prems by simp
  then have "nexts ?u = (nexts ?t)(n := nexts ?t NBUF, NBUF := n)" "prevs ?u = (prevs ?t)(n := NBUF, nexts ?t NBUF := n)"
    by (auto simp: binit_step_def Let_def fun_eq_iff)
  moreover have "lseg ((nexts ?t)(n := nexts ?t NBUF, NBUF := n)) ((prevs ?t)(n := NBUF, nexts ?t NBUF := n)) (NBUF # n # rev [0 ..< n] @ [NBUF])"
    using IH(1) Suc.prems by (intro lseg_front) auto
  moreover have "body (bcache ?u i) = buf0" for i
    using IH(2) by (auto simp: binit_step_def Let_def body_lock)
  moreover have "?u = s\<lparr>bcache := bcache ?u\<rparr>"
    using arg_cong [OF IH(3), of "\<lambda>t. t\<lparr>bcache := bcache ?u\<rparr>"] by (simp add: binit_step_def Let_def upd_buf_def)
  ultimately show ?case by simp
qed

lemma binit_ok:
  assumes "bcache s = (\<lambda>_. buf0)"
  shows "returns binit s (\<lambda>_ s'. cache_st s' {} {} \<and> view s' = disk s \<and> disk s' = disk s \<and> dtrace s' = dtrace s \<and> bio_only s s')"
proof -
  let ?t = "fold binit_step [0 ..< NBUF] (upd_buf NBUF (\<lambda>x. x\<lparr>b_prev := NBUF, b_next := NBUF\<rparr>) s)"
  have t: "lseg (nexts ?t) (prevs ?t) (NBUF # rev [0 ..< NBUF] @ [NBUF])" "\<And>i. body (bcache ?t i) = buf0"
     "?t = s\<lparr>bcache := bcache ?t\<rparr>"
    using binit_links [OF assms order_refl] by auto
  then have lru: "lru ?t (rev [0 ..< NBUF])" by (auto simp: lru_def)
  have b: "b_dev (bcache ?t i) = 0 \<and> b_refcnt (bcache ?t i) = 0 \<and> \<not> sl_locked (b_lock (bcache ?t i))" for i
    using t(2) [of i] body_eqD [of "bcache ?t i" buf0] by (simp add: body_def buf0_def)
  then have "\<not> cached ?t k i" for k i by (simp add: cached_def)
  moreover have "buf_ok (p_pid (myproc ?t)) {} {} (disk ?t) (bcache ?t i)" for i using b [of i] by (simp add: buf_ok_def)
  moreover have f: "disk ?t = disk s" "dtrace ?t = dtrace s" "procs ?t = procs s" by (subst t(3), simp)+
  moreover have "bio_only s ?t" by (rule bio_onlyI) (subst t(3), simp add: f, rule same_procs_refl [OF f(3)])
  ultimately show ?thesis using lru
    by (auto simp: binit_def returns_simps Let_def cache_st_def view_uncached)
qed

section \<open>The interface of the cache\<close>

text \<open>
  What the clients of the cache rely on. \<open>inv s P H\<close>: the blocks \<open>P\<close> are pinned and the caller holds the blocks
  \<open>H\<close>; \<open>has s k h\<close>: \<open>h\<close> is the handle of block \<open>k\<close>; \<open>vw\<close> is what readers see, \<open>dk\<close> what the disk holds and \<open>tr\<close>
  the disk writes so far; \<open>fr\<close> relates states that agree on everything else.
\<close>

locale block_cache =
  fixes inv :: "'s \<Rightarrow> uint set \<Rightarrow> uint set \<Rightarrow> bool"
    and has :: "'s \<Rightarrow> uint \<Rightarrow> 'h \<Rightarrow> bool"
    and vw :: "'s \<Rightarrow> uint \<Rightarrow> block"
    and dk :: "'s \<Rightarrow> uint \<Rightarrow> block"
    and tr :: "'s \<Rightarrow> (uint \<times> block) list"
    and fr :: "'s \<Rightarrow> 's \<Rightarrow> bool"
    and cap :: nat
    and rd :: "uint \<Rightarrow> ('s, 'h) kprog"
    and dat :: "'h \<Rightarrow> 's \<Rightarrow> block"
    and put :: "'h \<Rightarrow> block \<Rightarrow> 's \<Rightarrow> 's"
    and wr :: "'h \<Rightarrow> ('s, unit) kprog"
    and rel :: "'h \<Rightarrow> ('s, unit) kprog"
    and pin :: "'h \<Rightarrow> ('s, unit) kprog"
    and unpin :: "'h \<Rightarrow> ('s, unit) kprog"
  assumes rd_law: "inv s P H \<Longrightarrow> k \<notin> H \<Longrightarrow> k \<in> P \<or> card (P \<union> H) < cap \<Longrightarrow>
      returns (rd k) s (\<lambda>h s'. inv s' P (insert k H) \<and> has s' k h \<and> (\<forall>j\<in>P \<union> H. \<forall>i. has s j i \<longrightarrow> has s' j i) \<and>
        vw s' = vw s \<and> dk s' = dk s \<and> tr s' = tr s \<and> fr s s')"
    and dat_law: "inv s P H \<Longrightarrow> has s k h \<Longrightarrow> k \<in> H \<Longrightarrow> dat h s = vw s k"
    and put_law: "inv s P H \<Longrightarrow> has s k h \<Longrightarrow> k \<in> H \<Longrightarrow> s' = put h d s \<Longrightarrow>
      inv s' P H \<and> has s' = has s \<and> vw s' = (vw s)(k := d) \<and> dk s' = dk s \<and> tr s' = tr s \<and> fr s s'"
    and wr_law: "inv s P H \<Longrightarrow> has s k h \<Longrightarrow> k \<in> H \<Longrightarrow>
      returns (wr h) s (\<lambda>_ s'. inv s' P H \<and> has s' = has s \<and> vw s' = vw s \<and>
        dk s' = (dk s)(k := vw s k) \<and> tr s' = tr s @ [(k, vw s k)] \<and> fr s s')"
    and rel_law: "inv s P H \<Longrightarrow> has s k h \<Longrightarrow> k \<in> H \<Longrightarrow> k \<in> P \<or> vw s k = dk s k \<Longrightarrow>
      returns (rel h) s (\<lambda>_ s'. inv s' P (H - {k}) \<and> has s' = has s \<and> vw s' = vw s \<and> dk s' = dk s \<and> tr s' = tr s \<and> fr s s')"
    and pin_law: "inv s P H \<Longrightarrow> has s k h \<Longrightarrow> k \<in> H \<Longrightarrow> k \<notin> P \<Longrightarrow>
      returns (pin h) s (\<lambda>_ s'. inv s' (insert k P) H \<and> has s' = has s \<and> vw s' = vw s \<and> dk s' = dk s \<and> tr s' = tr s \<and> fr s s')"
    and unpin_law: "inv s P H \<Longrightarrow> has s k h \<Longrightarrow> k \<in> H \<Longrightarrow> k \<in> P \<Longrightarrow>
      returns (unpin h) s (\<lambda>_ s'. inv s' (P - {k}) H \<and> has s' = has s \<and> vw s' = vw s \<and> dk s' = dk s \<and> tr s' = tr s \<and> fr s s')"
    and clean_law: "inv s P H \<Longrightarrow> k \<notin> P \<union> H \<Longrightarrow> vw s k = dk s k"
    and fr_refl: "fr s s"
    and fr_trans: "fr s s' \<Longrightarrow> fr s' s'' \<Longrightarrow> fr s s''"
begin

text \<open>Reading a block, computing from it, and letting it go.\<close>

lemma peek:
  assumes "inv s P {}" "k \<in> P \<or> card P < cap"
  shows "returns (kbind (rd k) (\<lambda>h. kbind (kget (\<lambda>s. f (dat h s))) (\<lambda>x. kthen (rel h) (kret x)))) s
    (\<lambda>x s'. x = f (vw s k) \<and> inv s' P {} \<and> vw s' = vw s \<and> dk s' = dk s \<and> tr s' = tr s \<and> fr s s')"
proof -
  have cl: "k \<in> P \<or> vw s k = dk s k" using clean_law [OF assms(1)] by blast
  show ?thesis unfolding returns_simps
  proof (rule returns_mono [OF rd_law [OF assms(1)]], goal_cases)
    case (3 h s1)
    then show ?case using dat_law [of s1 P "{k}" k h] cl
      by (intro returns_mono [OF rel_law [of s1 P "{k}" k h]]) (auto intro: fr_trans)
  qed (use assms in auto)
qed

text \<open>Changing a block in place and writing it through to the disk.\<close>

lemma overwrite:
  assumes "inv s P {}" "k \<in> P \<or> card P < cap"
  shows "returns (kbind (rd k) (\<lambda>h. kthen (kmod (\<lambda>s. put h (f (dat h s)) s)) (kthen (wr h) (rel h)))) s
    (\<lambda>_ s'. inv s' P {} \<and> vw s' = (vw s)(k := f (vw s k)) \<and> dk s' = (dk s)(k := f (vw s k)) \<and>
       tr s' = tr s @ [(k, f (vw s k))] \<and> fr s s')"
  unfolding returns_simps
proof (rule returns_mono [OF rd_law [OF assms(1)]], goal_cases)
  case (3 h s1)
  then have h: "inv s1 P {k}" "has s1 k h" and s1: "vw s1 = vw s" "dk s1 = dk s" "tr s1 = tr s" "fr s s1" by auto
  let ?d = "f (dat h s1)"
  have d: "?d = f (vw s k)" using dat_law [OF h] s1 by simp
  have p: "inv (put h ?d s1) P {k}" "has (put h ?d s1) k h" "vw (put h ?d s1) = (vw s)(k := ?d)"
    "dk (put h ?d s1) = dk s" "tr (put h ?d s1) = tr s" "fr s (put h ?d s1)"
    using put_law [OF h _ refl] h s1 by (auto intro: fr_trans)
  show ?case
  proof (rule returns_mono [OF wr_law [OF p(1,2)]], goal_cases)
    case (2 x s2)
    then show ?case using p d
      by (intro returns_mono [OF rel_law [of s2 P "{k}" k h]]) (auto intro: fr_trans)
  qed simp
qed (use assms in auto)

text \<open>Copying block \<open>src\<close> over block \<open>dst\<close> through the cache, and writing \<open>dst\<close> to the disk.\<close>

lemma transfer:
  assumes "inv s P {}" "src \<noteq> dst" "dst \<notin> P" "src \<in> P" "card P < cap"
  shows "returns (kbind (rd dst) (\<lambda>t. kbind (rd src) (\<lambda>f. kthen (kmod (\<lambda>s. put t (dat f s) s))
      (kthen (wr t) (kthen (rel f) (rel t)))))) s
    (\<lambda>_ s'. inv s' P {} \<and> vw s' = (vw s)(dst := vw s src) \<and> dk s' = (dk s)(dst := vw s src) \<and>
       tr s' = tr s @ [(dst, vw s src)] \<and> fr s s')"
  unfolding returns_simps
proof (rule returns_mono [OF rd_law [OF assms(1)]], goal_cases)
  case (3 t s1)
  then have t: "inv s1 P {dst}" "has s1 dst t" and s1: "vw s1 = vw s" "dk s1 = dk s" "tr s1 = tr s" "fr s s1" by auto
  show ?case
  proof (rule returns_mono [OF rd_law [OF t(1)]], goal_cases)
    case (3 f s2)
    then have f: "inv s2 P {src, dst}" "has s2 src f" "has s2 dst t"
      and s2: "vw s2 = vw s" "dk s2 = dk s" "tr s2 = tr s" "fr s s2" using s1 t by (auto intro: fr_trans)
    let ?s3 = "put t (dat f s2) s2"
    have d: "dat f s2 = vw s src" using dat_law [OF f(1,2)] s2 by simp
    have p: "inv ?s3 P {src, dst}" "has ?s3 = has s2" "vw ?s3 = (vw s)(dst := vw s src)" "dk ?s3 = dk s" "tr ?s3 = tr s" "fr s ?s3"
      using put_law [OF f(1,3) _ refl] s2 d by (auto intro: fr_trans)
    show ?case
    proof (rule returns_mono [OF wr_law [OF p(1), of dst t]], goal_cases)
      case (3 x s4)
      then have s4: "inv s4 P {src, dst}" "has s4 = has s2" "vw s4 = (vw s)(dst := vw s src)" "dk s4 = (dk s)(dst := vw s src)"
        "tr s4 = tr s @ [(dst, vw s src)]" "fr s s4" using p assms(2) by (auto intro: fr_trans)
      show ?case
      proof (rule returns_mono [OF rel_law [OF s4(1), of src f]], goal_cases)
        case (4 x s5)
        then show ?case using s4 f assms(2)
          by (intro returns_mono [OF rel_law [of s5 P "{dst}" dst t]]) (auto intro: fr_trans simp: insert_Diff_if)
      qed (use s4 f assms in auto)
    qed (use p f in auto)
  qed (use assms in auto)
qed (use assms in auto)

text \<open>Copying block \<open>src\<close> over block \<open>dst\<close>, writing \<open>dst\<close> to the disk and possibly unpinning it.\<close>

lemma install:
  assumes "inv s P {}" "src \<noteq> dst" "src \<notin> P" "card P < cap" "u \<longrightarrow> dst \<in> P" "\<not> u \<longrightarrow> Suc (card P) < cap"
  shows "returns (kbind (rd src) (\<lambda>f. kbind (rd dst) (\<lambda>t. kthen (kmod (\<lambda>s. put t (dat f s) s))
      (kthen (wr t) (kthen (if u then unpin t else kret ()) (kthen (rel f) (rel t))))))) s
    (\<lambda>_ s'. inv s' (if u then P - {dst} else P) {} \<and> vw s' = (vw s)(dst := vw s src) \<and> dk s' = (dk s)(dst := vw s src) \<and>
       tr s' = tr s @ [(dst, vw s src)] \<and> fr s s')"
  unfolding returns_simps
proof (rule returns_mono [OF rd_law [OF assms(1)]], goal_cases)
  case (3 f s1)
  then have t: "inv s1 P {src}" "has s1 src f" and s1: "vw s1 = vw s" "dk s1 = dk s" "tr s1 = tr s" "fr s s1" by auto
  have cl: "vw s src = dk s src" using clean_law [OF assms(1)] assms(3) by simp
  show ?case
  proof (rule returns_mono [OF rd_law [OF t(1)]], goal_cases)
    case (3 t s2)
    then have f: "inv s2 P {dst, src}" "has s2 src f" "has s2 dst t"
      and s2: "vw s2 = vw s" "dk s2 = dk s" "tr s2 = tr s" "fr s s2" using s1 t by (auto intro: fr_trans)
    let ?s3 = "put t (dat f s2) s2"
    have d: "dat f s2 = vw s src" using dat_law [OF f(1,2)] s2 by simp
    have p: "inv ?s3 P {dst, src}" "has ?s3 = has s2" "vw ?s3 = (vw s)(dst := vw s src)" "dk ?s3 = dk s" "tr ?s3 = tr s" "fr s ?s3"
      using put_law [OF f(1,3) _ refl] s2 d by (auto intro: fr_trans)
    show ?case
    proof (rule returns_mono [OF wr_law [OF p(1), of dst t]], goal_cases)
      case (3 x s4)
      then have s4: "inv s4 P {dst, src}" "has s4 = has s2" "vw s4 = (vw s)(dst := vw s src)" "dk s4 = (dk s)(dst := vw s src)"
        "tr s4 = tr s @ [(dst, vw s src)]" "fr s s4" using p assms(2) by (auto intro: fr_trans)
      have "returns (if u then unpin t else kret ()) s4 (\<lambda>_ s5. inv s5 (if u then P - {dst} else P) {dst, src} \<and> has s5 = has s4 \<and>
          vw s5 = vw s4 \<and> dk s5 = dk s4 \<and> tr s5 = tr s4 \<and> fr s4 s5)"
        using unpin_law [OF s4(1), of dst t] s4 f assms(5) by (auto simp: returns_simps intro: fr_refl)
      then show ?case
      proof (rule returns_mono, goal_cases)
        case (1 x s5)
        then show ?case
        proof (intro returns_mono [OF rel_law [of s5 "if u then P - {dst} else P" "{dst, src}" src f]], goal_cases)
          case (5 x s6)
          then show ?case using s4 f assms(2)
            by (intro returns_mono [OF rel_law [of s6 "if u then P - {dst} else P" "{dst}" dst t]]) (auto intro: fr_trans simp: insert_Diff_if)
        qed (use s4 f assms cl in auto)
      qed
    qed (use p f in auto)
  qed (use assms in \<open>auto simp: card_insert_if split: if_splits\<close>)
qed (use assms in auto)

end

interpretation bc: block_cache cache_st cached view disk dtrace bio_only NBUF "bread ROOTDEV"
  "\<lambda>b s. b_data (bcache s b)" "\<lambda>b d. upd_buf b (\<lambda>x. x\<lparr>b_data := d\<rparr>)" bwrite brelse bpin bunpin
proof
qed (rule bread_ok cached_held(8) set_data_ok bwrite_ok brelse_ok bpin_ok bunpin_ok view_clean bio_only_refl bio_only_trans; assumption)+

text \<open>
  C13. The cache is coherent. Reading a block that the caller does not hold returns, as long as one buffer is
  unreferenced or the block is pinned: the buffer handed out is locked for the caller, carries the block's number and
  holds what the last writer left, whether that is in the cache or on the disk; no other block changes for its readers and
  the disk is untouched. The buffer is the one that already caches the block, and otherwise the least recently used one
  among those with no references.
\<close>

theorem bread_coherent:
  assumes "cache_st s P H" and "bn \<notin> H" and "bn \<in> P \<or> card (P \<union> H) < NBUF" and xs: "lru s xs"
  shows "\<exists>b s'. bread ROOTDEV bn s = Ret b s' \<and> cache_st s' P (insert bn H) \<and>
     b_blockno (bcache s' b) = bn \<and> holdingsleep (p_pid (myproc s')) (b_lock (bcache s' b)) \<and>
     b_data (bcache s' b) = view s bn \<and> view s' = view s \<and> disk s' = disk s \<and>
     Some b = (case List.find (\<lambda>b. b_dev (bcache s b) = ROOTDEV \<and> b_blockno (bcache s b) = bn) xs of
        Some c \<Rightarrow> Some c | None \<Rightarrow> List.find (\<lambda>b. b_refcnt (bcache s b) = 0) (rev xs))"
proof -
  obtain b s' where r: "bread ROOTDEV bn s = Ret b s'" and c: "cache_st s' P (insert bn H)" "cached s' bn b" "view s' = view s" "disk s' = disk s"
    using bread_ok [OF assms(1-3)] by (auto simp: returns_def)
  have "Some b = (case List.find (\<lambda>b. b_dev (bcache s b) = ROOTDEV \<and> b_blockno (bcache s b) = bn) xs of
        Some c \<Rightarrow> Some c | None \<Rightarrow> List.find (\<lambda>b. b_refcnt (bcache s b) = 0) (rev xs))"
    using r by (auto simp: bread_def bget_def lru_scans [OF xs] kprog_simps kpanic_def split: option.splits outcome.splits if_splits)
  with r c show ?thesis using cached_held [OF c(1,2)] by auto
qed

text \<open>Witness: the first read after the cache was initialised recycles the buffer at the end of the list.\<close>

definition demo_bio :: bio_st where
  "demo_bio = \<lparr>mem = (\<lambda>_. 0), freelist = 0, kend = 0, procs = (\<lambda>_. undefined), cur = 0, initproc = 0, nextpid = 1,
     bcache = (\<lambda>i. buf0\<lparr>b_prev := (if i = 0 then 30 else i - 1), b_next := (if i = 30 then 0 else i + 1)\<rparr>),
     disk = (\<lambda>bn _. ucast bn), dtrace = []\<rparr>"

theorem bread_coherent_witness: "\<exists>s'. bread ROOTDEV 5 demo_bio = Ret 29 s' \<and> b_data (bcache s' 29) 0 = 5"
proof -
  have "lseg (nexts demo_bio) (prevs demo_bio) (NBUF # [0 ..< NBUF] @ [NBUF])" by (simp add: demo_bio_def upt_rec)
  then have l: "lru demo_bio [0 ..< NBUF]" by (auto simp: lru_def)
  have n: "\<not> cached demo_bio bn b" for bn b by (simp add: cached_def demo_bio_def buf0_def)
  have c: "cache_st demo_bio {} {}"
    unfolding cache_st_def using l n by (auto simp: demo_bio_def buf_ok_def buf0_def)
  have "view demo_bio 5 = disk demo_bio 5" using view_clean [OF c] by simp
  moreover have "List.find (\<lambda>b. b_dev (bcache demo_bio b) = ROOTDEV \<and> b_blockno (bcache demo_bio b) = 5) [0 ..< NBUF] = None"
    by (simp add: find_None_iff demo_bio_def buf0_def)
  moreover have "List.find (\<lambda>b. b_refcnt (bcache demo_bio b) = 0) (rev [0 ..< NBUF]) = Some 29"
    by (simp add: demo_bio_def buf0_def upt_rec)
  ultimately show ?thesis using bread_coherent [OF c _ _ l, of 5] by (auto simp: demo_bio_def)
qed

end
