(* ===== verification/Log.thy ===== *)
theory Log
  imports Bio
begin

text \<open>
  The redo log, \<^verbatim>\<open>kernel/log.c\<close>. Several system calls share one transaction; \<open>begin_op\<close> waits for log
  space, \<open>log_write\<close> records a modified block and pins it in the cache, and the last \<open>end_op\<close> commits: the
  blocks are written to the log, then the header, then their home locations. The theorems show that a commit
  is atomic: whatever prefix of its disk writes survives a crash, recovery yields the old contents or the new.
\<close>

abbreviation LOGSIZE :: nat where "LOGSIZE \<equiv> 30"
abbreviation MAXOPBLOCKS :: int where "MAXOPBLOCKS \<equiv> 10"

text \<open>The fields of \<^verbatim>\<open>struct log\<close> and of the \<^verbatim>\<open>struct logheader\<close> in it.\<close>

record log_st = bio_st +
  l_start :: uint
  l_size :: int
  l_outstanding :: int
  l_committing :: bool
  l_dev :: uint
  l_n :: int
  l_block :: "nat \<Rightarrow> uint"

section \<open>Operations\<close>

text \<open>A buffer's \<^verbatim>\<open>data\<close> is \<open>BSIZE\<close> bytes, so \<^verbatim>\<open>memmove(to->data, from->data, BSIZE)\<close> assigns the whole array.\<close>

definition install_block :: "bool \<Rightarrow> uint \<Rightarrow> uint \<Rightarrow> uint \<Rightarrow> ('z bio_st_scheme, unit) kprog" where
  "install_block recovering dev lb db =
     kbind (bread dev lb) (\<lambda>lbuf.
     kbind (bread dev db) (\<lambda>dbuf.
     kthen (kmod (\<lambda>s. upd_buf dbuf (\<lambda>x. x\<lparr>b_data := b_data (bcache s lbuf)\<rparr>) s))
    (kthen (bwrite dbuf)
    (kthen (if \<not> recovering then bunpin dbuf else kret ())
    (kthen (brelse lbuf) (brelse dbuf))))))"

definition install_trans_step :: "bool \<Rightarrow> nat \<Rightarrow> ('z log_st_scheme, unit) kprog" where
  "install_trans_step recovering tail =
     (\<lambda>s. install_block recovering (l_dev s) (l_start s + of_nat tail + 1) (l_block s tail) s)"

definition install_trans :: "bool \<Rightarrow> ('z log_st_scheme, unit) kprog" where
  "install_trans recovering = (\<lambda>s. kfor [0 ..< nat (l_n s)] (install_trans_step recovering) s)"

text \<open>The on-disk header: the count and the block numbers, as 32-bit integers.\<close>

definition read_head :: "('z log_st_scheme, unit) kprog" where
  "read_head = (\<lambda>s.
     kbind (bread (l_dev s) (l_start s)) (\<lambda>buf.
     kbind (kget (\<lambda>s. b_data (bcache s buf))) (\<lambda>lh.
     kthen (kmod (\<lambda>s. s\<lparr>l_n := sint (get32 lh 0),
                        l_block := (\<lambda>i. if i < nat (sint (get32 lh 0)) then get32 lh (4 + 4 * i) else l_block s i)\<rparr>))
           (brelse buf))) s)"

definition header_bytes :: "int \<Rightarrow> (nat \<Rightarrow> uint) \<Rightarrow> block \<Rightarrow> block" where
  "header_bytes n bs d = fold (\<lambda>i. put32 (4 + 4 * i) (bs i)) [0 ..< nat n] (put32 0 (word_of_int n) d)"

definition write_head :: "('z log_st_scheme, unit) kprog" where
  "write_head = (\<lambda>s.
     kbind (bread (l_dev s) (l_start s)) (\<lambda>buf.
     kthen (kmod (\<lambda>t. upd_buf buf (\<lambda>x. x\<lparr>b_data := header_bytes (l_n s) (l_block s) (b_data (bcache t buf))\<rparr>) t))
    (kthen (bwrite buf) (brelse buf))) s)"

definition recover_from_log :: "('z log_st_scheme, unit) kprog" where
  "recover_from_log =
     kthen read_head (kthen (install_trans True) (kthen (kmod (\<lambda>s. s\<lparr>l_n := 0\<rparr>)) write_head))"

definition initlog :: "uint \<Rightarrow> uint \<Rightarrow> uint \<Rightarrow> ('z log_st_scheme, unit) kprog" where
  "initlog dev logstart nlog =
     (if 4 + 4 * LOGSIZE \<ge> BSIZE then kpanic ''initlog: too big logheader''
      else kthen (kmod (\<lambda>s. s\<lparr>l_start := logstart, l_size := sint nlog, l_dev := dev\<rparr>)) recover_from_log)"

text \<open>Both waits of \<open>begin_op\<close> sleep on the log and test again from the top.\<close>

definition begin_op :: "('z log_st_scheme, unit) kprog" where
  "begin_op = (\<lambda>s.
     if l_committing s then Block
     else if l_n s + (l_outstanding s + 1) * MAXOPBLOCKS > int LOGSIZE then Block
     else Ret () (s\<lparr>l_outstanding := l_outstanding s + 1\<rparr>))"

definition log_block :: "uint \<Rightarrow> uint \<Rightarrow> uint \<Rightarrow> ('z bio_st_scheme, unit) kprog" where
  "log_block dev lb hb =
     kbind (bread dev lb) (\<lambda>to.
     kbind (bread dev hb) (\<lambda>from.
     kthen (kmod (\<lambda>s. upd_buf to (\<lambda>x. x\<lparr>b_data := b_data (bcache s from)\<rparr>) s))
    (kthen (bwrite to) (kthen (brelse from) (brelse to)))))"

definition write_log_step :: "nat \<Rightarrow> ('z log_st_scheme, unit) kprog" where
  "write_log_step tail = (\<lambda>s. log_block (l_dev s) (l_start s + of_nat tail + 1) (l_block s tail) s)"

definition write_log :: "('z log_st_scheme, unit) kprog" where
  "write_log = (\<lambda>s. kfor [0 ..< nat (l_n s)] write_log_step s)"

definition commit :: "('z log_st_scheme, unit) kprog" where
  "commit = (\<lambda>s.
     if l_n s > 0 then
       kthen write_log (kthen write_head (kthen (install_trans False)
         (kthen (kmod (\<lambda>s. s\<lparr>l_n := 0\<rparr>)) write_head))) s
     else Ret () s)"

definition end_op :: "('z log_st_scheme, unit) kprog" where
  "end_op = (\<lambda>s.
     let s = s\<lparr>l_outstanding := l_outstanding s - 1\<rparr> in
     if l_committing s then Panic ''log.committing''
     else if l_outstanding s = 0 then
       kthen (kmod (\<lambda>s. s\<lparr>l_committing := True\<rparr>))
         (kthen commit (kmod (\<lambda>s. wakeup ChLog (s\<lparr>l_committing := False\<rparr>)))) s
     else Ret () (wakeup ChLog s))"

text \<open>The search of \<^verbatim>\<open>log_write\<close>: the first slot with the block's number, or \<open>n\<close>.\<close>

definition log_slot :: "int \<Rightarrow> (nat \<Rightarrow> uint) \<Rightarrow> uint \<Rightarrow> nat" where
  "log_slot n bs bn = (case List.find (\<lambda>i. bs i = bn) [0 ..< nat n] of Some i \<Rightarrow> i | None \<Rightarrow> nat n)"

definition log_write :: "nat \<Rightarrow> ('z log_st_scheme, unit) kprog" where
  "log_write b = (\<lambda>s.
     if l_n s \<ge> int LOGSIZE \<or> l_n s \<ge> l_size s - 1 then Panic ''too big a transaction''
     else if l_outstanding s < 1 then Panic ''log_write outside of trans''
     else
       let bn = b_blockno (bcache s b); i = log_slot (l_n s) (l_block s) bn;
           s = s\<lparr>l_block := (l_block s)(i := bn)\<rparr>
       in if int i = l_n s then kthen (bpin b) (kmod (\<lambda>s. s\<lparr>l_n := l_n s + 1\<rparr>)) s else Ret () s)"

section \<open>Sequences of block writes\<close>

definition wr_all :: "(uint \<Rightarrow> block) \<Rightarrow> (uint \<times> block) list \<Rightarrow> uint \<Rightarrow> block" where
  "wr_all d T = fold (\<lambda>(k, v) d. d(k := v)) T d"

lemma wr_all_simps [simp]:
  "wr_all d [] = d" "wr_all d ((k, v) # T) = wr_all (d(k := v)) T" "wr_all d (T @ U) = wr_all (wr_all d T) U"
  by (simp_all add: wr_all_def)

lemma wr_all_other: "k \<notin> fst ` set T \<Longrightarrow> wr_all d T k = d k"
  by (induction T rule: rev_induct) auto

lemma wr_all_in:
  assumes "distinct (map fst T)" "(k, v) \<in> set T"
  shows "wr_all d T k = v"
  using assms by (induction T rule: rev_induct) (auto simp: image_iff split: if_splits)

lemma wr_all_map_upt [simp]: "wr_all d (map f [0 ..< Suc n]) = (wr_all d (map f [0 ..< n]))(fst (f n) := snd (f n))"
  by (cases "f n") simp

section \<open>The header\<close>

lemma get32_put32 [simp]: "get32 (put32 k v d) k = v"
  by (rule le_get_put) simp

lemma header_get:
  assumes "m \<le> nat n"
  shows "get32 (fold (\<lambda>i. put32 (4 + 4 * i) (bs i)) [0 ..< m] (put32 0 (word_of_int n) d)) 0 = word_of_int n \<and>
    (\<forall>i<m. get32 (fold (\<lambda>i. put32 (4 + 4 * i) (bs i)) [0 ..< m] (put32 0 (word_of_int n) d)) (4 + 4 * i) = bs i)"
  using assms
proof (induction m)
  case (Suc m)
  then show ?case by (auto simp: le_get_put_other less_Suc_eq)
qed simp

lemma header_bytes_get:
  "get32 (header_bytes n bs d) 0 = word_of_int n" "i < nat n \<Longrightarrow> get32 (header_bytes n bs d) (4 + 4 * i) = bs i"
  using header_get [of "nat n" n bs d] by (auto simp: header_bytes_def)

section \<open>Committing\<close>

lemma bio_only_log:
  assumes "bio_only s s'"
  shows "l_start s' = l_start s" "l_size s' = l_size s" "l_outstanding s' = l_outstanding s" "l_committing s' = l_committing s"
    "l_dev s' = l_dev s" "l_n s' = l_n s" "l_block s' = l_block s" "log_st.more s' = log_st.more s"
  using assms by (auto simp: bio_only_def)

text \<open>Everything but the cache, the disk, the scheduling states and the list of logged blocks.\<close>

definition log_only :: "'z log_st_scheme \<Rightarrow> 'z log_st_scheme \<Rightarrow> bool" where
  "log_only s s' \<longleftrightarrow> same_procs s s' \<and> mem s' = mem s \<and> freelist s' = freelist s \<and> kend s' = kend s \<and> cur s' = cur s \<and>
     nextpid s' = nextpid s \<and> initproc s' = initproc s \<and> l_start s' = l_start s \<and> l_size s' = l_size s \<and>
     l_outstanding s' = l_outstanding s \<and> l_committing s' = l_committing s \<and> l_dev s' = l_dev s \<and> log_st.more s' = log_st.more s"

lemma log_only_refl [simp, intro]: "log_only s s"
  by (simp add: log_only_def same_procs_refl)

lemma log_only_trans [trans]: "log_only s s' \<Longrightarrow> log_only s' s'' \<Longrightarrow> log_only s s''"
  unfolding log_only_def using same_procs_trans by (metis (no_types, lifting))

lemma bio_only_log_only: "bio_only s s' \<Longrightarrow> log_only s s'"
  using bio_only_fields [of s s'] bio_only_log [of s s'] by (simp add: log_only_def) (simp add: bio_only_def)

lemma log_only_upd [simp]: "log_only s (t\<lparr>l_n := n\<rparr>) = log_only s t"
  by (simp add: log_only_def same_procs_def)

text \<open>The blocks of the log: the header, and the place of the logged block \<open>i\<close>.\<close>

definition log_blk :: "uint \<Rightarrow> nat \<Rightarrow> uint" where
  "log_blk st i = st + of_nat i + 1"

definition log_region :: "uint \<Rightarrow> uint set" where
  "log_region st = insert st (log_blk st ` {..<29})"

lemma of_nat_eq_32: "i < 2 ^ 32 \<Longrightarrow> j < 2 ^ 32 \<Longrightarrow> (of_nat i :: uint) = of_nat j \<longleftrightarrow> i = j"
  by (metis unat_of_nat_32)

lemma log_blk_inj: "i < 29 \<Longrightarrow> j < 29 \<Longrightarrow> log_blk st i = log_blk st j \<longleftrightarrow> i = j"
  by (simp add: log_blk_def of_nat_eq_32)

lemma log_blk_start: "i < 29 \<Longrightarrow> log_blk st i \<noteq> st"
  using of_nat_eq_32 [of "Suc i" 0] by (simp add: log_blk_def add.commute)

text \<open>The log in memory holds the distinct block numbers \<open>bs\<close>, none of them in the log itself.\<close>

definition log_ok :: "'z log_st_scheme \<Rightarrow> uint list \<Rightarrow> bool" where
  "log_ok s bs \<longleftrightarrow> l_dev s = ROOTDEV \<and> l_n s = int (length bs) \<and> (\<forall>i<length bs. l_block s i = bs ! i) \<and>
     distinct bs \<and> length bs \<le> 29 \<and> set bs \<inter> log_region (l_start s) = {}"

lemma log_ok_blk:
  assumes "log_ok s bs" "i < length bs"
  shows "log_blk (l_start s) i \<notin> set bs" "l_start s \<notin> set bs" "i < 29"
  using assms by (auto simp: log_ok_def log_region_def)

lemma log_ok_frame: "bio_only s s' \<Longrightarrow> log_ok s' bs = log_ok s bs"
  by (simp add: log_ok_def bio_only_log)

definition log_writes :: "'z log_st_scheme \<Rightarrow> uint list \<Rightarrow> nat \<Rightarrow> (uint \<times> block) list" where
  "log_writes s bs m = map (\<lambda>i. (log_blk (l_start s) i, view s (bs ! i))) [0 ..< m]"

definition home_writes :: "uint \<Rightarrow> (uint \<Rightarrow> block) \<Rightarrow> uint list \<Rightarrow> nat \<Rightarrow> (uint \<times> block) list" where
  "home_writes st v bs m = map (\<lambda>i. (bs ! i, v (log_blk st i))) [0 ..< m]"

lemma home_writes_Suc: "home_writes st v bs (Suc m) = home_writes st v bs m @ [(bs ! m, v (log_blk st m))]"
  by (simp add: home_writes_def)

lemma log_writes_Suc: "log_writes s bs (Suc m) = log_writes s bs m @ [(log_blk (l_start s) m, view s (bs ! m))]"
  by (simp add: log_writes_def)

lemma write_log_ok:
  assumes l: "log_ok s bs" and cs: "cache_st s (set bs) {}"
  defines "T \<equiv> log_writes s bs (length bs)"
  shows "returns write_log s (\<lambda>_ s'. cache_st s' (set bs) {} \<and> bio_only s s' \<and>
    view s' = wr_all (view s) T \<and> disk s' = wr_all (disk s) T \<and> dtrace s' = dtrace s @ T)"
proof -
  let ?I = "\<lambda>i s'. cache_st s' (set bs) {} \<and> bio_only s s' \<and>
    view s' = wr_all (view s) (log_writes s bs i) \<and> disk s' = wr_all (disk s) (log_writes s bs i) \<and> dtrace s' = dtrace s @ log_writes s bs i"
  have "card (set bs) < NBUF" using l by (simp add: log_ok_def distinct_card)
  have step: "returns (write_log_step i) t (\<lambda>_. ?I (Suc i))" if "i < length bs" "?I i t" for i t
  proof -
    note b = log_ok_blk [OF l that(1)]
    have t: "l_dev t = ROOTDEV" "l_start t = l_start s" "l_block t i = bs ! i"
      using that l by (auto simp: log_ok_def bio_only_log)
    have eq: "log_blk (l_start s) i \<noteq> bs ! i" using b(1) that(1) by (metis nth_mem)
    have v: "view t (bs ! i) = view s (bs ! i)"
      using that log_ok_blk(1) [OF l] by (auto simp: log_writes_def intro!: wr_all_other) (metis nth_mem less_trans)
    have "returns (log_block ROOTDEV (log_blk (l_start s) i) (bs ! i)) t (\<lambda>_. ?I (Suc i))"
      unfolding log_block_def
    proof (rule returns_mono [OF bc.transfer [of t "set bs" "bs ! i" "log_blk (l_start s) i"]])
      show "cache_st t (set bs) {}" using that by blast
    qed (use that b eq v \<open>card (set bs) < NBUF\<close> in \<open>auto simp: log_writes_Suc intro: bio_only_trans\<close>)
    then show ?thesis unfolding returns_def write_log_step_def by (simp add: t log_blk_def)
  qed
  have "nat (l_n s) = length bs" using l by (simp add: log_ok_def)
  moreover have "returns (kfor [0 ..< length bs] write_log_step) s (\<lambda>_. ?I (length bs))"
  proof (rule returns_kfor_upt)
    show "?I 0 s" using cs by (simp add: log_writes_def)
  qed (use step in blast)+
  ultimately show ?thesis unfolding T_def by (intro returns_eq [OF fun_cong [OF write_log_def]]) simp
qed

lemma install_trans_ok:
  assumes l: "log_ok s bs" and cs: "cache_st s (if recovering then {} else set bs) {}"
  defines "T \<equiv> home_writes (l_start s) (view s) bs (length bs)"
  shows "returns (install_trans recovering) s (\<lambda>_ s'. cache_st s' {} {} \<and> bio_only s s' \<and>
    view s' = wr_all (view s) T \<and> disk s' = wr_all (disk s) T \<and> dtrace s' = dtrace s @ T)"
proof -
  let ?P = "\<lambda>i. if recovering then {} else set (drop i bs)"
  let ?W = "home_writes (l_start s) (view s) bs"
  let ?I = "\<lambda>i s'. cache_st s' (?P i) {} \<and> bio_only s s' \<and>
    view s' = wr_all (view s) (?W i) \<and> disk s' = wr_all (disk s) (?W i) \<and> dtrace s' = dtrace s @ ?W i"
  have step: "returns (install_trans_step recovering i) t (\<lambda>_. ?I (Suc i))" if i: "i < length bs" and I: "?I i t" for i t
  proof -
    note b = log_ok_blk [OF l i]
    have t: "l_dev t = ROOTDEV" "l_start t = l_start s" "l_block t i = bs ! i"
      using that l by (auto simp: log_ok_def bio_only_log)
    have eq: "log_blk (l_start s) i \<noteq> bs ! i" using b(1) i by (metis nth_mem)
    have v: "view t (log_blk (l_start s) i) = view s (log_blk (l_start s) i)"
      using I b(1) i by (auto simp: home_writes_def intro!: wr_all_other)
    have d: "drop i bs = bs ! i # drop (Suc i) bs" using i by (simp add: Cons_nth_drop_Suc)
    have di: "distinct (drop i bs)" using l by (simp add: log_ok_def)
    have P: "?P (Suc i) = (if \<not> recovering then ?P i - {bs ! i} else ?P i)" using d di by auto
    have c: "card (?P i) < NBUF" "recovering \<longrightarrow> Suc (card (?P i)) < NBUF"
      using di l by (auto simp: distinct_card log_ok_def)
    have np: "log_blk (l_start s) i \<notin> ?P i" using b(1) set_drop_subset [of i bs] by auto
    have mi: "\<not> recovering \<longrightarrow> bs ! i \<in> ?P i" using d by simp
    have "returns (install_block recovering ROOTDEV (log_blk (l_start s) i) (bs ! i)) t (\<lambda>_. ?I (Suc i))"
      unfolding install_block_def
    proof (rule returns_mono [OF bc.install [of t "?P i" "log_blk (l_start s) i" "bs ! i" "\<not> recovering"]])
      show "cache_st t (?P i) {}" using I by blast
    qed (use I np eq v c mi P in \<open>auto simp: home_writes_Suc intro: bio_only_trans\<close>)
    then show ?thesis unfolding returns_def install_trans_step_def by (simp add: t log_blk_def)
  qed
  have "nat (l_n s) = length bs" using l by (simp add: log_ok_def)
  moreover have "returns (kfor [0 ..< length bs] (install_trans_step recovering)) s (\<lambda>_. ?I (length bs))"
  proof (rule returns_kfor_upt)
    show "?I 0 s" using cs by (simp add: home_writes_def split: if_splits)
  qed (use step in blast)+
  moreover have "?P (length bs) = {}" by simp
  ultimately show ?thesis unfolding T_def returns_def install_trans_def by simp
qed

lemma write_head_ok:
  assumes cs: "cache_st s P {}" and "l_dev s = ROOTDEV" "l_start s \<in> P \<or> card P < NBUF"
  defines "h \<equiv> header_bytes (l_n s) (l_block s) (view s (l_start s))"
  shows "returns write_head s (\<lambda>_ s'. cache_st s' P {} \<and> bio_only s s' \<and>
    view s' = (view s)(l_start s := h) \<and> disk s' = (disk s)(l_start s := h) \<and> dtrace s' = dtrace s @ [(l_start s, h)])"
proof -
  have "returns (kbind (bread ROOTDEV (l_start s)) (\<lambda>buf.
     kthen (kmod (\<lambda>t. upd_buf buf (\<lambda>x. x\<lparr>b_data := header_bytes (l_n s) (l_block s) (b_data (bcache t buf))\<rparr>) t))
    (kthen (bwrite buf) (brelse buf)))) s (\<lambda>_ s'. cache_st s' P {} \<and> bio_only s s' \<and>
    view s' = (view s)(l_start s := h) \<and> disk s' = (disk s)(l_start s := h) \<and> dtrace s' = dtrace s @ [(l_start s, h)])"
    by (rule returns_mono [OF bc.overwrite [OF cs assms(3)]]) (simp add: h_def)
  then show ?thesis using assms(2) unfolding returns_def write_head_def by simp
qed

lemma cache_st_cong:
  "cache_st s P H \<Longrightarrow> bcache s' = bcache s \<Longrightarrow> disk s' = disk s \<Longrightarrow> p_pid (myproc s') = p_pid (myproc s) \<Longrightarrow> cache_st s' P H"
  by (simp add: cache_st_def lru_def cached_def)

lemma cached_cong: "bcache s' = bcache s \<Longrightarrow> cached s' = cached s"
  by (intro ext) (simp add: cached_def)

lemma view_cong: "bcache s' = bcache s \<Longrightarrow> disk s' = disk s \<Longrightarrow> view s' = view s"
  by (intro ext) (simp add: view_def cached_def split: option.split)

lemma read_head_ok:
  assumes cs: "cache_st s {} {}" and dev: "l_dev s = ROOTDEV"
  defines "h \<equiv> view s (l_start s)"
  shows "returns read_head s (\<lambda>_ s'. cache_st s' {} {} \<and> view s' = view s \<and> disk s' = disk s \<and> dtrace s' = dtrace s \<and>
    l_n s' = sint (get32 h 0) \<and> (\<forall>i<nat (l_n s'). l_block s' i = get32 h (4 + 4 * i)) \<and> l_dev s' = ROOTDEV \<and> l_start s' = l_start s)"
proof -
  let ?upd = "\<lambda>lh s. s\<lparr>l_n := sint (get32 lh 0),
     l_block := (\<lambda>i. if i < nat (sint (get32 lh 0)) then get32 lh (4 + 4 * i) else l_block s i)\<rparr>"
  have "returns (kbind (bread ROOTDEV (l_start s)) (\<lambda>buf. kbind (kget (\<lambda>s. b_data (bcache s buf))) (\<lambda>lh.
     kthen (kmod (?upd lh)) (brelse buf)))) s (\<lambda>_ s'. cache_st s' {} {} \<and> view s' = view s \<and> disk s' = disk s \<and> dtrace s' = dtrace s \<and>
    l_n s' = sint (get32 h 0) \<and> (\<forall>i<nat (l_n s'). l_block s' i = get32 h (4 + 4 * i)) \<and> l_dev s' = ROOTDEV \<and> l_start s' = l_start s)"
    unfolding returns_simps
  proof (rule returns_mono [OF bread_ok [OF cs]], goal_cases)
    case (3 buf s1)
    have d: "b_data (bcache s1 buf) = h" using 3 cached_held(8) [of s1 "{}" "{l_start s}" "l_start s" buf] by (simp add: h_def)
    let ?s2 = "?upd h s1"
    have c2: "cache_st ?s2 {} {l_start s}" by (rule cache_st_cong [of s1]) (use 3 in \<open>simp_all add: myproc_def\<close>)
    have v2: "view ?s2 = view s" using 3 view_cong [of ?s2 s1] by simp
    have "view s (l_start s) = disk s (l_start s)" using view_clean [OF cs] by simp
    moreover have "cached ?s2 (l_start s) buf" using 3 by (simp add: cached_def)
    ultimately show ?case unfolding d
      using 3 v2 dev by (intro returns_mono [OF brelse_ok [OF c2]]) (auto simp: bio_only_log)
  qed simp_all
  then show ?thesis using dev unfolding returns_def read_head_def by simp
qed

text \<open>The whole sequence of disk writes of a commit.\<close>

definition commit_writes :: "'z log_st_scheme \<Rightarrow> uint list \<Rightarrow> (uint \<times> block) list" where
  "commit_writes s bs =
     log_writes s bs (length bs) @
     [(l_start s, header_bytes (int (length bs)) (l_block s) (view s (l_start s)))] @
     map (\<lambda>b. (b, view s b)) bs @
     [(l_start s, header_bytes 0 (l_block s) (header_bytes (int (length bs)) (l_block s) (view s (l_start s))))]"

lemma log_writes_lookup:
  assumes "log_ok s bs" "i < length bs"
  shows "wr_all d (log_writes s bs (length bs)) (log_blk (l_start s) i) = view s (bs ! i)"
proof (rule wr_all_in)
  show "distinct (map fst (log_writes s bs (length bs)))"
    using assms(1) by (auto simp: log_writes_def distinct_map inj_on_def log_blk_inj log_ok_def comp_def)
qed (use assms(2) in \<open>auto simp: log_writes_def\<close>)

lemma commit_ok:
  assumes l: "log_ok s bs" and cs: "cache_st s (set bs) {}" and ne: "bs \<noteq> []"
  defines "T \<equiv> commit_writes s bs"
  shows "returns commit s (\<lambda>_ s'. cache_st s' {} {} \<and> log_ok s' [] \<and> l_start s' = l_start s \<and>
    view s' = wr_all (view s) T \<and> disk s' = wr_all (disk s) T \<and> dtrace s' = dtrace s @ T \<and> log_only s s')"
proof -
  have n: "l_n s > 0" "nat (l_n s) = length bs" "l_n s = int (length bs)" using l ne by (auto simp: log_ok_def)
  have card: "card (set bs) < NBUF" using l by (simp add: log_ok_def distinct_card)
  have dev: "l_dev s = ROOTDEV" using l by (simp add: log_ok_def)
  let ?L = "log_writes s bs (length bs)"
  let ?h = "header_bytes (int (length bs)) (l_block s) (view s (l_start s))"
  define X where "X = ?L @ [(l_start s, ?h)] @ map (\<lambda>b. (b, view s b)) bs"
  have T: "T = X @ [(l_start s, header_bytes 0 (l_block s) ?h)]" by (simp add: T_def commit_writes_def X_def)
  have start: "wr_all d ?L (l_start s) = d (l_start s)" for d
    using l log_blk_start [THEN not_sym] by (auto simp: log_writes_def log_ok_def intro!: wr_all_other)
  have "returns (kthen write_log (kthen write_head (kthen (install_trans False)
         (kthen (kmod (\<lambda>s. s\<lparr>l_n := 0\<rparr>)) write_head)))) s (\<lambda>_ s'. cache_st s' {} {} \<and> log_ok s' [] \<and> l_start s' = l_start s \<and>
    view s' = wr_all (view s) T \<and> disk s' = wr_all (disk s) T \<and> dtrace s' = dtrace s @ T \<and> log_only s s')"
    unfolding returns_simps
  proof (rule returns_mono [OF write_log_ok [OF l cs]], goal_cases)
    case (1 x s1)
    then have b1: "bio_only s s1" and s1: "l_start s1 = l_start s" "l_dev s1 = ROOTDEV" "l_n s1 = int (length bs)" "l_block s1 = l_block s"
      using dev n by (auto simp: bio_only_log)
    show ?case
    proof (rule returns_mono [OF write_head_ok [of s1 "set bs"]], goal_cases)
      case (4 x s2)
      then have b2: "bio_only s s2" using b1 bio_only_trans by blast
      have v2: "view s2 = (wr_all (view s) ?L)(l_start s := ?h)" "disk s2 = (wr_all (disk s) ?L)(l_start s := ?h)"
        using 4 1 s1 start by simp_all
      have lb: "view s2 (log_blk (l_start s) i) = view s (bs ! i)" if "i < length bs" for i
        using v2 log_blk_start log_ok_blk(3) [OF l that] by (simp add: log_writes_lookup [OF l that])
      have hw: "home_writes (l_start s2) (view s2) bs (length bs) = map (\<lambda>b. (b, view s b)) bs"
        by (rule nth_equalityI) (simp_all add: home_writes_def bio_only_log(1) [OF b2] lb)
      show ?case
      proof (rule returns_mono [OF install_trans_ok [of s2 bs False]], goal_cases)
        case (3 x s3)
        let ?s3 = "s3\<lparr>l_n := 0\<rparr>"
        have b3: "bio_only s s3" using 3 b2 bio_only_trans by blast
        have c3: "cache_st ?s3 {} {}" by (rule cache_st_cong [of s3]) (use 3 in \<open>simp_all add: myproc_def\<close>)
        have v3: "view ?s3 = view s3" by (rule view_cong) simp_all
        have f3: "l_start ?s3 = l_start s" "l_dev ?s3 = ROOTDEV" "l_n ?s3 = 0" "l_block ?s3 = l_block s"
          using b3 dev by (simp_all add: bio_only_log)
        have vs: "view s3 (l_start s) = ?h"
          using 3 hw v2 l by (auto simp: log_ok_def log_region_def intro!: trans [OF wr_all_other])
        have s3: "view s3 = wr_all (view s) X" "disk s3 = wr_all (disk s) X" "dtrace s3 = dtrace s @ X"
          using 3 4 1 hw v2 s1 start by (simp_all add: X_def)
        show ?case
        proof (rule returns_mono [OF write_head_ok [OF c3]], goal_cases)
          case (3 x s4)
          then have "l_start s4 = l_start s" "l_dev s4 = ROOTDEV" "l_n s4 = 0"
            using bio_only_log [of ?s3 s4] f3 by simp_all
          moreover have "log_only s s4"
            using 3 bio_only_log_only [of ?s3 s4] bio_only_log_only [OF b3] log_only_trans [of s ?s3 s4] by simp
          ultimately show ?case using 3 unfolding f3 v3 vs T by (simp add: s3 log_ok_def)
        qed (simp_all add: f3)
      qed (use 4 b2 l in \<open>auto simp: log_ok_frame\<close>)
    qed (use 1 s1 card in auto)
  qed
  then show ?thesis using n unfolding returns_def commit_def by simp
qed

section \<open>Recovery\<close>

text \<open>The header block \<open>h\<close> records the block numbers \<open>bs\<close>.\<close>

definition logged :: "block \<Rightarrow> uint list \<Rightarrow> bool" where
  "logged h bs \<longleftrightarrow> sint (get32 h 0) = int (length bs) \<and> (\<forall>i<length bs. get32 h (4 + 4 * i) = bs ! i)"

lemma sint_of_nat_32: "n < 2 ^ 31 \<Longrightarrow> sint (of_nat n :: uint) = int n"
  by (simp add: signed_of_nat signed_take_bit_int_eq_self)

lemma logged_header:
  assumes "log_ok s bs"
  shows "logged (header_bytes (int (length bs)) (l_block s) d) bs" "logged (header_bytes 0 f d) []"
  using assms by (auto simp: logged_def log_ok_def header_bytes_get sint_of_nat_32)

lemma recover_ok:
  assumes cs: "cache_st s {} {}" and dev: "l_dev s = ROOTDEV" and h: "logged (view s (l_start s)) bs"
    and bs: "distinct bs" "length bs \<le> 29" "set bs \<inter> log_region (l_start s) = {}"
  shows "returns recover_from_log s (\<lambda>_ s'. cache_st s' {} {} \<and> log_ok s' [] \<and> l_start s' = l_start s \<and> logged (view s' (l_start s)) [] \<and>
    (\<forall>k. k \<noteq> l_start s \<longrightarrow> view s' k = wr_all (view s) (home_writes (l_start s) (view s) bs (length bs)) k))"
  unfolding recover_from_log_def returns_simps
proof (rule returns_mono [OF read_head_ok [OF cs dev]], goal_cases)
  case (1 x s1)
  then have l1: "log_ok s1 bs" and st: "l_start s1 = l_start s" and v1: "view s1 = view s"
    using h bs by (simp_all add: log_ok_def logged_def)
  have c1: "cache_st s1 (if True then {} else set bs) {}" using 1 by simp
  show ?case
  proof (rule returns_mono [OF install_trans_ok [OF l1 c1]], goal_cases)
    case (1 y s2)
    let ?s3 = "s2\<lparr>l_n := 0\<rparr>"
    have c3: "cache_st ?s3 {} {}" by (rule cache_st_cong [of s2]) (use 1 in \<open>simp_all add: myproc_def\<close>)
    have v3: "view ?s3 = view s2" by (rule view_cong) simp_all
    have f3: "l_start ?s3 = l_start s" "l_dev ?s3 = ROOTDEV" "l_n ?s3 = 0"
      using 1 bio_only_log [of s1 s2] l1 st by (simp_all add: log_ok_def)
    show ?case
    proof (rule returns_mono [OF write_head_ok [OF c3]], goal_cases)
      case (3 z s4)
      then have "l_start s4 = l_start s" "l_dev s4 = ROOTDEV" "l_n s4 = 0"
        using bio_only_log [of ?s3 s4] f3 by simp_all
      with 3 1 st v1 show ?case unfolding f3 v3 by (simp add: log_ok_def logged_header(2) [OF l1])
    qed (simp_all add: f3)
  qed
qed

text \<open>Starting the machine: an empty cache, then recovery.\<close>

lemma boot_recover:
  assumes "bcache r = (\<lambda>_. buf0)" "logged (disk r st) bs" "distinct bs" "length bs \<le> 29" "set bs \<inter> log_region st = {}"
  shows "returns (kthen binit (initlog ROOTDEV st nlog)) r (\<lambda>_ r'. cache_st r' {} {} \<and> log_ok r' [] \<and> l_start r' = st \<and>
    logged (disk r' st) [] \<and> view r' = disk r' \<and>
    (\<forall>k. k \<noteq> st \<longrightarrow> view r' k = wr_all (disk r) (home_writes st (disk r) bs (length bs)) k))"
proof -
  have "returns (kthen binit (kthen (kmod (\<lambda>s. s\<lparr>l_start := st, l_size := sint nlog, l_dev := ROOTDEV\<rparr>)) recover_from_log)) r
    (\<lambda>_ r'. cache_st r' {} {} \<and> log_ok r' [] \<and> l_start r' = st \<and>
    logged (disk r' st) [] \<and> view r' = disk r' \<and>
    (\<forall>k. k \<noteq> st \<longrightarrow> view r' k = wr_all (disk r) (home_writes st (disk r) bs (length bs)) k))"
    unfolding returns_simps
  proof (rule returns_mono [OF binit_ok [OF assms(1)]], goal_cases)
    case (1 x s1)
    let ?s2 = "s1\<lparr>l_start := st, l_size := sint nlog, l_dev := ROOTDEV\<rparr>"
    have c2: "cache_st ?s2 {} {}" by (rule cache_st_cong [of s1]) (use 1 in \<open>simp_all add: myproc_def\<close>)
    have v2: "view ?s2 = disk r" using view_cong [of ?s2 s1] 1 by simp
    show ?case
    proof (rule returns_mono [OF recover_ok [OF c2, of bs]], goal_cases)
      case (6 y r')
      then have "view r' = disk r'" using view_clean [of r' "{}" "{}"] by auto
      with 6 show ?case by (simp add: v2)
    qed (use assms v2 in auto)
  qed
  then show ?thesis by (simp add: initlog_def)
qed

section \<open>A commit is atomic\<close>

lemma commit_writes_take:
  fixes s :: "'z log_st_scheme" and bs :: "uint list"
  defines "n \<equiv> length bs"
  defines "h \<equiv> header_bytes (int n) (l_block s) (view s (l_start s))"
  shows "m \<le> n \<Longrightarrow> take m (commit_writes s bs) = take m (log_writes s bs n)"
    and "n < m \<Longrightarrow> m \<le> 2 * n + 1 \<Longrightarrow> take m (commit_writes s bs) =
       log_writes s bs n @ [(l_start s, h)] @ map (\<lambda>b. (b, view s b)) (take (m - n - 1) bs)"
    and "2 * n + 1 < m \<Longrightarrow> take m (commit_writes s bs) = commit_writes s bs"
proof -
  have len: "length (log_writes s bs n) = n" by (simp add: log_writes_def)
  show "m \<le> n \<Longrightarrow> take m (commit_writes s bs) = take m (log_writes s bs n)"
    using len by (simp add: commit_writes_def n_def)
  show "take m (commit_writes s bs) = log_writes s bs n @ [(l_start s, h)] @ map (\<lambda>b. (b, view s b)) (take (m - n - 1) bs)"
    if "n < m" "m \<le> 2 * n + 1"
  proof -
    define j where "j = m - n - 1"
    then have "m = Suc (n + j)" "j \<le> n" using that by auto
    then show ?thesis using len by (simp add: commit_writes_def h_def n_def take_map)
  qed
  show "2 * n + 1 < m \<Longrightarrow> take m (commit_writes s bs) = commit_writes s bs"
    using len by (simp add: commit_writes_def n_def)
qed

lemma wr_home: "wr_all d (map (\<lambda>b. (b, v b)) bs) k = (if k \<in> set bs then v k else d k)"
  by (induction bs arbitrary: d) auto

lemma wr_home_writes:
  assumes "\<And>i. i < length bs \<Longrightarrow> d (log_blk st i) = v (bs ! i)"
  shows "wr_all d' (home_writes st d bs (length bs)) k = (if k \<in> set bs then v k else d' k)"
proof -
  have "home_writes st d bs (length bs) = map (\<lambda>b. (b, v b)) bs"
    by (rule nth_equalityI) (simp_all add: home_writes_def assms)
  then show ?thesis by (simp add: wr_home)
qed

lemma log_writes_outside:
  assumes "log_ok s bs" "k \<notin> log_blk (l_start s) ` {..<29}"
  shows "wr_all d (take m (log_writes s bs (length bs))) k = d k"
  using assms by (intro wr_all_other) (auto simp: log_writes_def log_ok_def dest!: in_set_takeD)

lemma commit_done:
  assumes l: "log_ok s bs" and cs: "cache_st s (set bs) {}"
  shows "returns commit s (\<lambda>_ s'. cache_st s' {} {} \<and> log_ok s' [] \<and> log_only s s' \<and>
     (\<forall>k. k \<notin> log_region (l_start s) \<longrightarrow> view s' k = view s k \<and> disk s' k = view s k))"
proof (cases "bs = []")
  case True
  then show ?thesis using l cs view_clean [OF cs] by (simp add: returns_def commit_def log_ok_def)
next
  case False
  have "wr_all e (log_writes s bs (length bs)) k = e k" if "k \<notin> log_region (l_start s)" for e k
    using log_writes_outside [OF l, of k e "length bs"] that by (simp add: log_writes_def log_region_def)
  then have "wr_all (view s) (commit_writes s bs) k = view s k \<and> wr_all (disk s) (commit_writes s bs) k = view s k"
    if "k \<notin> log_region (l_start s)" for k
    using that view_clean [OF cs, of k] by (auto simp: commit_writes_def wr_home log_region_def)
  then show ?thesis by (intro returns_mono [OF commit_ok [OF l cs False]]) auto
qed

text \<open>
  Whatever the number \<open>m\<close> of writes that reached the disk, it holds either no header, with the home blocks
  untouched, or the complete log, or the complete new contents.
\<close>

lemma crash_disk:
  assumes l: "log_ok s bs" and cs: "cache_st s (set bs) {}" and idle: "logged (disk s (l_start s)) []"
    and d_def: "d = wr_all (disk s) (take m (commit_writes s bs))"
  shows "\<exists>bs'. (bs' = [] \<or> bs' = bs) \<and> logged (d (l_start s)) bs' \<and>
     (\<forall>k. k \<notin> log_region (l_start s) \<longrightarrow>
        wr_all d (home_writes (l_start s) d bs' (length bs')) k = (if m \<le> length bs then disk s k else view s k))"
proof -
  let ?n = "length bs" and ?st = "l_start s"
  let ?L = "log_writes s bs (length bs)"
  let ?h = "header_bytes (int (length bs)) (l_block s) (view s ?st)"
  have st: "?st \<notin> log_blk ?st ` {..<29}" "?st \<notin> set bs"
    using log_blk_start [THEN not_sym] l by (auto simp: log_ok_def log_region_def)
  have clean: "view s k = disk s k" if "k \<notin> set bs" for k using view_clean [OF cs] that by simp
  have L: "wr_all e ?L k = e k" if "k \<notin> log_blk ?st ` {..<29}" for e k
    using log_writes_outside [OF l that, of e ?n] by (simp add: log_writes_def)
  consider "m \<le> ?n" | "?n < m" "m \<le> 2 * ?n + 1" | "2 * ?n + 1 < m" by linarith
  then show ?thesis
  proof cases
    case 1
    then have "d k = disk s k" if "k \<notin> log_blk ?st ` {..<29}" for k
      using log_writes_outside [OF l that] by (simp add: d_def commit_writes_take(1))
    then show ?thesis using idle 1 st by (intro exI [of _ "[]"]) (auto simp: home_writes_def log_region_def)
  next
    case 2
    have d: "d = wr_all ((wr_all (disk s) ?L)(?st := ?h)) (map (\<lambda>b. (b, view s b)) (take (m - ?n - 1) bs))"
      unfolding d_def commit_writes_take(2) [OF 2] by simp
    have "d ?st = ?h" using st(2) by (auto simp: d wr_home dest: in_set_takeD)
    moreover have "d (log_blk ?st i) = view s (bs ! i)" if "i < ?n" for i
      using log_ok_blk [OF l that] log_blk_start by (auto simp: d wr_home log_writes_lookup [OF l that] dest: in_set_takeD)
    moreover have "d k = disk s k" if "k \<notin> log_region ?st" "k \<notin> set bs" for k
      using that L by (auto simp: d wr_home log_region_def dest: in_set_takeD)
    ultimately show ?thesis using 2 clean logged_header(1) [OF l]
      by (intro exI [of _ bs]) (auto simp: wr_home_writes [where v = "view s"])
  next
    case 3
    then have "d = (wr_all ((wr_all (disk s) ?L)(?st := ?h)) (map (\<lambda>b. (b, view s b)) bs))(?st := header_bytes 0 (l_block s) ?h)"
      unfolding d_def commit_writes_take(3) [OF 3] by (simp add: commit_writes_def)
    then show ?thesis using 3 L clean logged_header(2) [OF l]
      by (intro exI [of _ "[]"]) (auto simp: home_writes_def log_region_def wr_home)
  qed
qed

text \<open>
  C14. A commit is atomic with respect to crashes. \<open>commit\<close> returns with the log empty and the new contents in place.
  The machine may stop after any number \<open>m\<close> of its disk writes have reached the disk. Booting from that disk, with
  an empty cache, recovery returns, leaves the log empty, and every block outside the log holds its contents from
  before the transaction if the header was not yet written, and its new contents otherwise; never a mixture.
\<close>

theorem commit_crash_atomic:
  fixes s r :: "'z log_st_scheme"
  assumes "log_ok s bs" and "cache_st s (set bs) {}" and "bs \<noteq> []" and "logged (disk s (l_start s)) []"
  shows "\<exists>s' T. commit s = Ret () s' \<and> dtrace s' = dtrace s @ T \<and> l_n s' = 0 \<and>
     (\<forall>k. k \<notin> log_region (l_start s) \<longrightarrow> view s' k = view s k \<and> disk s' k = view s k) \<and>
     (\<forall>m r. bcache r = (\<lambda>_. buf0) \<and> disk r = wr_all (disk s) (take m T) \<longrightarrow>
        (\<exists>r'. kthen binit (initlog ROOTDEV (l_start s) nlog) (r :: 'z log_st_scheme) = Ret () r' \<and>
           l_n r' = 0 \<and> logged (disk r' (l_start s)) [] \<and>
           (\<forall>k. k \<notin> log_region (l_start s) \<longrightarrow> view r' k = (if m \<le> length bs then disk s k else view s k))))"
proof -
  let ?T = "commit_writes s bs"
  obtain s' where s': "commit s = Ret () s'" "dtrace s' = dtrace s @ ?T" "l_n s' = 0"
    using commit_ok [OF assms(1-3)] by (auto simp: returns_def log_ok_def)
  then have new: "view s' k = view s k \<and> disk s' k = view s k" if "k \<notin> log_region (l_start s)" for k
    using commit_done [OF assms(1,2)] that by (auto simp: returns_def)
  have "\<exists>r'. kthen binit (initlog ROOTDEV (l_start s) nlog) r = Ret () r' \<and> l_n r' = 0 \<and> logged (disk r' (l_start s)) [] \<and>
     (\<forall>k. k \<notin> log_region (l_start s) \<longrightarrow> view r' k = (if m \<le> length bs then disk s k else view s k))"
    if r: "bcache r = (\<lambda>_. buf0)" "disk r = wr_all (disk s) (take m ?T)" for m and r :: "'z log_st_scheme"
  proof -
    obtain bs' where bs': "bs' = [] \<or> bs' = bs" "logged (disk r (l_start s)) bs'"
      and k: "\<And>k. k \<notin> log_region (l_start s) \<Longrightarrow> wr_all (disk r) (home_writes (l_start s) (disk r) bs' (length bs')) k =
         (if m \<le> length bs then disk s k else view s k)"
      using crash_disk [OF assms(1,2,4) r(2)] by blast
    have "distinct bs'" "length bs' \<le> 29" "set bs' \<inter> log_region (l_start s) = {}"
      using bs'(1) assms(1) by (auto simp: log_ok_def)
    from boot_recover [OF r(1) bs'(2) this, of nlog] k show ?thesis
      by (auto simp: returns_def log_ok_def log_region_def)
  qed
  with s' new show ?thesis by blast
qed

text \<open>A transaction of one block: block 50 was changed from zeros to sevens, and the header is block 2.\<close>

definition demo_log :: log_st where
  "demo_log =
     \<lparr>mem = (\<lambda>_. 0), freelist = 0, kend = 0, procs = (\<lambda>_. undefined), cur = 0, initproc = 0, nextpid = 1,
      bcache = (\<lambda>i. \<lparr>b_valid = (i = 0), b_disk = False, b_dev = (if i = 0 then 1 else 0), b_blockno = (if i = 0 then 50 else 0),
        b_lock = initsleeplock, b_refcnt = (if i = 0 then 1 else 0), b_prev = (if i = 0 then 30 else i - 1),
        b_next = (if i = 30 then 0 else i + 1), b_data = (\<lambda>_. if i = 0 then 7 else 0)\<rparr>),
      disk = (\<lambda>_ _. 0), dtrace = [], l_start = 2, l_size = 30, l_outstanding = 0, l_committing = True, l_dev = 1, l_n = 1,
      l_block = (\<lambda>_. 50)\<rparr>"

lemma demo_log_ok: "log_ok demo_log [50]" "cache_st demo_log (set [50]) {}" "logged (disk demo_log (l_start demo_log)) []"
proof -
  have "(50 :: uint) \<noteq> 2 + of_nat i + 1" if "i < 29" for i
  proof
    assume "(50 :: uint) = 2 + of_nat i + 1"
    then have "(of_nat 47 :: uint) = of_nat i" by simp
    then show False using that of_nat_eq_32 [of 47 i] by simp
  qed
  then show "log_ok demo_log [50]" by (auto simp: log_ok_def demo_log_def log_region_def log_blk_def)
  show "logged (disk demo_log (l_start demo_log)) []" by (simp add: logged_def demo_log_def eval_nat_numeral)
  have "lseg (nexts demo_log) (prevs demo_log) (NBUF # [0 ..< NBUF] @ [NBUF])" by (simp add: demo_log_def upt_rec)
  then have "lru demo_log [0 ..< NBUF]" by (auto simp: lru_def)
  moreover have "cached demo_log bn b \<longleftrightarrow> b = 0 \<and> bn = 50" for bn b by (auto simp: cached_def demo_log_def)
  ultimately show "cache_st demo_log (set [50]) {}"
    unfolding cache_st_def by (auto simp: demo_log_def buf_ok_def initsleeplock_def)
qed

text \<open>Witness: crashing between the header and the home block of that transaction.\<close>

theorem commit_crash_atomic_witness:
  "\<exists>s' T. commit demo_log = Ret () s' \<and> dtrace s' = T \<and> view s' 50 0 = 7 \<and> disk demo_log 50 0 = 0 \<and>
     (\<forall>r :: log_st. bcache r = (\<lambda>_. buf0) \<and> disk r = wr_all (disk demo_log) (take 2 T) \<longrightarrow>
        (\<exists>r'. kthen binit (initlog ROOTDEV 2 30) r = Ret () r' \<and> view r' 50 0 = 7))"
proof -
  have v: "view demo_log 50 0 = 7"
    using view_cached [OF demo_log_ok(2), of 50 0] by (simp add: cached_def demo_log_def)
  have o: "50 \<notin> log_region (l_start demo_log)" using demo_log_ok(1) by (simp add: log_ok_def)
  have f: "dtrace demo_log = []" "l_start demo_log = 2" "disk demo_log 50 0 = 0" by (simp_all add: demo_log_def)
  obtain s' T where c: "commit demo_log = Ret () s'" "dtrace s' = dtrace demo_log @ T"
    and new: "\<forall>k. k \<notin> log_region (l_start demo_log) \<longrightarrow> view s' k = view demo_log k \<and> disk s' k = view demo_log k"
    and cr: "\<forall>m (r :: log_st). bcache r = (\<lambda>_. buf0) \<and> disk r = wr_all (disk demo_log) (take m T) \<longrightarrow>
        (\<exists>r'. kthen binit (initlog ROOTDEV (l_start demo_log) 30) r = Ret () r' \<and>
           l_n r' = 0 \<and> logged (disk r' (l_start demo_log)) [] \<and>
           (\<forall>k. k \<notin> log_region (l_start demo_log) \<longrightarrow> view r' k = (if m \<le> length [50 :: uint] then disk demo_log k else view demo_log k)))"
    using commit_crash_atomic [OF demo_log_ok(1,2) list.distinct(2) demo_log_ok(3), of 30] by blast
  have "\<exists>r'. kthen binit (initlog ROOTDEV 2 30) r = Ret () r' \<and> view r' 50 0 = 7"
    if "bcache r = (\<lambda>_. buf0) \<and> disk r = wr_all (disk demo_log) (take 2 T)" for r :: log_st
    using cr [rule_format, OF that] o v f by auto
  then show ?thesis using c new o v f by (intro exI [of _ s'] exI [of _ T]) auto
qed

section \<open>Operations inside a transaction\<close>

lemma log_slot_cases:
  assumes "log_ok s bs"
  shows "if bn \<in> set bs then log_slot (l_n s) (l_block s) bn < length bs \<and> l_block s (log_slot (l_n s) (l_block s) bn) = bn
    else log_slot (l_n s) (l_block s) bn = length bs"
proof (cases "List.find (\<lambda>i. l_block s i = bn) [0 ..< length bs]")
  case None
  then have "bn \<notin> set bs" using assms by (auto simp: find_None_iff log_ok_def in_set_conv_nth)
  with None show ?thesis using assms by (simp add: log_slot_def log_ok_def)
next
  case (Some i)
  then have "i < length bs" "l_block s i = bn" by (auto simp: find_Some_iff)
  moreover from this have "bn \<in> set bs" using assms by (auto simp: log_ok_def)
  ultimately show ?thesis using Some assms by (simp add: log_slot_def log_ok_def)
qed

lemma log_write_ok:
  assumes l: "log_ok s bs" and cs: "cache_st s (set bs) H" and b: "cached s bn b" "bn \<in> H"
    and room: "length bs < 29" "l_size s = 30" "l_outstanding s \<ge> 1" and out: "bn \<notin> log_region (l_start s)"
  shows "returns (log_write b) s (\<lambda>_ s'. log_ok s' (if bn \<in> set bs then bs else bs @ [bn]) \<and> cache_st s' (insert bn (set bs)) H \<and>
     cached s' = cached s \<and> view s' = view s \<and> disk s' = disk s \<and> dtrace s' = dtrace s \<and> log_only s s')"
proof -
  let ?i = "log_slot (l_n s) (l_block s) bn"
  let ?s1 = "s\<lparr>l_block := (l_block s)(?i := bn)\<rparr>"
  have c1: "cache_st ?s1 (set bs) H" by (rule cache_st_cong [OF cs]) (simp_all add: myproc_def)
  have v1: "view ?s1 = view s" "cached ?s1 = cached s" by (rule view_cong cached_cong, simp_all)+
  have o1: "log_only s ?s1" by (simp add: log_only_def same_procs_refl)
  have bn: "b_blockno (bcache s b) = bn" using b(1) by (simp add: cached_def)
  have n: "l_n s = int (length bs)" using l by (simp add: log_ok_def)
  show ?thesis
  proof (cases "bn \<in> set bs")
    case True
    then have i: "?i < length bs" "l_block s ?i = bn" using log_slot_cases [OF l, of bn] by simp_all
    then have "(l_block s)(?i := bn) = l_block s" by auto
    then have "log_ok ?s1 bs" using l by (simp add: log_ok_def)
    moreover have "log_write b s = Ret () ?s1" using room i n bn by (simp add: log_write_def Let_def)
    ultimately show ?thesis using c1 v1 o1 True by (simp add: returns_def insert_absorb)
  next
    case False
    then have i: "?i = length bs" using log_slot_cases [OF l, of bn] by simp
    have l1: "log_ok (t\<lparr>l_n := l_n t + 1\<rparr>) (bs @ [bn])" if "bio_only ?s1 t" for t
      using l room(1) out False bio_only_log [OF that] i by (auto simp: log_ok_def nth_append less_Suc_eq)
    have "returns (kthen (bpin b) (kmod (\<lambda>s. s\<lparr>l_n := l_n s + 1\<rparr>))) ?s1 (\<lambda>_ s'. log_ok s' (bs @ [bn]) \<and> cache_st s' (insert bn (set bs)) H \<and>
     cached s' = cached s \<and> view s' = view s \<and> disk s' = disk s \<and> dtrace s' = dtrace s \<and> log_only s s')"
      unfolding returns_simps
    proof (rule returns_mono [OF bpin_ok [OF c1, of bn b]], goal_cases)
      case (4 x t)
      let ?t = "t\<lparr>l_n := l_n t + 1\<rparr>"
      have "cache_st ?t (insert bn (set bs)) H" by (rule cache_st_cong [of t]) (use 4 in \<open>simp_all add: myproc_def\<close>)
      moreover have "view ?t = view s" using 4 v1 view_cong [of ?t t] by simp
      moreover have "cached ?t = cached s" using 4 v1 cached_cong [of ?t t] by simp
      moreover have "log_only ?s1 ?t" using 4 bio_only_log_only [of ?s1 t] by (simp add: log_only_def same_procs_def)
      ultimately show ?case using 4 l1 [of t] o1 log_only_trans by auto
    qed (use b v1 False in auto)
    moreover have "log_write b s = kthen (bpin b) (kmod (\<lambda>s. s\<lparr>l_n := l_n s + 1\<rparr>)) ?s1"
      using room i n bn by (simp add: log_write_def Let_def)
    ultimately show ?thesis using False by (simp add: returns_def)
  qed
qed

text \<open>Between \<open>begin_op\<close> and \<open>end_op\<close>, with no buffer held and the blocks \<open>bs\<close> logged.\<close>

definition tx :: "'z log_st_scheme \<Rightarrow> uint list \<Rightarrow> bool" where
  "tx s bs \<longleftrightarrow> log_ok s bs \<and> cache_st s (set bs) {} \<and> l_size s = 30 \<and> l_outstanding s \<ge> 1"

abbreviation logged_with :: "uint list \<Rightarrow> uint \<Rightarrow> uint list" where
  "logged_with bs bn \<equiv> if bn \<in> set bs then bs else bs @ [bn]"

lemma tx_card: "tx s bs \<Longrightarrow> card (set bs) < NBUF"
  by (simp add: tx_def log_ok_def distinct_card)

lemma tx_read:
  assumes "tx s bs"
  shows "returns (kbind (bread ROOTDEV bn) (\<lambda>b. kbind (kget (\<lambda>s. f (b_data (bcache s b)))) (\<lambda>x. kthen (brelse b) (kret x)))) s
    (\<lambda>x s'. x = f (view s bn) \<and> tx s' bs \<and> view s' = view s \<and> disk s' = disk s \<and> log_only s s')"
proof (rule returns_mono [OF bc.peek [of s "set bs"]], goal_cases)
  case (3 x s')
  then show ?case using assms log_ok_frame [of s s' bs] bio_only_log [of s s'] bio_only_log_only [of s s'] by (auto simp: tx_def)
qed (use assms tx_card [OF assms] in \<open>auto simp: tx_def\<close>)

lemma tx_update:
  assumes t: "tx s bs" and room: "length bs < 29" and out: "bn \<notin> log_region (l_start s)"
  shows "returns (kbind (bread ROOTDEV bn) (\<lambda>b. kthen (kmod (\<lambda>s. upd_buf b (\<lambda>x. x\<lparr>b_data := f (b_data (bcache s b))\<rparr>) s))
      (kthen (log_write b) (brelse b)))) s
    (\<lambda>_ s'. tx s' (logged_with bs bn) \<and> view s' = (view s)(bn := f (view s bn)) \<and> disk s' = disk s \<and> log_only s s')"
  unfolding returns_simps
proof (rule returns_mono [OF bread_ok [of s "set bs" "{}"]], goal_cases)
  case (4 b s1)
  then have c1: "cache_st s1 (set bs) {bn}" "cached s1 bn b" by simp_all
  have b1: "bio_only s s1" "view s1 = view s" "disk s1 = disk s" using 4 by simp_all
  let ?d = "f (b_data (bcache s1 b))"
  let ?s2 = "upd_buf b (\<lambda>x. x\<lparr>b_data := ?d\<rparr>) s1"
  have d: "?d = f (view s bn)" using cached_held(8) [OF c1] b1 by simp
  have s2: "cache_st ?s2 (set bs) {bn}" "cached ?s2 bn b" "view ?s2 = (view s)(bn := f (view s bn))" "disk ?s2 = disk s" "bio_only s ?s2"
    using set_data_ok [OF c1 _ refl, of ?d] c1 b1 d by (auto intro: bio_only_trans)
  have l2: "log_ok ?s2 bs" "l_size ?s2 = 30" "l_outstanding ?s2 \<ge> 1" "l_start ?s2 = l_start s"
    using t log_ok_frame [OF s2(5)] bio_only_log [OF s2(5)] by (auto simp: tx_def)
  show ?case
  proof (rule returns_mono [OF log_write_ok [OF l2(1) s2(1,2) _ room l2(2,3)]], goal_cases)
    case (3 x s3)
    have "set (logged_with bs bn) = insert bn (set bs)" by auto
    with 3 have c3: "cache_st s3 (set (logged_with bs bn)) {bn}" "cached s3 bn b" "bn \<in> set (logged_with bs bn)" using s2(2) by simp_all
    show ?case
    proof (rule returns_mono [OF brelse_ok [OF c3(1,2)]], goal_cases)
      case (3 y s4)
      have "log_only s s4"
        using 3 \<open>log_ok s3 _ \<and> _\<close> s2(5) bio_only_log_only log_only_trans by blast
      moreover have "log_ok s4 (logged_with bs bn)" using 3 \<open>log_ok s3 _ \<and> _\<close> log_ok_frame [of s3 s4] by simp
      ultimately show ?case using 3 \<open>log_ok s3 _ \<and> _\<close> s2 t by (simp add: tx_def log_only_def)
    qed (use c3 in auto)
  qed (use out l2 in auto)
qed (use t tx_card [OF t] in \<open>auto simp: tx_def\<close>)

section \<open>Sharing the log\<close>

lemma woken: "i < NPROC \<Longrightarrow> i \<noteq> cur s \<Longrightarrow> p_state (procs (wakeup ch s) i) = SLEEPING \<Longrightarrow> p_chan (procs (wakeup ch s) i) \<noteq> ch"
  by (auto simp: wakeup_def split: if_splits)





end
