(* ===== verification/Fs.thy ===== *)
theory Fs
  imports Log
begin

text \<open>
  The file system, \<^verbatim>\<open>kernel/fs.c\<close> with the on-disk format of \<^verbatim>\<open>kernel/fs.h\<close>: block allocator, inodes, file
  contents, directories and path names. A pointer to an in-memory inode is its index in \<^verbatim>\<open>itable.inode[]\<close>.
  Structures on disk are read and written at their byte offsets in the block.
\<close>

type_synonym short = "16 word"

abbreviation NDIRECT :: nat where "NDIRECT \<equiv> 12"
abbreviation NINDIRECT :: nat where "NINDIRECT \<equiv> 16384"
abbreviation IPB :: uint where "IPB \<equiv> 1024"
abbreviation BPB :: uint where "BPB \<equiv> 524288"
abbreviation DIRSIZ :: nat where "DIRSIZ \<equiv> 30"
abbreviation NINODE :: nat where "NINODE \<equiv> 50"
abbreviation FSMAGIC :: uint where "FSMAGIC \<equiv> 0x10203040"
abbreviation ROOTINO :: uint where "ROOTINO \<equiv> 1"
abbreviation T_DIR :: short where "T_DIR \<equiv> 1"
abbreviation T_FILE :: short where "T_FILE \<equiv> 2"
abbreviation T_DEVICE :: short where "T_DEVICE \<equiv> 3"

record superblock =
  sb_magic :: uint
  sb_size :: uint
  sb_nblocks :: uint
  sb_ninodes :: uint
  sb_nlog :: uint
  sb_logstart :: uint
  sb_inodestart :: uint
  sb_bmapstart :: uint

record inode =
  i_dev :: uint
  i_inum :: uint
  i_ref :: int
  i_lock :: sleeplock
  i_valid :: bool
  i_type :: short
  i_major :: short
  i_minor :: short
  i_nlink :: short
  i_size :: uint
  i_addrs :: "nat \<Rightarrow> uint"

record fs_st = log_st +
  sb :: superblock
  itable :: "nat \<Rightarrow> inode"

definition upd_inode :: "nat \<Rightarrow> (inode \<Rightarrow> inode) \<Rightarrow> 'z fs_st_scheme \<Rightarrow> 'z fs_st_scheme" where
  "upd_inode ip f s = s\<lparr>itable := (itable s)(ip := f (itable s ip))\<rparr>"

text \<open>The blocks that hold inode \<open>i\<close> and the free-map bit of block \<open>b\<close>.\<close>

definition IBLOCK :: "uint \<Rightarrow> superblock \<Rightarrow> uint" where
  "IBLOCK i sp = i div IPB + sb_inodestart sp"

definition BBLOCK :: "uint \<Rightarrow> superblock \<Rightarrow> uint" where
  "BBLOCK b sp = b div BPB + sb_bmapstart sp"

text \<open>The pieces that the routines repeat: the contents of a buffer, and changing them.\<close>

abbreviation buf_data :: "nat \<Rightarrow> ('z bio_st_scheme, block) kprog" where
  "buf_data b \<equiv> kget (\<lambda>s. b_data (bcache s b))"

abbreviation set_data :: "nat \<Rightarrow> (block \<Rightarrow> block) \<Rightarrow> ('z bio_st_scheme, unit) kprog" where
  "set_data b f \<equiv> kmod (\<lambda>s. upd_buf b (\<lambda>x. x\<lparr>b_data := f (b_data (bcache s b))\<rparr>) s)"

section \<open>The superblock\<close>

definition decode_sb :: "block \<Rightarrow> superblock" where
  "decode_sb d = \<lparr>sb_magic = get32 d 0, sb_size = get32 d 4, sb_nblocks = get32 d 8, sb_ninodes = get32 d 12,
     sb_nlog = get32 d 16, sb_logstart = get32 d 20, sb_inodestart = get32 d 24, sb_bmapstart = get32 d 28\<rparr>"

definition readsb :: "uint \<Rightarrow> ('z fs_st_scheme, unit) kprog" where
  "readsb dev =
     kbind (bread dev 1) (\<lambda>bp.
     kbind (buf_data bp) (\<lambda>d.
     kthen (kmod (\<lambda>s. s\<lparr>sb := decode_sb d\<rparr>)) (brelse bp)))"

definition fsinit :: "uint \<Rightarrow> ('z fs_st_scheme, unit) kprog" where
  "fsinit dev = kthen (readsb dev) (\<lambda>s.
     if sb_magic (sb s) \<noteq> FSMAGIC then Panic ''invalid file system''
     else initlog dev (sb_logstart (sb s)) (sb_nlog (sb s)) s)"

section \<open>Blocks\<close>

definition bzero :: "uint \<Rightarrow> uint \<Rightarrow> ('z fs_st_scheme, unit) kprog" where
  "bzero dev bno =
     kbind (bread dev bno) (\<lambda>bp. kthen (set_data bp (\<lambda>_ _. 0)) (kthen (log_write bp) (brelse bp)))"

text \<open>The bit of block number \<open>bi\<close> in a free-map block, and the inner loop of \<^verbatim>\<open>balloc\<close> from bit \<open>bi\<close> to \<open>n\<close>.\<close>

definition bit_clear :: "block \<Rightarrow> nat \<Rightarrow> bool" where
  "bit_clear d bi \<longleftrightarrow> d (bi div 8) AND push_bit (bi mod 8) 1 = 0"

definition bit_mark :: "nat \<Rightarrow> block \<Rightarrow> block" where
  "bit_mark bi d = d(bi div 8 := d (bi div 8) OR push_bit (bi mod 8) 1)"

definition bit_unmark :: "nat \<Rightarrow> block \<Rightarrow> block" where
  "bit_unmark bi d = d(bi div 8 := d (bi div 8) AND NOT (push_bit (bi mod 8) 1))"

function balloc_scan :: "block \<Rightarrow> nat \<Rightarrow> nat \<Rightarrow> nat option" where
  "balloc_scan d bi n = (if bi < n then if bit_clear d bi then Some bi else balloc_scan d (Suc bi) n else None)"
  by pat_completeness auto
termination by (relation "measure (\<lambda>(d, bi, n). n - bi)") auto

definition balloc_step :: "uint \<Rightarrow> uint \<Rightarrow> ('z fs_st_scheme, uint + uint) kprog" where
  "balloc_step dev b = (\<lambda>s.
     if b < sb_size (sb s) then
       kbind (bread dev (BBLOCK b (sb s))) (\<lambda>bp.
       kbind (buf_data bp) (\<lambda>d.
         case balloc_scan d 0 (min (unat BPB) (unat (sb_size (sb s)) - unat b)) of
           Some bi \<Rightarrow>
             kthen (set_data bp (bit_mark bi))
            (kthen (log_write bp)
            (kthen (brelse bp)
            (kthen (bzero dev (b + of_nat bi))
                   (kret (Inr (b + of_nat bi))))))
         | None \<Rightarrow> kthen (brelse bp) (kret (Inl (b + BPB))))) s
     else Panic ''balloc: out of blocks'')"

definition balloc :: "uint \<Rightarrow> ('z fs_st_scheme, uint) kprog" where
  "balloc dev = kwhile (balloc_step dev) 0"

definition bfree :: "uint \<Rightarrow> uint \<Rightarrow> ('z fs_st_scheme, unit) kprog" where
  "bfree dev b = (\<lambda>s.
     kbind (bread dev (BBLOCK b (sb s))) (\<lambda>bp.
     kbind (buf_data bp) (\<lambda>d.
       let bi = unat (b mod BPB) in
       if bit_clear d bi then kpanic ''freeing free block''
       else kthen (set_data bp (bit_unmark bi)) (kthen (log_write bp) (brelse bp)))) s)"

section \<open>Inodes\<close>

text \<open>Byte offset of inode \<open>i\<close> in its block, and the fields of \<^verbatim>\<open>struct dinode\<close> from there.\<close>

definition dinode_off :: "uint \<Rightarrow> nat" where
  "dinode_off i = 64 * unat (i mod IPB)"

definition read_dinode :: "block \<Rightarrow> nat \<Rightarrow> inode \<Rightarrow> inode" where
  "read_dinode d k ip = ip\<lparr>i_type := get16 d k, i_major := get16 d (k + 2), i_minor := get16 d (k + 4), i_nlink := get16 d (k + 6),
     i_size := get32 d (k + 8), i_addrs := (\<lambda>i. if i \<le> NDIRECT then get32 d (k + 12 + 4 * i) else i_addrs ip i)\<rparr>"

definition write_dinode :: "inode \<Rightarrow> nat \<Rightarrow> block \<Rightarrow> block" where
  "write_dinode ip k d =
     fold (\<lambda>i. put32 (k + 12 + 4 * i) (i_addrs ip i)) [0 ..< Suc NDIRECT]
       (put32 (k + 8) (i_size ip) (put16 (k + 6) (i_nlink ip) (put16 (k + 4) (i_minor ip)
         (put16 (k + 2) (i_major ip) (put16 k (i_type ip) d)))))"

definition iinit :: "('z fs_st_scheme, unit) kprog" where
  "iinit = kmod (\<lambda>s. s\<lparr>itable := (\<lambda>i. if i < NINODE then (itable s i)\<lparr>i_lock := initsleeplock\<rparr> else itable s i)\<rparr>)"

text \<open>
  The search of \<^verbatim>\<open>iget\<close>: the entry in use for the inode, else the first unused entry. Both loops over the
  table are a single scan in the source; the scan returns as soon as the inode is found.
\<close>

definition iget :: "uint \<Rightarrow> uint \<Rightarrow> ('z fs_st_scheme, nat) kprog" where
  "iget dev inum = (\<lambda>s.
     case List.find (\<lambda>i. i_ref (itable s i) > 0 \<and> i_dev (itable s i) = dev \<and> i_inum (itable s i) = inum) [0 ..< NINODE] of
       Some ip \<Rightarrow> Ret ip (upd_inode ip (\<lambda>x. x\<lparr>i_ref := i_ref x + 1\<rparr>) s)
     | None \<Rightarrow>
         (case List.find (\<lambda>i. i_ref (itable s i) = 0) [0 ..< NINODE] of
            None \<Rightarrow> Panic ''iget: no inodes''
          | Some ip \<Rightarrow> Ret ip (upd_inode ip (\<lambda>x. x\<lparr>i_dev := dev, i_inum := inum, i_ref := 1, i_valid := False\<rparr>) s)))"

definition ialloc_step :: "uint \<Rightarrow> short \<Rightarrow> uint \<Rightarrow> ('z fs_st_scheme, uint + nat) kprog" where
  "ialloc_step dev type inum = (\<lambda>s.
     if inum < sb_ninodes (sb s) then
       kbind (bread dev (IBLOCK inum (sb s))) (\<lambda>bp.
       kbind (buf_data bp) (\<lambda>d.
         if get16 d (dinode_off inum) = 0 then
           kthen (set_data bp (\<lambda>d. put16 (dinode_off inum) type (blit d (dinode_off inum) (replicate 64 0))))
          (kthen (log_write bp)
          (kthen (brelse bp)
          (kbind (iget dev inum) (\<lambda>ip. kret (Inr ip)))))
         else kthen (brelse bp) (kret (Inl (inum + 1))))) s
     else Panic ''ialloc: no inodes'')"

definition ialloc :: "uint \<Rightarrow> short \<Rightarrow> ('z fs_st_scheme, nat) kprog" where
  "ialloc dev type = kwhile (ialloc_step dev type) 1"

definition iupdate :: "nat \<Rightarrow> ('z fs_st_scheme, unit) kprog" where
  "iupdate ip = (\<lambda>s.
     kbind (bread (i_dev (itable s ip)) (IBLOCK (i_inum (itable s ip)) (sb s))) (\<lambda>bp.
     kthen (set_data bp (write_dinode (itable s ip) (dinode_off (i_inum (itable s ip)))))
    (kthen (log_write bp) (brelse bp))) s)"

definition idup :: "nat \<Rightarrow> ('z fs_st_scheme, nat) kprog" where
  "idup ip = kthen (kmod (upd_inode ip (\<lambda>x. x\<lparr>i_ref := i_ref x + 1\<rparr>))) (kret ip)"

text \<open>\<^verbatim>\<open>acquiresleep(&ip->lock)\<close> and \<^verbatim>\<open>releasesleep(&ip->lock)\<close>.\<close>

definition inode_lock :: "nat \<Rightarrow> ('z fs_st_scheme, unit) kprog" where
  "inode_lock ip = (\<lambda>s. case acquiresleep (p_pid (myproc s)) (i_lock (itable s ip)) of
       None \<Rightarrow> Block | Some lk \<Rightarrow> Ret () (upd_inode ip (\<lambda>x. x\<lparr>i_lock := lk\<rparr>) s))"

definition inode_unlock :: "nat \<Rightarrow> ('z fs_st_scheme, unit) kprog" where
  "inode_unlock ip = kmod (\<lambda>s. wakeup (ChInode ip) (upd_inode ip (\<lambda>x. x\<lparr>i_lock := releasesleep (i_lock x)\<rparr>) s))"

definition ilock :: "nat \<Rightarrow> ('z fs_st_scheme, unit) kprog" where
  "ilock ip = (\<lambda>s.
     if i_ref (itable s ip) < 1 then Panic ''ilock''
     else kthen (inode_lock ip) (\<lambda>s.
       if i_valid (itable s ip) then Ret () s
       else kbind (bread (i_dev (itable s ip)) (IBLOCK (i_inum (itable s ip)) (sb s))) (\<lambda>bp.
            kbind (buf_data bp) (\<lambda>d.
            kthen (kmod (upd_inode ip (read_dinode d (dinode_off (i_inum (itable s ip))))))
           (kthen (brelse bp)
           (kthen (kmod (upd_inode ip (\<lambda>x. x\<lparr>i_valid := True\<rparr>)))
           (\<lambda>s. if i_type (itable s ip) = 0 then Panic ''ilock: no type'' else Ret () s))))) s) s)"

definition iunlock :: "nat \<Rightarrow> ('z fs_st_scheme, unit) kprog" where
  "iunlock ip = (\<lambda>s.
     if \<not> holdingsleep (p_pid (myproc s)) (i_lock (itable s ip)) \<or> i_ref (itable s ip) < 1 then Panic ''iunlock''
     else inode_unlock ip s)"

section \<open>Inode contents\<close>

definition bmap :: "nat \<Rightarrow> uint \<Rightarrow> ('z fs_st_scheme, uint) kprog" where
  "bmap ip bn = (\<lambda>s.
     if bn < of_nat NDIRECT then
       let addr = i_addrs (itable s ip) (unat bn) in
       if addr = 0 then
         kbind (balloc (i_dev (itable s ip))) (\<lambda>addr.
         kthen (kmod (upd_inode ip (\<lambda>x. x\<lparr>i_addrs := (i_addrs x)(unat bn := addr)\<rparr>))) (kret addr)) s
       else Ret addr s
     else let bn = bn - of_nat NDIRECT in
       if bn < of_nat NINDIRECT then
         kbind (let addr = i_addrs (itable s ip) NDIRECT in
                if addr = 0 then
                  kbind (balloc (i_dev (itable s ip))) (\<lambda>addr.
                  kthen (kmod (upd_inode ip (\<lambda>x. x\<lparr>i_addrs := (i_addrs x)(NDIRECT := addr)\<rparr>))) (kret addr))
                else kret addr) (\<lambda>addr.
         kbind (bread (i_dev (itable s ip)) addr) (\<lambda>bp.
         kbind (buf_data bp) (\<lambda>d.
           let addr = get32 d (4 * unat bn) in
           if addr = 0 then
             kbind (balloc (i_dev (itable s ip))) (\<lambda>addr.
             kthen (set_data bp (put32 (4 * unat bn) addr))
            (kthen (log_write bp)
            (kthen (brelse bp) (kret addr))))
           else kthen (brelse bp) (kret addr)))) s
       else Panic ''bmap: out of range'')"

definition itrunc_direct :: "nat \<Rightarrow> nat \<Rightarrow> ('z fs_st_scheme, unit) kprog" where
  "itrunc_direct ip i = (\<lambda>s.
     if i_addrs (itable s ip) i \<noteq> 0 then
       kthen (bfree (i_dev (itable s ip)) (i_addrs (itable s ip) i))
         (kmod (upd_inode ip (\<lambda>x. x\<lparr>i_addrs := (i_addrs x)(i := 0)\<rparr>))) s
     else Ret () s)"

definition itrunc_indirect :: "nat \<Rightarrow> nat \<Rightarrow> nat \<Rightarrow> ('z fs_st_scheme, unit) kprog" where
  "itrunc_indirect ip bp j = (\<lambda>s.
     let a = get32 (b_data (bcache s bp)) (4 * j)
     in if a \<noteq> 0 then bfree (i_dev (itable s ip)) a s else Ret () s)"

definition itrunc :: "nat \<Rightarrow> ('z fs_st_scheme, unit) kprog" where
  "itrunc ip =
     kthen (kfor [0 ..< NDIRECT] (itrunc_direct ip))
    (kthen (\<lambda>s.
       if i_addrs (itable s ip) NDIRECT \<noteq> 0 then
         kbind (bread (i_dev (itable s ip)) (i_addrs (itable s ip) NDIRECT)) (\<lambda>bp.
         kthen (kfor [0 ..< NINDIRECT] (itrunc_indirect ip bp))
        (kthen (brelse bp)
        (kthen (\<lambda>s. bfree (i_dev (itable s ip)) (i_addrs (itable s ip) NDIRECT) s)
               (kmod (upd_inode ip (\<lambda>x. x\<lparr>i_addrs := (i_addrs x)(NDIRECT := 0)\<rparr>)))))) s
       else Ret () s)
    (kthen (kmod (upd_inode ip (\<lambda>x. x\<lparr>i_size := 0\<rparr>))) (iupdate ip)))"

definition iput :: "nat \<Rightarrow> ('z fs_st_scheme, unit) kprog" where
  "iput ip =
     kthen (\<lambda>s.
       if i_ref (itable s ip) = 1 \<and> i_valid (itable s ip) \<and> i_nlink (itable s ip) = 0 then
         kthen (inode_lock ip)
        (kthen (itrunc ip)
        (kthen (kmod (upd_inode ip (\<lambda>x. x\<lparr>i_type := 0\<rparr>)))
        (kthen (iupdate ip)
        (kthen (kmod (upd_inode ip (\<lambda>x. x\<lparr>i_valid := False\<rparr>)))
               (inode_unlock ip))))) s
       else Ret () s)
     (kmod (upd_inode ip (\<lambda>x. x\<lparr>i_ref := i_ref x - 1\<rparr>)))"

definition iunlockput :: "nat \<Rightarrow> ('z fs_st_scheme, unit) kprog" where
  "iunlockput ip = kthen (iunlock ip) (iput ip)"

record stat =
  st_dev :: int
  st_ino :: uint
  st_type :: short
  st_nlink :: short
  st_size :: uint64

definition stati :: "inode \<Rightarrow> stat" where
  "stati ip = \<lparr>st_dev = sint (i_dev ip), st_ino = i_inum ip, st_type = i_type ip, st_nlink = i_nlink ip, st_size = ucast (i_size ip)\<rparr>"

text \<open>
  The loops of \<^verbatim>\<open>readi\<close> and \<^verbatim>\<open>writei\<close> on \<open>tot\<close>, \<open>off\<close> and the address, and for \<^verbatim>\<open>readi\<close> the bytes read so far.
  Offsets and counts are unsigned 32-bit.
\<close>

definition readi_step ::
  "nat \<Rightarrow> uint \<Rightarrow> uint \<times> uint \<times> dest \<times> uchar list \<Rightarrow>
   ('z fs_st_scheme, (uint \<times> uint \<times> dest \<times> uchar list) + (uint \<times> uchar list)) kprog" where
  "readi_step ip n = (\<lambda>(tot, off, dst, acc) s.
     if tot < n then
       kbind (bmap ip (off div of_nat BSIZE)) (\<lambda>a.
       kbind (bread (i_dev (itable s ip)) a) (\<lambda>bp.
       kbind (buf_data bp) (\<lambda>d.
         let m = min (n - tot) (of_nat BSIZE - off mod of_nat BSIZE);
             src = (\<lambda>i. d (unat (off mod of_nat BSIZE) + i)) in
         kbind (either_copyout dst src (ucast m)) (\<lambda>r.
           if r = -1 then kthen (brelse bp) (kret (Inr (-1, acc)))
           else kthen (brelse bp) (kret (Inl (tot + m, off + m, dest_add dst (ucast m), acc @ map src [0 ..< unat m]))))))) s
     else Ret (Inr (tot, acc)) s)"

definition readi :: "nat \<Rightarrow> dest \<Rightarrow> uint \<Rightarrow> uint \<Rightarrow> ('z fs_st_scheme, uint \<times> uchar list) kprog" where
  "readi ip dst off n = (\<lambda>s.
     if off > i_size (itable s ip) \<or> off + n < off then Ret (0, []) s
     else let n = (if off + n > i_size (itable s ip) then i_size (itable s ip) - off else n)
          in kwhile (readi_step ip n) (0, off, dst, []) s)"

text \<open>
  The guard of \<^verbatim>\<open>writei\<close> against \<^verbatim>\<open>MAXFILE*BSIZE\<close> is computed in 64 bits, where \<^verbatim>\<open>MAXFILE\<close> also counts doubly
  indirect blocks. A copy that fails half-way leaves the bytes it already moved in the buffer.
\<close>

abbreviation MAXFILE :: uint64 where "MAXFILE \<equiv> 12 + 16384 + 16384 * 16384"

definition writei_step ::
  "nat \<Rightarrow> uint \<Rightarrow> uint \<times> uint \<times> source \<Rightarrow> ('z fs_st_scheme, (uint \<times> uint \<times> source) + (uint \<times> uint)) kprog" where
  "writei_step ip n = (\<lambda>(tot, off, src) s.
     if tot < n then
       kbind (bmap ip (off div of_nat BSIZE)) (\<lambda>a.
       kbind (bread (i_dev (itable s ip)) a) (\<lambda>bp.
         let m = min (n - tot) (of_nat BSIZE - off mod of_nat BSIZE) in
         kbind (either_copyin src (ucast m)) (\<lambda>(r, bs).
         kthen (set_data bp (\<lambda>d. blit d (unat (off mod of_nat BSIZE)) bs))
           (if r = -1 then kthen (brelse bp) (kret (Inr (tot, off)))
            else kthen (log_write bp)
                (kthen (brelse bp) (kret (Inl (tot + m, off + m, source_add src (ucast m))))))))) s
     else Ret (Inr (tot, off)) s)"

definition writei :: "nat \<Rightarrow> source \<Rightarrow> uint \<Rightarrow> uint \<Rightarrow> ('z fs_st_scheme, uint) kprog" where
  "writei ip src off n = (\<lambda>s.
     if off > i_size (itable s ip) \<or> off + n < off then Ret (-1) s
     else if ucast (off + n) > MAXFILE * of_nat BSIZE then Ret (-1) s
     else
       kbind (kwhile (writei_step ip n) (0, off, src)) (\<lambda>(tot, off).
       kthen (kmod (\<lambda>s. if off > i_size (itable s ip) then upd_inode ip (\<lambda>x. x\<lparr>i_size := off\<rparr>) s else s))
      (kthen (iupdate ip) (kret tot))) s)"

section \<open>Directories\<close>

definition namecmp :: "cptr \<Rightarrow> cptr \<Rightarrow> int" where
  "namecmp s t = strncmp s t DIRSIZ"

text \<open>The fields of \<^verbatim>\<open>struct dirent\<close> in the 32 bytes read or written.\<close>

definition de_inum :: "uchar list \<Rightarrow> ushort" where
  "de_inum bs = get16 (buf_view bs) 0"

definition de_name :: "uchar list \<Rightarrow> cptr" where
  "de_name bs = (\<lambda>i. buf_view bs (2 + i))"

definition dirlookup_step ::
  "nat \<Rightarrow> cptr \<Rightarrow> uint \<Rightarrow> ('z fs_st_scheme, uint + (nat \<times> uint) option) kprog" where
  "dirlookup_step dp name off = (\<lambda>s.
     if off < i_size (itable s dp) then
       kbind (readi dp DObj off 32) (\<lambda>(r, de).
         if r \<noteq> 32 then kpanic ''dirlookup read''
         else if de_inum de = 0 then kret (Inl (off + 32))
         else if namecmp name (de_name de) = 0 then
           kbind (iget (i_dev (itable s dp)) (ucast (de_inum de))) (\<lambda>ip. kret (Inr (Some (ip, off))))
         else kret (Inl (off + 32))) s
     else Ret (Inr None) s)"

definition dirlookup :: "nat \<Rightarrow> cptr \<Rightarrow> ('z fs_st_scheme, (nat \<times> uint) option) kprog" where
  "dirlookup dp name = (\<lambda>s.
     if i_type (itable s dp) \<noteq> T_DIR then Panic ''dirlookup not DIR''
     else kwhile (dirlookup_step dp name) 0 s)"

text \<open>The search of \<^verbatim>\<open>dirlink\<close> for an empty entry; the bytes of the last entry read stay in \<open>de\<close>.\<close>

definition dirlink_step ::
  "nat \<Rightarrow> uint \<times> uchar list \<Rightarrow> ('z fs_st_scheme, (uint \<times> uchar list) + (uint \<times> uchar list)) kprog" where
  "dirlink_step dp = (\<lambda>(off, de) s.
     if off < i_size (itable s dp) then
       kbind (readi dp DObj off 32) (\<lambda>(r, de).
         if r \<noteq> 32 then kpanic ''dirlink read''
         else if de_inum de = 0 then kret (Inr (off, de))
         else kret (Inl (off + 32, de))) s
     else Ret (Inr (off, de)) s)"

text \<open>The bytes of a directory entry with the name and inode number stored into it.\<close>

definition make_dirent :: "uchar list \<Rightarrow> cptr \<Rightarrow> ushort \<Rightarrow> cptr" where
  "make_dirent de name inum =
     put16 0 inum (\<lambda>i. if i < 2 then buf_view de i else strncpy (de_name de) name (int DIRSIZ) (i - 2))"

definition dirlink :: "nat \<Rightarrow> cptr \<Rightarrow> uint \<Rightarrow> ('z fs_st_scheme, int) kprog" where
  "dirlink dp name inum =
     kbind (dirlookup dp name) (\<lambda>r. case r of
       Some (ip, _) \<Rightarrow> kthen (iput ip) (kret (-1))
     | None \<Rightarrow>
         kbind (kwhile (dirlink_step dp) (0, [])) (\<lambda>(off, de).
         kbind (writei dp (SObj (make_dirent de name (ucast inum))) off 32) (\<lambda>r.
           if r \<noteq> 32 then kpanic ''dirlink'' else kret 0)))"

section \<open>Path names\<close>

text \<open>
  A path is the list of its characters, without the terminator. \<open>skipelem\<close> yields the rest of the path and the
  contents of the \<^verbatim>\<open>name\<close> array, or nothing if there is no element left.
\<close>

definition skipelem :: "uchar list \<Rightarrow> cptr \<Rightarrow> (uchar list \<times> cptr) option" where
  "skipelem path name =
     (let path = dropWhile (\<lambda>c. c = 47) path in
      if path = [] then None
      else let s = takeWhile (\<lambda>c. c \<noteq> 47) path; path = dropWhile (\<lambda>c. c \<noteq> 47) path; len = length s;
               name = (if len \<ge> DIRSIZ then blit name 0 (take DIRSIZ s) else (blit name 0 s)(len := 0))
           in Some (dropWhile (\<lambda>c. c = 47) path, name))"

definition namex_step ::
  "bool \<Rightarrow> uchar list \<times> cptr \<times> nat \<Rightarrow>
   ('z fs_st_scheme, (uchar list \<times> cptr \<times> nat) + (nat option \<times> cptr)) kprog" where
  "namex_step nameiparent = (\<lambda>(path, name, ip).
     case skipelem path name of
       None \<Rightarrow> if nameiparent then kthen (iput ip) (kret (Inr (None, name))) else kret (Inr (Some ip, name))
     | Some (path, name) \<Rightarrow>
         kthen (ilock ip) (\<lambda>s.
           if i_type (itable s ip) \<noteq> T_DIR then kthen (iunlockput ip) (kret (Inr (None, name))) s
           else if nameiparent \<and> path = [] then kthen (iunlock ip) (kret (Inr (Some ip, name))) s
           else kbind (dirlookup ip name) (\<lambda>r. case r of
                  None \<Rightarrow> kthen (iunlockput ip) (kret (Inr (None, name)))
                | Some (next, _) \<Rightarrow> kthen (iunlockput ip) (kret (Inl (path, name, next)))) s))"

definition namex :: "uchar list \<Rightarrow> bool \<Rightarrow> cptr \<Rightarrow> ('z fs_st_scheme, nat option \<times> cptr) kprog" where
  "namex path nameiparent name = (\<lambda>s.
     kbind (if path \<noteq> [] \<and> hd path = 47 then iget ROOTDEV ROOTINO
            else (case p_cwd (myproc s) of Some cwd \<Rightarrow> idup cwd | None \<Rightarrow> kpanic ''kerneltrap''))
       (\<lambda>ip. kwhile (namex_step nameiparent) (path, name, ip)) s)"

definition namei :: "uchar list \<Rightarrow> ('z fs_st_scheme, nat option) kprog" where
  "namei path = kbind (namex path False (\<lambda>_. 0)) (\<lambda>(ip, _). kret ip)"

definition nameiparent :: "uchar list \<Rightarrow> cptr \<Rightarrow> ('z fs_st_scheme, nat option \<times> cptr) kprog" where
  "nameiparent path name = namex path True name"

end
