(* ===== verification/Ring.thy ===== *)
theory Ring
  imports Prelude
begin

text \<open>
  Ring buffers with free-running counters, as the pipes, the serial port and the console have them: the slot of a counter is its
  value modulo the size \<open>N\<close>, and the counters wrap around. The contract holds when the size divides the range of the counters.
\<close>

definition ring_slot :: "nat \<Rightarrow> 'w::len word \<Rightarrow> nat" where
  "ring_slot N c = unat (c mod of_nat N)"

text \<open>The \<open>k\<close> elements from counter \<open>r\<close> on.\<close>

definition ring_list :: "nat \<Rightarrow> (nat \<Rightarrow> 'a) \<Rightarrow> 'w::len word \<Rightarrow> nat \<Rightarrow> 'a list" where
  "ring_list N buf r k = map (\<lambda>i. buf (ring_slot N (r + of_nat i))) [0 ..< k]"

lemma length_ring_list [simp]: "length (ring_list N buf r k) = k"
  by (simp add: ring_list_def)

lemma ring_list_0 [simp]: "ring_list N buf r 0 = []"
  by (simp add: ring_list_def)

lemma ring_list_split:
  fixes r :: "'w::len word"
  shows "ring_list N buf r (m + k) = ring_list N buf r m @ ring_list N buf (r + of_nat m) k"
proof -
  have "[0 ..< m + k] = [0 ..< m] @ map (\<lambda>i. m + i) [0 ..< k]"
    using upt_add_eq_append [of 0 m k] map_add_upt [of m k] by (simp add: add.commute)
  then show ?thesis by (simp add: ring_list_def comp_def add.assoc)
qed

locale ring =
  fixes N :: nat and w :: "'w::len itself"
  assumes size_pos: "0 < N" and size_dvd: "N dvd 2 ^ LENGTH('w)" and size_less: "N < 2 ^ LENGTH('w)"
begin

lemma slot_add: "ring_slot N (c + of_nat i :: 'w word) = (unat c + i) mod N"
proof -
  have "unat (of_nat N :: 'w word) = N" using size_less by (simp add: unat_of_nat)
  then have "ring_slot N (c + of_nat i :: 'w word) = unat (c + of_nat i) mod N" by (simp add: ring_slot_def unat_mod)
  also have "\<dots> = (unat c + i) mod 2 ^ LENGTH('w) mod N" by (simp add: unat_word_ariths unat_of_nat mod_add_right_eq)
  also have "\<dots> = (unat c + i) mod N" using size_dvd by (rule mod_mod_cancel)
  finally show ?thesis .
qed

lemma slot_inj: "\<lbrakk>i < k; k < N + i\<rbrakk> \<Longrightarrow> ring_slot N (c + of_nat i :: 'w word) \<noteq> ring_slot N (c + of_nat k)"
proof
  assume "i < k" "k < N + i" "ring_slot N (c + of_nat i) = ring_slot N (c + of_nat k)"
  then have "N dvd (unat c + k) - (unat c + i)" unfolding slot_add by (metis mod_eq_dvd_iff_nat add_left_mono less_imp_le)
  then show False using \<open>i < k\<close> \<open>k < N + i\<close> by (auto dest: dvd_imp_le)
qed

lemma ring_append:
  assumes "k < N"
  shows "ring_list N (buf(ring_slot N (r + of_nat k :: 'w word) := x)) r (Suc k) = ring_list N buf r k @ [x]"
proof -
  have "ring_slot N (r + of_nat i :: 'w word) \<noteq> ring_slot N (r + of_nat k)" if "i < k" for i
    using slot_inj [of i k r] that assms by simp
  then show ?thesis by (simp add: ring_list_def)
qed

lemma ring_pop: "ring_list N buf (r :: 'w word) (Suc k) = buf (ring_slot N r) # ring_list N buf (r + 1) k"
  unfolding ring_list_def by (simp add: upt_conv_Cons map_Suc_upt [symmetric] comp_def ac_simps del: upt_Suc)

text \<open>Dropping the newest element leaves the others.\<close>

lemma ring_shorten: "ring_list N buf (r :: 'w word) k = butlast (ring_list N buf r (Suc k))"
  by (simp add: ring_list_def butlast_append)

text \<open>The counters of a ring that is not full.\<close>

lemma ring_count_Suc:
  assumes "unat (e - r :: 'w word) \<le> N" "e \<noteq> r + of_nat N"
  shows "unat (e - r) < N" "unat (e + 1 - r) = Suc (unat (e - r))" "r + of_nat (unat (e - r)) = e"
proof -
  have "unat (e - r) \<noteq> N"
  proof
    assume "unat (e - r) = N"
    then have "e - r = of_nat N" by (metis of_nat_unat ucast_id)
    then show False using assms(2) by (simp add: algebra_simps)
  qed
  with assms(1) show l: "unat (e - r) < N" by simp
  then have "unat (e - r) + 1 < 2 ^ LENGTH('w)" using size_less by simp
  then have "unat ((e - r) + 1) = Suc (unat (e - r))" by (simp add: unat_word_ariths(1))
  moreover have "e + 1 - r = (e - r) + 1" by simp
  ultimately show "unat (e + 1 - r) = Suc (unat (e - r))" by metis
  show "r + of_nat (unat (e - r)) = e" by simp
qed

lemma ring_count_pop:
  assumes "e \<noteq> (r :: 'w word)"
  shows "unat (e - r) = Suc (unat (e - (r + 1)))"
proof -
  have "e - r \<noteq> 0" using assms by simp
  then have "unat (e - r - 1) = unat (e - r) - 1" "0 < unat (e - r)" by (simp_all add: unat_minus_one unat_gt_0)
  moreover have "e - r - 1 = e - (r + 1)" by simp
  ultimately show ?thesis by simp
qed

end

end
