(* ===== verification/Pipe.thy ===== *)
theory Pipe
  imports Fs Ring
begin

text \<open>
  Pipes, \<^verbatim>\<open>kernel/pipe.c\<close>. A pipe is a ring buffer of 512 bytes with free-running 32-bit read and write
  counters. The structure lives in a page of its own; the model keeps it in a store indexed by that address.
  A call that has to wait returns \<open>Inl i\<close>, the number of bytes it has moved, with the process asleep; it is continued
  from \<open>i\<close> when it is woken.
\<close>

abbreviation PIPESIZE :: nat where "PIPESIZE \<equiv> 512"

record pipe =
  pi_data :: cptr
  pi_nread :: uint
  pi_nwrite :: uint
  pi_readopen :: bool
  pi_writeopen :: bool

record pipe_st = fs_st +
  pipes :: "addr \<Rightarrow> pipe"

definition upd_pipe :: "addr \<Rightarrow> (pipe \<Rightarrow> pipe) \<Rightarrow> 'z pipe_st_scheme \<Rightarrow> 'z pipe_st_scheme" where
  "upd_pipe pi f s = s\<lparr>pipes := (pipes s)(pi := f (pipes s pi))\<rparr>"

definition pipeclose :: "addr \<Rightarrow> bool \<Rightarrow> ('z pipe_st_scheme, unit) kprog" where
  "pipeclose pi writable = (\<lambda>s.
     let s = (if writable then wakeup (ChPipeRead pi) (upd_pipe pi (\<lambda>p. p\<lparr>pi_writeopen := False\<rparr>) s)
              else wakeup (ChPipeWrite pi) (upd_pipe pi (\<lambda>p. p\<lparr>pi_readopen := False\<rparr>) s))
     in if \<not> pi_readopen (pipes s pi) \<and> \<not> pi_writeopen (pipes s pi) then kfree pi s else Ret () s)"

definition pipe_put :: "uchar \<Rightarrow> pipe \<Rightarrow> pipe" where
  "pipe_put ch p = p\<lparr>pi_data := (pi_data p)(unat (pi_nwrite p mod of_nat PIPESIZE) := ch), pi_nwrite := pi_nwrite p + 1\<rparr>"

definition pipe_get :: "pipe \<Rightarrow> uchar \<times> pipe" where
  "pipe_get p = (pi_data p (unat (pi_nread p mod of_nat PIPESIZE)), p\<lparr>pi_nread := pi_nread p + 1\<rparr>)"

definition pipewrite_step :: "addr \<Rightarrow> addr \<Rightarrow> int \<Rightarrow> nat \<Rightarrow> ('z pipe_st_scheme, nat + (nat + int)) kprog" where
  "pipewrite_step pi addr n i = (\<lambda>s.
     if int i < n then
       if \<not> pi_readopen (pipes s pi) \<or> p_killed (myproc s) \<noteq> 0 then Ret (Inr (Inr (-1))) s
       else if pi_nwrite (pipes s pi) = pi_nread (pipes s pi) + of_nat PIPESIZE then
         Ret (Inr (Inl i)) (go_to_sleep (ChPipeWrite pi) (wakeup (ChPipeRead pi) s))
       else
         kbind (copyin (p_pagetable (myproc s)) (addr + of_nat i) 1) (\<lambda>(r, ch).
           if r = -1 then kthen (kmod (wakeup (ChPipeRead pi))) (kret (Inr (Inr (int i))))
           else kthen (kmod (upd_pipe pi (pipe_put (hd ch)))) (kret (Inl (Suc i)))) s
     else Ret (Inr (Inr (int i))) (wakeup (ChPipeRead pi) s))"

definition pipewrite :: "addr \<Rightarrow> addr \<Rightarrow> int \<Rightarrow> nat \<Rightarrow> ('z pipe_st_scheme, nat + int) kprog" where
  "pipewrite pi addr n i = kwhile (pipewrite_step pi addr n) i"

definition piperead_step :: "addr \<Rightarrow> addr \<Rightarrow> int \<Rightarrow> nat \<Rightarrow> ('z pipe_st_scheme, nat + nat) kprog" where
  "piperead_step pi addr n i = (\<lambda>s.
     if int i < n then
       if pi_nread (pipes s pi) = pi_nwrite (pipes s pi) then Ret (Inr i) s
       else let (ch, p) = pipe_get (pipes s pi) in
         kthen (kmod (upd_pipe pi (\<lambda>_. p)))
        (kbind (\<lambda>s. copyout (p_pagetable (myproc s)) (addr + of_nat i) (\<lambda>_. ch) 1 s) (\<lambda>r.
           if r = -1 then kret (Inr i) else kret (Inl (Suc i)))) s
     else Ret (Inr i) s)"

definition piperead :: "addr \<Rightarrow> addr \<Rightarrow> int \<Rightarrow> ('z pipe_st_scheme, nat + int) kprog" where
  "piperead pi addr n = (\<lambda>s.
     if pi_nread (pipes s pi) = pi_nwrite (pipes s pi) \<and> pi_writeopen (pipes s pi) then
       if p_killed (myproc s) \<noteq> 0 then Ret (Inr (-1)) s
       else Ret (Inl 0) (go_to_sleep (ChPipeRead pi) s)
     else
       kbind (kwhile (piperead_step pi addr n) 0) (\<lambda>i.
       kthen (kmod (wakeup (ChPipeWrite pi))) (kret (Inr (int i)))) s)"

section \<open>A kernel at boot\<close>

text \<open>The zeroed globals of the layers so far and a process that runs on the memory \<open>m\<close>.\<close>

definition boot_inode :: inode where
  "boot_inode = \<lparr>i_dev = 0, i_inum = 0, i_ref = 0, i_lock = initsleeplock, i_valid = False, i_type = 0, i_major = 0, i_minor = 0,
     i_nlink = 0, i_size = 0, i_addrs = (\<lambda>_. 0)\<rparr>"

definition boot_pipe :: "memory \<Rightarrow> pipe_st" where
  "boot_pipe m = \<lparr>mem = m, freelist = 0, kend = 0x80000000, procs = (\<lambda>_. boot_proc), cur = 0, initproc = 0, nextpid = 2,
     bcache = (\<lambda>_. buf0), disk = (\<lambda>_ _. 0), dtrace = [], l_start = 2, l_size = 30, l_outstanding = 0, l_committing = False,
     l_dev = 1, l_n = 0, l_block = (\<lambda>_. 0),
     sb = \<lparr>sb_magic = FSMAGIC, sb_size = 1000, sb_nblocks = 953, sb_ninodes = 200, sb_nlog = 30, sb_logstart = 2,
           sb_inodestart = 32, sb_bmapstart = 45\<rparr>, itable = (\<lambda>_. boot_inode),
     pipes = (\<lambda>_. \<lparr>pi_data = (\<lambda>_. 0), pi_nread = 0, pi_nwrite = 0, pi_readopen = True, pi_writeopen = True\<rparr>)\<rparr>"

section \<open>A pipe is a queue of bytes\<close>

text \<open>The bytes in a pipe, oldest first; there are at most 512.\<close>

definition pipe_ok :: "pipe \<Rightarrow> bool" where
  "pipe_ok p \<longleftrightarrow> unat (pi_nwrite p - pi_nread p) \<le> PIPESIZE"

definition pipe_bytes :: "pipe \<Rightarrow> uchar list" where
  "pipe_bytes p = ring_list PIPESIZE (pi_data p) (pi_nread p) (unat (pi_nwrite p - pi_nread p))"

lemma pipe_ok_length: "pipe_ok p \<longleftrightarrow> length (pipe_bytes p) \<le> PIPESIZE"
  by (simp add: pipe_ok_def pipe_bytes_def)

interpretation pr: ring PIPESIZE "TYPE(32)"
  by unfold_locales (auto intro!: dvd_triv_right [of _ 8388608, simplified] simp: dvd_def)

lemma pipe_put_bytes:
  assumes "pipe_ok p" "pi_nwrite p \<noteq> pi_nread p + of_nat PIPESIZE"
  shows "pipe_ok (pipe_put c p)" "pipe_bytes (pipe_put c p) = pipe_bytes p @ [c]" "length (pipe_bytes p) < PIPESIZE"
proof -
  let ?k = "unat (pi_nwrite p - pi_nread p)"
  note k = pr.ring_count_Suc [OF assms(1) [unfolded pipe_ok_def] assms(2)]
  show "pipe_ok (pipe_put c p)" using k by (simp add: pipe_ok_def pipe_put_def)
  show "length (pipe_bytes p) < PIPESIZE" using k(1) by (simp add: pipe_bytes_def)
  have "pipe_bytes (pipe_put c p) =
      ring_list PIPESIZE ((pi_data p)(ring_slot PIPESIZE (pi_nread p + of_nat ?k) := c)) (pi_nread p) (Suc ?k)"
    unfolding k(3) using k(2) by (simp add: pipe_bytes_def pipe_put_def ring_slot_def)
  also have "\<dots> = pipe_bytes p @ [c]" unfolding pipe_bytes_def by (rule pr.ring_append [OF k(1)])
  finally show "pipe_bytes (pipe_put c p) = pipe_bytes p @ [c]" .
qed

lemma pipe_get_bytes:
  assumes "pipe_ok p" "pi_nread p \<noteq> pi_nwrite p" "pipe_get p = (c, q)"
  shows "pipe_ok q" "pipe_bytes p = c # pipe_bytes q"
proof -
  note k = pr.ring_count_pop [of "pi_nwrite p" "pi_nread p"]
  show "pipe_ok q" using k assms by (auto simp: pipe_ok_def pipe_get_def)
  show "pipe_bytes p = c # pipe_bytes q"
    using k assms(2,3) by (auto simp: pipe_bytes_def pipe_get_def pr.ring_pop ring_slot_def)
qed

lemma pipe_empty: "pi_nread p = pi_nwrite p \<longleftrightarrow> pipe_bytes p = []"
  by (auto simp: pipe_bytes_def ring_list_def unat_eq_0)

lemma pipe_full: "pi_nwrite p = pi_nread p + of_nat PIPESIZE \<Longrightarrow> length (pipe_bytes p) = PIPESIZE"
  by (simp add: pipe_bytes_def)

lemma pipewrite_step_eq:
  "pipewrite_step pi a n j t =
     (if int j < n then
        if \<not> pi_readopen (pipes t pi) \<or> p_killed (myproc t) \<noteq> 0 then Ret (Inr (Inr (-1))) t
        else if pi_nwrite (pipes t pi) = pi_nread (pipes t pi) + of_nat PIPESIZE then
          Ret (Inr (Inl j)) (go_to_sleep (ChPipeWrite pi) (wakeup (ChPipeRead pi) t))
        else case ubyte t (p_pagetable (myproc t)) (a + of_nat j) of
          None \<Rightarrow> Ret (Inr (Inr (int j))) (wakeup (ChPipeRead pi) t)
        | Some b \<Rightarrow> Ret (Inl (Suc j)) (upd_pipe pi (pipe_put b) t)
      else Ret (Inr (Inr (int j))) (wakeup (ChPipeRead pi) t))"
  using copyin_byte [of "p_pagetable (myproc t)" "a + of_nat j" t]
  by (auto simp: pipewrite_step_def kprog_simps split: option.splits)

lemma pipe_sched_simps [simp]: "pipes (wakeup ch s) = pipes s" "pipes (go_to_sleep ch s) = pipes s" "mem (go_to_sleep ch s) = mem s"
  by (simp_all add: wakeup_def go_to_sleep_def upd_proc_def)

text \<open>
  One call of \<^verbatim>\<open>pipewrite\<close>. It does not touch memory or other pipes; what it adds to the queue are the user's bytes.
\<close>

lemma pipewrite_spec:
  fixes s :: "'z pipe_st_scheme"
  assumes "pipe_ok (pipes s pi)"
  shows "\<exists>r s'. pipewrite pi a n i s = Ret r s' \<and> (\<exists>bs.
      ubytes s (p_pagetable (myproc s)) (a + of_nat i) (length bs) = Some bs \<and>
      mem s' = mem s \<and> (\<forall>p. p \<noteq> pi \<longrightarrow> pipes s' p = pipes s p) \<and>
      pipe_ok (pipes s' pi) \<and> pipe_bytes (pipes s' pi) = pipe_bytes (pipes s pi) @ bs \<and>
      (case r of
         Inl j \<Rightarrow> j = i + length bs \<and> int j < n \<and> length (pipe_bytes (pipes s' pi)) = PIPESIZE
       | Inr v \<Rightarrow> v = -1 \<and> bs = [] \<and> int i < n \<and> (\<not> pi_readopen (pipes s pi) \<or> p_killed (myproc s) \<noteq> 0) \<or>
           v = int (i + length bs) \<and> (v \<ge> n \<or> ubyte s (p_pagetable (myproc s)) (a + of_nat (i + length bs)) = None)))"
    (is "\<exists>r s'. _ \<and> (\<exists>bs. ?Q r s' bs)")
proof -
  let ?pt = "p_pagetable (myproc s)"
  let ?I = "\<lambda>j t. \<exists>q bs. t = s\<lparr>pipes := (pipes s)(pi := q)\<rparr> \<and> j = i + length bs \<and> ubytes s ?pt (a + of_nat i) (length bs) = Some bs \<and>
     pipe_ok q \<and> pipe_bytes q = pipe_bytes (pipes s pi) @ bs \<and> (bs \<noteq> [] \<longrightarrow> pi_readopen (pipes s pi) \<and> p_killed (myproc s) = 0) \<and>
     pi_readopen q = pi_readopen (pipes s pi)"
  have "\<exists>r s'. kwhile (pipewrite_step pi a n) i s = Ret r s' \<and> (\<exists>bs. ?Q r s' bs)"
  proof (rule kwhile_total [where I = ?I and f = "\<lambda>j t. nat n - j"])
    show "?I i s" using assms by (intro exI [of _ "pipes s pi"] exI [of _ "[]"]) (simp add: ubytes_def)
    fix j t assume "?I j t"
    then obtain q bs where t: "t = s\<lparr>pipes := (pipes s)(pi := q)\<rparr>" and j: "j = i + length bs"
      and u: "ubytes s ?pt (a + of_nat i) (length bs) = Some bs" and q: "pipe_ok q" "pipe_bytes q = pipe_bytes (pipes s pi) @ bs"
      and k: "bs \<noteq> [] \<longrightarrow> pi_readopen (pipes s pi) \<and> p_killed (myproc s) = 0" "pi_readopen q = pi_readopen (pipes s pi)" by blast
    have pq: "pipes t pi = q" "myproc t = myproc s" "mem t = mem s" by (simp_all add: t myproc_def)
    have ub: "ubyte t ?pt x = ubyte s ?pt x" for x by (rule ubyte_mem) (simp add: pq)
    have o: "\<forall>p. p \<noteq> pi \<longrightarrow> pipes t p = pipes s p" by (simp add: t)
    show "(\<exists>j' t'. pipewrite_step pi a n j t = Ret (Inl j') t' \<and> ?I j' t' \<and> nat n - j' < nat n - j) \<or>
      (\<exists>r s'. pipewrite_step pi a n j t = Ret (Inr r) s' \<and> (\<exists>bs. ?Q r s' bs))"
    proof (cases "int j < n \<and> pi_readopen q \<and> p_killed (myproc s) = 0 \<and> pi_nwrite q \<noteq> pi_nread q + of_nat PIPESIZE \<and>
        ubyte s ?pt (a + of_nat j) \<noteq> None")
      case True
      then obtain b where b: "ubyte s ?pt (a + of_nat j) = Some b" by auto
      have "pipewrite_step pi a n j t = Ret (Inl (Suc j)) (upd_pipe pi (pipe_put b) t)"
        using True b by (simp add: pipewrite_step_eq pq ub)
      moreover have "ubytes s ?pt (a + of_nat i) (Suc (length bs)) = Some (bs @ [b])"
        using ubytes_add [of s ?pt "a + of_nat i" "length bs" 1] u b j by (simp add: ubytes_def add.assoc)
      then have "?I (Suc j) (upd_pipe pi (pipe_put b) t)"
        using pipe_put_bytes(1) [OF q(1), of b] pipe_put_bytes(2) [OF q(1), of b] True q(2) k j
        by (intro exI [of _ "pipe_put b q"] exI [of _ "bs @ [b]"]) (simp add: t upd_pipe_def, simp add: pipe_put_def)
      moreover have "nat n - Suc j < nat n - j" using True by linarith
      ultimately show ?thesis by blast
    next
      case False
      have "\<exists>r s'. pipewrite_step pi a n j t = Ret (Inr r) s' \<and> ?Q r s' bs"
      proof (cases "int j < n \<and> pi_readopen q \<and> p_killed (myproc s) = 0")
        case True
        then show ?thesis using False k j pipe_full [of q]
          by (cases "ubyte s ?pt (a + of_nat j)") (simp_all add: pipewrite_step_eq pq ub u q o)
      next
        case False
        then show ?thesis using k j by (auto simp: pipewrite_step_eq pq ub u q o)
      qed
      then show ?thesis by blast
    qed
  qed
  then show ?thesis by (simp add: pipewrite_def)
qed

lemma piperead_step_eq:
  "piperead_step pi a n i t =
     (if int i < n \<and> pipe_bytes (pipes t pi) \<noteq> [] then
        let (c, q) = pipe_get (pipes t pi); t' = upd_pipe pi (\<lambda>_. q) t;
            va = a + of_nat i; p = xlate t (p_pagetable (myproc t)) (PGROUNDDOWN va)
        in if p = 0 then Ret (Inr i) t' else Ret (Inl (Suc i)) (t'\<lparr>mem := (mem t)(p + (va - PGROUNDDOWN va) := c)\<rparr>)
      else Ret (Inr i) t)"
proof -
  have x: "xlate (upd_pipe pi f t) pt va = xlate t pt va" for f pt va by (rule xlate_mem) (simp add: upd_pipe_def)
  show ?thesis
    by (simp add: piperead_step_def pipe_empty pipe_get_def copyout_byte x kprog_simps Let_def) (simp add: upd_pipe_def myproc_def)
qed

text \<open>A call of \<^verbatim>\<open>piperead\<close> takes bytes from the front of the queue.\<close>

lemma piperead_spec:
  fixes s :: "'z pipe_st_scheme"
  assumes "pipe_ok (pipes s pi)"
  shows "\<exists>r s'. piperead pi a n s = Ret r s' \<and> (\<exists>out.
      pipe_bytes (pipes s pi) = out @ pipe_bytes (pipes s' pi) \<and> pipe_ok (pipes s' pi) \<and>
      (\<forall>p. p \<noteq> pi \<longrightarrow> pipes s' p = pipes s p))"
proof -
  let ?I = "\<lambda>i (t :: 'z pipe_st_scheme). \<exists>out. pipe_bytes (pipes s pi) = out @ pipe_bytes (pipes t pi) \<and> pipe_ok (pipes t pi) \<and>
     (\<forall>p. p \<noteq> pi \<longrightarrow> pipes t p = pipes s p)"
  have "\<exists>i s'. kwhile (piperead_step pi a n) 0 s = Ret i s' \<and> ?I i s'"
  proof (rule kwhile_total [where I = ?I and f = "\<lambda>i t. nat n - i"])
    show "?I 0 s" using assms by simp
    fix i and t :: "'z pipe_st_scheme" assume "?I i t"
    then obtain out where o: "pipe_bytes (pipes s pi) = out @ pipe_bytes (pipes t pi)" "pipe_ok (pipes t pi)"
      "\<forall>p. p \<noteq> pi \<longrightarrow> pipes t p = pipes s p" by blast
    show "(\<exists>i' t'. piperead_step pi a n i t = Ret (Inl i') t' \<and> ?I i' t' \<and> nat n - i' < nat n - i) \<or>
      (\<exists>r s'. piperead_step pi a n i t = Ret (Inr r) s' \<and> ?I r s')"
    proof (cases "int i < n \<and> pipe_bytes (pipes t pi) \<noteq> []")
      case True
      obtain c q where g: "pipe_get (pipes t pi) = (c, q)" by fastforce
      have "pipe_bytes (pipes s pi) = (out @ [c]) @ pipe_bytes q" "pipe_ok q"
        using pipe_get_bytes [OF o(2) _ g] True o(1) pipe_empty by auto
      then have "\<exists>out. pipe_bytes (pipes s pi) = out @ pipe_bytes q" "pipe_ok q" by blast+
      then show ?thesis using True o(3) by (auto simp: piperead_step_eq g Let_def upd_pipe_def)
    next
      case False
      then have "piperead_step pi a n i t = Ret (Inr i) t" unfolding piperead_step_eq by (rule if_not_P)
      then show ?thesis using o by blast
    qed
  qed
  then obtain i s' out where k: "kwhile (piperead_step pi a n) 0 s = Ret i s'" "pipe_bytes (pipes s pi) = out @ pipe_bytes (pipes s' pi)"
     "pipe_ok (pipes s' pi)" "\<forall>p. p \<noteq> pi \<longrightarrow> pipes s' p = pipes s p" by blast
  show ?thesis
  proof (cases "pi_nread (pipes s pi) = pi_nwrite (pipes s pi) \<and> pi_writeopen (pipes s pi)")
    case True
    then show ?thesis using assms by (simp add: piperead_def)
  next
    case False
    then have "piperead pi a n s = Ret (Inr (int i)) (wakeup (ChPipeWrite pi) s')"
      unfolding piperead_def using k(1) by (simp add: kprog_simps)
    then show ?thesis using k(2-) by auto
  qed
qed

text \<open>If the reader's buffer is mapped, the bytes taken are the bytes it gets.\<close>

definition read_upto :: "'z pipe_st_scheme \<Rightarrow> addr \<Rightarrow> addr \<Rightarrow> addr \<Rightarrow> nat \<Rightarrow> 'z pipe_st_scheme \<Rightarrow> uchar list \<Rightarrow> bool" where
  "read_upto s pi pt a i t out \<longleftrightarrow> length out = i \<and>
     pipe_bytes (pipes s pi) = out @ pipe_bytes (pipes t pi) \<and> pipe_ok (pipes t pi) \<and> myproc t = myproc s \<and> uspace_ok t pt \<and>
     (\<forall>x. ubyte t pt x = (if unat (x - a) < i then Some (out ! unat (x - a)) else ubyte s pt x))"

lemma read_upto_step:
  fixes s t :: "'z pipe_st_scheme"
  assumes r: "read_upto s pi pt a i t out" and pt: "pt = p_pagetable (myproc s)" and i: "int i < n" "unat a + i < 2 ^ 64 - 1"
    and u: "ubyte s pt (a + of_nat i) \<noteq> None" and ne: "pipe_bytes (pipes t pi) \<noteq> []"
  shows "\<exists>t' out'. piperead_step pi a n i t = Ret (Inl (Suc i)) t' \<and> read_upto s pi pt a (Suc i) t' out'"
proof -
  obtain c q where g: "pipe_get (pipes t pi) = (c, q)" by fastforce
  have q: "pipe_bytes (pipes t pi) = c # pipe_bytes q" "pipe_ok q"
    using pipe_get_bytes [OF _ _ g] r ne pipe_empty by (auto simp: read_upto_def)
  let ?va = "a + of_nat i" and ?t = "upd_pipe pi (\<lambda>_. q) t"
  have mt: "mem ?t = mem t" by (simp add: upd_pipe_def)
  have un: "unat (of_nat i :: addr) = i" "unat ?va = unat a + i" using i(2) by (simp_all add: unat_of_nat unat_word_ariths)
  have off: "unat (x - a) = i \<longleftrightarrow> x = ?va" for x
    using un(1) word_unat_eq_iff [of "x - a" "of_nat i"] by (auto simp: algebra_simps)
  have "ubyte t pt ?va = ubyte s pt ?va" using r off [of ?va] by (simp add: read_upto_def)
  then have "ubyte ?t pt ?va \<noteq> None" using u ubyte_mem [OF mt] by metis
  then obtain t' where t': "copyout pt ?va (\<lambda>_. c) 1 ?t = Ret 0 t'" "uspace_ok t' pt"
      "\<And>x. ubyte t' pt x = (if unat (x - ?va) < 1 then Some c else ubyte ?t pt x)"
    using copyout_loop [where s = ?t and pt = pt and len = 1 and va = ?va and src = "\<lambda>_. c" and dn = 0] uspace_mem [OF mt] r i(2) un(2)
    by (auto simp: copyout_def read_upto_def)
  have t'_eq: "pipes t' = (pipes t)(pi := q)" "myproc t' = myproc t"
    using t'(1) unfolding copyout_byte by (auto simp: Let_def upd_pipe_def myproc_def split: if_splits)
  have "piperead_step pi a n i t = Ret (Inl (Suc i)) t'"
    using t'(1) i(1) ne pt r by (simp add: piperead_step_def pipe_empty g kprog_simps read_upto_def) (simp add: upd_pipe_def myproc_def kret_def)
  moreover have "ubyte t' pt x = (if unat (x - a) < Suc i then Some ((out @ [c]) ! unat (x - a)) else ubyte s pt x)" for x
  proof (cases "x = ?va")
    case True
    then show ?thesis using t'(3) [of x] r un(1) by (simp add: read_upto_def nth_append)
  next
    case False
    then have "unat (x - ?va) \<noteq> 0" "unat (x - a) \<noteq> i" using off by (auto simp: unat_eq_0)
    then show ?thesis using t'(3) [of x] ubyte_mem [OF mt, of pt x] r by (simp add: read_upto_def nth_append)
  qed
  then have "read_upto s pi pt a (Suc i) t' (out @ [c])"
    using r q t'(2) t'_eq by (simp add: read_upto_def)
  ultimately show ?thesis by blast
qed

lemma piperead_mapped_loop:
  fixes s :: "'z pipe_st_scheme"
  assumes "pipe_ok (pipes s pi)" "uspace_ok s pt" "pt = p_pagetable (myproc s)" "0 \<le> n" "unat a + nat n < 2 ^ 64"
    "\<forall>i<nat n. ubyte s pt (a + of_nat i) \<noteq> None"
  shows "\<exists>i s'. kwhile (piperead_step pi a n) 0 s = Ret i s' \<and>
    (\<exists>out. read_upto s pi pt a i s' out \<and> i = min (nat n) (length (pipe_bytes (pipes s pi))))"
proof (rule kwhile_total [where f = "\<lambda>i t. nat n - i" and I = "\<lambda>i t. i \<le> nat n \<and> (\<exists>out. read_upto s pi pt a i t out)"])
  show "0 \<le> nat n \<and> (\<exists>out. read_upto s pi pt a 0 s out)" using assms by (simp add: read_upto_def)
  fix i and t :: "'z pipe_st_scheme"
  assume "i \<le> nat n \<and> (\<exists>out. read_upto s pi pt a i t out)"
  then obtain out where o: "i \<le> nat n" "read_upto s pi pt a i t out" by blast
  show "(\<exists>i' t'. piperead_step pi a n i t = Ret (Inl i') t' \<and> (i' \<le> nat n \<and> (\<exists>out. read_upto s pi pt a i' t' out)) \<and> nat n - i' < nat n - i) \<or>
    (\<exists>r s'. piperead_step pi a n i t = Ret (Inr r) s' \<and> (\<exists>out. read_upto s pi pt a r s' out \<and> r = min (nat n) (length (pipe_bytes (pipes s pi)))))"
  proof (cases "int i < n \<and> pipe_bytes (pipes t pi) \<noteq> []")
    case True
    then have i: "int i < n" "i < nat n" "pipe_bytes (pipes t pi) \<noteq> []" "unat a + i < 2 ^ 64 - 1" using assms(5) by auto
    obtain t' out' where "piperead_step pi a n i t = Ret (Inl (Suc i)) t'" "read_upto s pi pt a (Suc i) t' out'"
      using read_upto_step [OF o(2) assms(3) i(1,4) _ i(3)] assms(6) i(2) by blast
    then show ?thesis using i(2) by (intro disjI1 exI [of _ "Suc i"] exI [of _ t']) auto
  next
    case False
    then have "piperead_step pi a n i t = Ret (Inr i) t" unfolding piperead_step_eq by (rule if_not_P)
    moreover have "i = min (nat n) (length (pipe_bytes (pipes s pi)))" using False o by (auto simp: read_upto_def)
    ultimately show ?thesis using o by blast
  qed
qed

lemma ubytes_read_upto:
  assumes "read_upto s pi pt a i t out" "i < 2 ^ 64"
  shows "ubytes t pt a i = Some out"
proof -
  have l: "length out = i" using assms(1) by (simp add: read_upto_def)
  have "ubyte t pt (a + of_nat k) = Some (out ! k)" if "k < i" for k
    using assms that by (simp add: read_upto_def unat_of_nat)
  then have "map (\<lambda>k. ubyte t pt (a + of_nat k)) [0 ..< i] = map Some out"
    using l by (intro nth_equalityI) simp_all
  moreover have "those (map Some xs) = Some xs" for xs :: "uchar list" by (induction xs) auto
  ultimately show ?thesis by (simp add: ubytes_def)
qed

lemma piperead_mapped:
  fixes s :: "'z pipe_st_scheme"
  assumes "pipe_ok (pipes s pi)" "pt = p_pagetable (myproc s)" "uspace_ok s pt" "0 \<le> n" "unat a + nat n < 2 ^ 64"
    "\<forall>i<nat n. ubyte s pt (a + of_nat i) \<noteq> None" "pipe_bytes (pipes s pi) \<noteq> [] \<or> \<not> pi_writeopen (pipes s pi)"
  shows "\<exists>s'. let out = take (nat n) (pipe_bytes (pipes s pi)) in
    piperead pi a n s = Ret (Inr (int (length out))) s' \<and> ubytes s' pt a (length out) = Some out \<and>
    pipe_bytes (pipes s' pi) = drop (nat n) (pipe_bytes (pipes s pi)) \<and>
    (\<forall>x. length out \<le> unat (x - a) \<longrightarrow> ubyte s' pt x = ubyte s pt x)"
proof -
  obtain i t out where k: "kwhile (piperead_step pi a n) 0 s = Ret i t" and r: "read_upto s pi pt a i t out"
      and i: "i = min (nat n) (length (pipe_bytes (pipes s pi)))"
    using piperead_mapped_loop [OF assms(1,3,2,4-6)] by blast
  have out: "out = take (nat n) (pipe_bytes (pipes s pi))" "pipe_bytes (pipes t pi) = drop (nat n) (pipe_bytes (pipes s pi))"
    "length out = i"
  proof -
    have b: "pipe_bytes (pipes s pi) = out @ pipe_bytes (pipes t pi)" and l: "length out = i" using r by (simp_all add: read_upto_def)
    show "length out = i" by (rule l)
    have "i = nat n \<or> length (pipe_bytes (pipes t pi)) = 0" "i \<le> nat n" using i l unfolding b length_append by arith+
    then show "out = take (nat n) (pipe_bytes (pipes s pi))" "pipe_bytes (pipes t pi) = drop (nat n) (pipe_bytes (pipes s pi))"
      unfolding b using l by auto
  qed
  have m: "mem (wakeup (ChPipeWrite pi) t) = mem t" by simp
  have "ubytes (wakeup (ChPipeWrite pi) t) pt a i = Some out"
    using ubytes_read_upto [OF r] assms(5) i ubyte_mem [OF m] by (simp add: ubytes_def)
  moreover have "piperead pi a n s = Ret (Inr (int i)) (wakeup (ChPipeWrite pi) t)"
    using assms(7) k pipe_empty [of "pipes s pi"] by (auto simp: piperead_def kprog_simps)
  moreover have "\<forall>x. i \<le> unat (x - a) \<longrightarrow> ubyte (wakeup (ChPipeWrite pi) t) pt x = ubyte s pt x"
    using r ubyte_mem [OF m] by (simp add: read_upto_def)
  ultimately show ?thesis using out by (intro exI [of _ "wakeup (ChPipeWrite pi) t"]) (simp add: Let_def)
qed

text \<open>
  C20. A read from a pipe that has data, or no writer left, delivers exactly the oldest bytes in order, as many as
  there are and fit: they are in the reader's buffer, gone from the pipe, and nothing else of the reader's memory changes.
\<close>

theorem piperead_delivers:
  fixes s :: "'z pipe_st_scheme"
  assumes "pipe_ok (pipes s pi)" "pt = p_pagetable (myproc s)" "uspace_ok s pt" "0 \<le> n" "unat a + nat n < 2 ^ 64"
    "\<forall>i<nat n. ubyte s pt (a + of_nat i) \<noteq> None" "pipe_bytes (pipes s pi) \<noteq> [] \<or> \<not> pi_writeopen (pipes s pi)"
  shows "\<exists>s'. let out = take (nat n) (pipe_bytes (pipes s pi)) in
    piperead pi a n s = Ret (Inr (int (length out))) s' \<and> ubytes s' pt a (length out) = Some out \<and>
    pipe_bytes (pipes s' pi) = drop (nat n) (pipe_bytes (pipes s pi)) \<and>
    (\<forall>x. length out \<le> unat (x - a) \<longrightarrow> ubyte s' pt x = ubyte s pt x)"
  by (rule piperead_mapped [OF assms])

section \<open>Histories of a pipe\<close>

text \<open>
  \<open>pipe_run pi s ws rs\<close>: state \<open>s\<close> is reached by calls of any processes on the pipe, with other kernel steps between them; \<open>ws\<close> is what the
  writers were told is written, \<open>rs\<close> what the readers were given. A call that sleeps is continued from where it stopped.
\<close>

definition put_count :: "nat \<Rightarrow> nat + int \<Rightarrow> nat" where
  "put_count i r = (case r of Inl j \<Rightarrow> j - i | Inr v \<Rightarrow> if v = -1 then 0 else nat v - i)"

inductive pipe_run :: "addr \<Rightarrow> 'z pipe_st_scheme \<Rightarrow> uchar list \<Rightarrow> uchar list \<Rightarrow> bool" for pi where
  fresh: "\<lbrakk>pipe_ok (pipes s pi); pipe_bytes (pipes s pi) = []\<rbrakk> \<Longrightarrow> pipe_run pi s [] []"
| wrote: "\<lbrakk>pipe_run pi s ws rs; pipewrite pi a n i s = Ret r s';
    ubytes s (p_pagetable (myproc s)) (a + of_nat i) (put_count i r) = Some bs\<rbrakk> \<Longrightarrow> pipe_run pi s' (ws @ bs) rs"
| got: "\<lbrakk>pipe_run pi s ws rs; piperead pi a n s = Ret (Inr (int k)) s'; uspace_ok s (p_pagetable (myproc s)); 0 \<le> n;
    unat a + nat n < 2 ^ 64; \<forall>i<nat n. ubyte s (p_pagetable (myproc s)) (a + of_nat i) \<noteq> None;
    ubytes s' (p_pagetable (myproc s)) a k = Some bs\<rbrakk> \<Longrightarrow> pipe_run pi s' ws (rs @ bs)"
| waited: "\<lbrakk>pipe_run pi s ws rs; piperead pi a n s = Ret r s'; r \<in> {Inl 0, Inr (-1)}\<rbrakk> \<Longrightarrow> pipe_run pi s' ws rs"
| other: "\<lbrakk>pipe_run pi s ws rs; pipes s' pi = pipes s pi\<rbrakk> \<Longrightarrow> pipe_run pi s' ws rs"

lemma pipe_run_wrote:
  assumes "pipe_ok (pipes s pi)" "pipewrite pi a n i s = Ret r s'"
    "ubytes s (p_pagetable (myproc s)) (a + of_nat i) (put_count i r) = Some bs"
  shows "pipe_ok (pipes s' pi) \<and> pipe_bytes (pipes s' pi) = pipe_bytes (pipes s pi) @ bs"
proof -
  have n: "nat (int i + int k) - i = k" for k by linarith
  show ?thesis using pipewrite_spec [OF assms(1), of a n i] assms(2,3) by (auto simp: put_count_def n split: sum.splits)
qed

lemma piperead_asleep:
  assumes "piperead pi a n s = Ret r s'" "r \<in> {Inl 0, Inr (-1)}"
  shows "pipes s' pi = pipes s pi"
proof (cases "pi_nread (pipes s pi) = pi_nwrite (pipes s pi) \<and> pi_writeopen (pipes s pi)")
  case True
  then show ?thesis using assms by (auto simp: piperead_def split: if_splits)
next
  case False
  then have "\<exists>j. r = Inr (int j)"
    using assms(1) by (auto simp: piperead_def kbind_def kprog_simps split: if_splits outcome.splits)
  then show ?thesis using assms(2) by auto
qed

lemma piperead_count:
  assumes "piperead pi a n s = Ret (Inr (int k)) s'"
  shows "pipe_bytes (pipes s pi) \<noteq> [] \<or> \<not> pi_writeopen (pipes s pi)"
  using assms pipe_empty [of "pipes s pi"] by (auto simp: piperead_def split: if_splits)

lemma pipe_run_got:
  assumes "pipe_ok (pipes s pi)" "piperead pi a n s = Ret (Inr (int k)) s'" "uspace_ok s (p_pagetable (myproc s))" "0 \<le> n"
    "unat a + nat n < 2 ^ 64" "\<forall>i<nat n. ubyte s (p_pagetable (myproc s)) (a + of_nat i) \<noteq> None"
    "ubytes s' (p_pagetable (myproc s)) a k = Some bs"
  shows "pipe_bytes (pipes s pi) = bs @ pipe_bytes (pipes s' pi) \<and> pipe_ok (pipes s' pi)"
proof -
  have "pipe_ok (pipes s' pi)" using piperead_spec [OF assms(1), of a n] assms(2) by auto
  moreover have "bs = take (nat n) (pipe_bytes (pipes s pi)) \<and> pipe_bytes (pipes s' pi) = drop (nat n) (pipe_bytes (pipes s pi))"
    using piperead_mapped [OF assms(1) refl assms(3-6) piperead_count [OF assms(2)]] assms(2,7) by (auto simp: Let_def)
  ultimately show ?thesis by simp
qed


section \<open>A pipe between a writer and a reader\<close>

text \<open>A state whose process has one page of memory, and an empty pipe.\<close>

lemma boot_pipe_ready:
  obtains s :: pipe_st where "uspace_ok s 0x80001000" "p_pagetable (myproc s) = 0x80001000" "pipe_ok (pipes s 0x80006000)"
    "pipe_bytes (pipes s 0x80006000) = []" "\<And>x. unat x < 4096 \<Longrightarrow> ubyte s 0x80001000 x \<noteq> None" "p_killed (myproc s) = 0"
    "pi_readopen (pipes s p)"
proof -
  obtain t :: kmem_st where t: "uspace_ok t 0x80001000" "xlate t 0x80001000 0 = 0x80004000"
    using small_space by blast
  let ?s = "boot_pipe (mem t)"
  have m: "mem ?s = mem t" by (simp add: boot_pipe_def)
  have "ubyte ?s 0x80001000 x \<noteq> None" if "unat x < 4096" for x
  proof -
    have "PGROUNDDOWN x = 0" using that by (simp add: word_unat_eq_iff unat_PGROUNDDOWN)
    then show ?thesis using t(2) by (simp add: ubyte_mem [OF m]) (simp add: ubyte_def)
  qed
  then show thesis
    using that [of ?s] t(1) uspace_mem [OF m]
    by (simp add: boot_pipe_def myproc_def boot_proc_def pipe_ok_def pipe_bytes_def)
qed

theorem piperead_delivers_witness:
  "\<exists>s s' :: pipe_st. pipe_bytes (pipes s 0x80006000) = [5] \<and> piperead 0x80006000 0 3 s = Ret (Inr 1) s' \<and>
     ubytes s' 0x80001000 0 1 = Some [5] \<and> pipe_bytes (pipes s' 0x80006000) = []"
proof -
  obtain s :: pipe_st where s: "uspace_ok s 0x80001000" "p_pagetable (myproc s) = 0x80001000" "pipe_ok (pipes s 0x80006000)"
    "pipe_bytes (pipes s 0x80006000) = []" "\<And>x. unat x < 4096 \<Longrightarrow> ubyte s 0x80001000 x \<noteq> None"
    using boot_pipe_ready by metis
  let ?s = "upd_pipe 0x80006000 (pipe_put 5) s"
  have m: "mem ?s = mem s" by (simp add: upd_pipe_def)
  have "pi_nwrite (pipes s 0x80006000) \<noteq> pi_nread (pipes s 0x80006000) + of_nat PIPESIZE"
    using s(4) pipe_full by force
  note p = pipe_put_bytes(1,2) [OF s(3) this]
  have b: "pipe_bytes (pipes ?s 0x80006000) = [5]" "pipe_ok (pipes ?s 0x80006000)"
    using p s(4) by (simp_all add: upd_pipe_def)
  have pt: "0x80001000 = p_pagetable (myproc ?s)" using s(2) by (simp add: upd_pipe_def myproc_def)
  have u: "uspace_ok ?s 0x80001000" using s(1) uspace_mem [OF m] by simp
  have "\<forall>i<nat 3. ubyte ?s 0x80001000 (0 + of_nat i) \<noteq> None" using s(5) by (simp add: ubyte_mem [OF m] unat_of_nat)
  from piperead_delivers [OF b(2) pt u _ _ this] b(1) obtain s' where
    "piperead 0x80006000 0 3 ?s = Ret (Inr 1) s'" "ubytes s' 0x80001000 0 1 = Some [5]" "pipe_bytes (pipes s' 0x80006000) = []"
    by (auto simp: Let_def)
  with b(1) show ?thesis by blast
qed

lemma boot_pipe_write:
  obtains s :: pipe_st and b where "pipe_run 0x80006000 s [b] []" "uspace_ok s (p_pagetable (myproc s))"
    "\<And>x. unat x < 4096 \<Longrightarrow> ubyte s (p_pagetable (myproc s)) x \<noteq> None"
proof -
  obtain s :: pipe_st where s: "uspace_ok s 0x80001000" "p_pagetable (myproc s) = 0x80001000" "pipe_ok (pipes s 0x80006000)"
    "pipe_bytes (pipes s 0x80006000) = []" "\<And>x. unat x < 4096 \<Longrightarrow> ubyte s 0x80001000 x \<noteq> None" "p_killed (myproc s) = 0"
    "pi_readopen (pipes s 0x80006000)"
    using boot_pipe_ready [of "0x80006000"] by metis
  obtain b where b: "ubyte s 0x80001000 0 = Some b" using s(5) [of 0] by auto
  have "pi_nwrite (pipes s 0x80006000) \<noteq> pi_nread (pipes s 0x80006000) + of_nat PIPESIZE"
    using s(4) pipe_full by force
  then have st: "pipewrite_step 0x80006000 0 1 0 s = Ret (Inl 1) (upd_pipe 0x80006000 (pipe_put b) s)"
    using s b by (simp add: pipewrite_step_eq)
  let ?s = "wakeup (ChPipeRead 0x80006000) (upd_pipe 0x80006000 (pipe_put b) s)"
  have w: "pipewrite 0x80006000 0 1 0 s = Ret (Inr 1) ?s"
    unfolding pipewrite_def by (subst kwhile_unfold, simp add: st, subst kwhile_unfold, simp add: pipewrite_step_eq)
  have "ubytes s (p_pagetable (myproc s)) (0 + of_nat 0) (put_count 0 (Inr 1)) = Some [b]"
    using b s(2) by (simp add: ubytes_def put_count_def)
  from pipe_run.wrote [OF pipe_run.fresh [where s = s and pi = "0x80006000", OF s(3,4)] w this] have r: "pipe_run 0x80006000 ?s [b] []" by simp
  have m: "mem ?s = mem s" by (simp add: upd_pipe_def)
  have "p_pagetable (myproc ?s) = 0x80001000" using s(2) by (simp add: upd_pipe_def) (simp add: myproc_def)
  then show thesis using r s(1,5) uspace_mem [OF m] ubyte_mem [OF m] by (intro that [of ?s b]) simp_all
qed


end
