(* ===== verification/File.thy ===== *)
theory File
  imports Pipe
begin

text \<open>
  The table of open files, \<^verbatim>\<open>kernel/file.c\<close>, and \<^verbatim>\<open>pipealloc\<close> of \<^verbatim>\<open>kernel/pipe.c\<close>. A pointer to a \<^verbatim>\<open>struct file\<close> is
  its index in \<^verbatim>\<open>ftable.file[]\<close>. The device switch \<^verbatim>\<open>devsw[]\<close> is an argument of the routines that call through it: for every major
  number the read and the write function, if they are set.
\<close>

abbreviation NFILE :: nat where "NFILE \<equiv> 100"
abbreviation NDEV :: nat where "NDEV \<equiv> 10"

datatype filetype = FD_NONE | FD_PIPE | FD_INODE | FD_DEVICE

record kfile =
  f_type :: filetype
  f_ref :: int
  f_readable :: bool
  f_writable :: bool
  f_pipe :: addr
  f_ip :: nat
  f_off :: uint
  f_major :: short

record file_st = pipe_st +
  ftable :: "nat \<Rightarrow> kfile"

text \<open>A device read or write: the user address, the count, and how much is already done.\<close>

type_synonym 's devfun = "addr \<Rightarrow> int \<Rightarrow> nat \<Rightarrow> ('s, nat + int) kprog"
type_synonym 's devsw = "nat \<Rightarrow> 's devfun option \<times> 's devfun option"

definition upd_file :: "nat \<Rightarrow> (kfile \<Rightarrow> kfile) \<Rightarrow> 'z file_st_scheme \<Rightarrow> 'z file_st_scheme" where
  "upd_file f g s = s\<lparr>ftable := (ftable s)(f := g (ftable s f))\<rparr>"

definition filealloc :: "('z file_st_scheme, nat option) kprog" where
  "filealloc = (\<lambda>s.
     case List.find (\<lambda>f. f_ref (ftable s f) = 0) [0 ..< NFILE] of
       Some f \<Rightarrow> Ret (Some f) (upd_file f (\<lambda>x. x\<lparr>f_ref := 1\<rparr>) s)
     | None \<Rightarrow> Ret None s)"

definition filedup :: "nat \<Rightarrow> ('z file_st_scheme, nat) kprog" where
  "filedup f = (\<lambda>s.
     if f_ref (ftable s f) < 1 then Panic ''filedup''
     else Ret f (upd_file f (\<lambda>x. x\<lparr>f_ref := f_ref x + 1\<rparr>) s))"

definition fileclose :: "nat \<Rightarrow> ('z file_st_scheme, unit) kprog" where
  "fileclose f = (\<lambda>s.
     if f_ref (ftable s f) < 1 then Panic ''fileclose''
     else
       let s = upd_file f (\<lambda>x. x\<lparr>f_ref := f_ref x - 1\<rparr>) s in
       if f_ref (ftable s f) > 0 then Ret () s
       else
         let ff = ftable s f; s = upd_file f (\<lambda>x. x\<lparr>f_ref := 0, f_type := FD_NONE\<rparr>) s in
         if f_type ff = FD_PIPE then pipeclose (f_pipe ff) (f_writable ff) s
         else if f_type ff = FD_INODE \<or> f_type ff = FD_DEVICE
         then kthen begin_op (kthen (iput (f_ip ff)) end_op) s
         else Ret () s)"

text \<open>The 24 bytes of \<^verbatim>\<open>struct stat\<close>; the four bytes of padding keep what the stack held, \<open>junk\<close>.\<close>

definition stat_bytes :: "stat \<Rightarrow> cptr \<Rightarrow> cptr" where
  "stat_bytes st junk =
     le_put 8 16 (st_size st) (put16 10 (st_nlink st) (put16 8 (st_type st)
       (put32 4 (st_ino st) (put32 0 (word_of_int (st_dev st)) junk))))"

definition filestat :: "cptr \<Rightarrow> nat \<Rightarrow> addr \<Rightarrow> ('z file_st_scheme, int) kprog" where
  "filestat junk f addr = (\<lambda>s.
     if f_type (ftable s f) = FD_INODE \<or> f_type (ftable s f) = FD_DEVICE then
       let ip = f_ip (ftable s f) in
       kthen (ilock ip)
      (kbind (kget (\<lambda>s. stati (itable s ip))) (\<lambda>st.
       kthen (iunlock ip)
      (kbind (\<lambda>s. copyout (p_pagetable (myproc s)) addr (stat_bytes st junk) 24 s) (\<lambda>r.
         if r < 0 then kret (-1) else kret 0)))) s
     else Ret (-1) s)"

definition fileread ::
  "('z file_st_scheme) devsw \<Rightarrow> nat \<Rightarrow> addr \<Rightarrow> int \<Rightarrow> nat \<Rightarrow> ('z file_st_scheme, nat + int) kprog" where
  "fileread devsw f addr n i = (\<lambda>s.
     let x = ftable s f in
     if \<not> f_readable x then Ret (Inr (-1)) s
     else case f_type x of
       FD_PIPE \<Rightarrow> piperead (f_pipe x) addr n s
     | FD_DEVICE \<Rightarrow>
         if sint (f_major x) < 0 \<or> sint (f_major x) \<ge> int NDEV then Ret (Inr (-1)) s
         else (case fst (devsw (unat (f_major x))) of
                 None \<Rightarrow> Ret (Inr (-1)) s | Some rd \<Rightarrow> rd addr n i s)
     | FD_INODE \<Rightarrow>
         kthen (ilock (f_ip x))
        (kbind (readi (f_ip x) (DUser addr) (f_off x) (word_of_int n)) (\<lambda>(r, _).
         kthen (if sint r > 0 then kmod (upd_file f (\<lambda>x. x\<lparr>f_off := f_off x + r\<rparr>)) else kret ())
        (kthen (iunlock (f_ip x)) (kret (Inr (sint r)))))) s
     | FD_NONE \<Rightarrow> Panic ''fileread'')"

text \<open>One round of the loop of \<^verbatim>\<open>filewrite\<close>: a transaction that writes at most three blocks.\<close>

definition filewrite_step :: "nat \<Rightarrow> addr \<Rightarrow> int \<Rightarrow> int \<Rightarrow> ('z file_st_scheme, int + int) kprog" where
  "filewrite_step f addr n i = (\<lambda>s.
     if i < n then
       let ip = f_ip (ftable s f); n1 = min (n - i) (3 * int BSIZE) in
       kthen begin_op
      (kthen (ilock ip)
      (kbind (\<lambda>s. writei ip (SUser (addr + word_of_int i)) (f_off (ftable s f)) (word_of_int n1) s) (\<lambda>r.
       kthen (if sint r > 0 then kmod (upd_file f (\<lambda>x. x\<lparr>f_off := f_off x + r\<rparr>)) else kret ())
      (kthen (iunlock ip)
      (kthen end_op
        (if sint r \<noteq> n1 then kret (Inr i) else kret (Inl (i + sint r)))))))) s
     else Ret (Inr i) s)"

definition filewrite ::
  "('z file_st_scheme) devsw \<Rightarrow> nat \<Rightarrow> addr \<Rightarrow> int \<Rightarrow> nat \<Rightarrow> ('z file_st_scheme, nat + int) kprog" where
  "filewrite devsw f addr n i = (\<lambda>s.
     let x = ftable s f in
     if \<not> f_writable x then Ret (Inr (-1)) s
     else case f_type x of
       FD_PIPE \<Rightarrow> pipewrite (f_pipe x) addr n i s
     | FD_DEVICE \<Rightarrow>
         if sint (f_major x) < 0 \<or> sint (f_major x) \<ge> int NDEV then Ret (Inr (-1)) s
         else (case snd (devsw (unat (f_major x))) of
                 None \<Rightarrow> Ret (Inr (-1)) s | Some wr \<Rightarrow> wr addr n i s)
     | FD_INODE \<Rightarrow>
         kbind (kwhile (filewrite_step f addr n) 0) (\<lambda>j. kret (Inr (if j = n then n else -1))) s
     | FD_NONE \<Rightarrow> Panic ''filewrite'')"

text \<open>\<^verbatim>\<open>pipealloc\<close>: the two ends, or nothing after undoing what was allocated.\<close>

definition pipealloc :: "('z file_st_scheme, (nat \<times> nat) option) kprog" where
  "pipealloc =
     kbind filealloc (\<lambda>f0. case f0 of
       None \<Rightarrow> kret None
     | Some r \<Rightarrow>
         kbind filealloc (\<lambda>f1. case f1 of
           None \<Rightarrow> kthen (fileclose r) (kret None)
         | Some w \<Rightarrow>
             kbind kalloc (\<lambda>pi.
               if pi = 0 then kthen (fileclose r) (kthen (fileclose w) (kret None))
               else
                 kthen (kmod (upd_pipe pi (\<lambda>p. p\<lparr>pi_readopen := True, pi_writeopen := True, pi_nwrite := 0, pi_nread := 0\<rparr>)))
                (kthen (kmod (upd_file r (\<lambda>x. x\<lparr>f_type := FD_PIPE, f_readable := True, f_writable := False, f_pipe := pi\<rparr>)))
                (kthen (kmod (upd_file w (\<lambda>x. x\<lparr>f_type := FD_PIPE, f_readable := False, f_writable := True, f_pipe := pi\<rparr>)))
                   (kret (Some (r, w))))))))"

definition boot_file :: "memory \<Rightarrow> file_st" where
  "boot_file m = pipe_st.extend (boot_pipe m)
     \<lparr>ftable = (\<lambda>_. \<lparr>f_type = FD_NONE, f_ref = 0, f_readable = False, f_writable = False, f_pipe = 0, f_ip = 0, f_off = 0, f_major = 0\<rparr>)\<rparr>"

end
