(* ===== verification/Proc.thy ===== *)
theory Proc
  imports File
begin

text \<open>
  Process management, \<^verbatim>\<open>kernel/proc.c\<close>: creation, termination, waiting, scheduling states, kernel stacks. A
  pointer to a \<^verbatim>\<open>struct proc\<close> is its index in \<^verbatim>\<open>proc[]\<close>; \<^verbatim>\<open>wait_lock\<close> and the per-process locks make each routine below one
  step. Addresses that the linker assigns are the fields of an argument.
\<close>

record ksyms =
  ks_trampoline :: addr
  ks_forkret :: uint64
  ks_etext :: addr
  ks_kernelvec :: uint64
  ks_uservec :: addr
  ks_userret :: addr
  ks_usertrap :: uint64

section \<open>Boot\<close>

definition proc_mapstacks :: "addr \<Rightarrow> ('z proc_st_scheme, unit) kprog" where
  "proc_mapstacks kpgtbl = kfor [0 ..< NPROC] (\<lambda>p.
     kbind kalloc (\<lambda>pa.
       if pa = 0 then kpanic ''kalloc''
       else kvmmap kpgtbl (KSTACK p) pa PGSIZE (PTE_R OR PTE_W)))"

definition procinit :: "('z proc_st_scheme, unit) kprog" where
  "procinit = kmod (\<lambda>s. s\<lparr>procs := (\<lambda>p. if p < NPROC then (procs s p)\<lparr>p_kstack := KSTACK p\<rparr> else procs s p)\<rparr>)"

section \<open>Creating and destroying processes\<close>

text \<open>\<^verbatim>\<open>nextpid\<close> is an \<^verbatim>\<open>int\<close>; the addition wraps.\<close>

definition allocpid :: "('z proc_st_scheme, int) kprog" where
  "allocpid = (\<lambda>s. Ret (nextpid s) (s\<lparr>nextpid := sint (word_of_int (nextpid s + 1) :: uint)\<rparr>))"

definition proc_pagetable :: "ksyms \<Rightarrow> nat \<Rightarrow> ('z proc_st_scheme, addr) kprog" where
  "proc_pagetable K p =
     kbind uvmcreate (\<lambda>pagetable.
       if pagetable = 0 then kret 0
       else kbind (mappages pagetable TRAMPOLINE PGSIZE (ks_trampoline K) (PTE_R OR PTE_X)) (\<lambda>r.
         if r < 0 then kthen (uvmfree pagetable 0) (kret 0)
         else kbind (\<lambda>s. mappages pagetable TRAPFRAME PGSIZE (p_trapframe (procs s p)) (PTE_R OR PTE_W) s) (\<lambda>r.
           if r < 0 then kthen (uvmunmap pagetable TRAMPOLINE 1 False) (kthen (uvmfree pagetable 0) (kret 0))
           else kret pagetable)))"

definition proc_freepagetable :: "addr \<Rightarrow> uint64 \<Rightarrow> ('z proc_st_scheme, unit) kprog" where
  "proc_freepagetable pagetable sz =
     kthen (uvmunmap pagetable TRAMPOLINE 1 False)
    (kthen (uvmunmap pagetable TRAPFRAME 1 False) (uvmfree pagetable sz))"

definition freeproc :: "nat \<Rightarrow> ('z proc_st_scheme, unit) kprog" where
  "freeproc p =
     kthen (\<lambda>s. if p_trapframe (procs s p) \<noteq> 0 then kfree (p_trapframe (procs s p)) s else Ret () s)
    (kthen (kmod (upd_proc p (\<lambda>x. x\<lparr>p_trapframe := 0\<rparr>)))
    (kthen (\<lambda>s. if p_pagetable (procs s p) \<noteq> 0 then proc_freepagetable (p_pagetable (procs s p)) (p_sz (procs s p)) s else Ret () s)
       (kmod (upd_proc p (\<lambda>x. x\<lparr>p_pagetable := 0, p_sz := 0, p_pid := 0, p_parent := None, p_name := (p_name x)(0 := 0),
          p_chan := ChNull, p_killed := 0, p_xstate := 0, p_state := UNUSED\<rparr>)))))"

definition allocproc :: "ksyms \<Rightarrow> ('z proc_st_scheme, nat option) kprog" where
  "allocproc K = (\<lambda>s.
     case List.find (\<lambda>p. p_state (procs s p) = UNUSED) [0 ..< NPROC] of
       None \<Rightarrow> Ret None s
     | Some p \<Rightarrow>
         kbind allocpid (\<lambda>pid.
         kthen (kmod (upd_proc p (\<lambda>x. x\<lparr>p_pid := pid, p_state := USED\<rparr>)))
        (kbind kalloc (\<lambda>tf.
         kthen (kmod (upd_proc p (\<lambda>x. x\<lparr>p_trapframe := tf\<rparr>)))
        (if tf = 0 then kthen (freeproc p) (kret None)
         else kbind (proc_pagetable K p) (\<lambda>pt.
           kthen (kmod (upd_proc p (\<lambda>x. x\<lparr>p_pagetable := pt\<rparr>)))
          (if pt = 0 then kthen (freeproc p) (kret None)
           else kthen (kmod (upd_proc p (\<lambda>x. x\<lparr>p_context := \<lparr>c_ra = ks_forkret K, c_sp = p_kstack x + PGSIZE, c_s = (\<lambda>_. 0)\<rparr>\<rparr>)))
                  (kret (Some p)))))))) s)"

definition initcode :: "uchar list" where
  "initcode =
    [0x17, 0x05, 0x00, 0x00, 0x13, 0x05, 0x45, 0x02,
     0x97, 0x05, 0x00, 0x00, 0x93, 0x85, 0x35, 0x02,
     0x93, 0x08, 0x70, 0x00, 0x73, 0x00, 0x00, 0x00,
     0x93, 0x08, 0x20, 0x00, 0x73, 0x00, 0x00, 0x00,
     0xef, 0xf0, 0x9f, 0xff, 0x2f, 0x69, 0x6e, 0x69,
     0x74, 0x00, 0x00, 0x24, 0x00, 0x00, 0x00, 0x00,
     0x00, 0x00, 0x00, 0x00]"

text \<open>A C string literal as the array of its characters, and the registers in a trapframe page.\<close>

definition cstr :: "string \<Rightarrow> cptr" where
  "cstr xs = (\<lambda>i. if i < length xs then of_char (xs ! i) else 0)"

definition set_tf :: "nat \<Rightarrow> addr \<Rightarrow> uint64 \<Rightarrow> 'z proc_st_scheme \<Rightarrow> 'z proc_st_scheme" where
  "set_tf p off v s = s\<lparr>mem := write64 (p_trapframe (procs s p) + off) v (mem s)\<rparr>"

definition userinit :: "ksyms \<Rightarrow> ('z fs_st_scheme, unit) kprog" where
  "userinit K =
     kbind (allocproc K) (\<lambda>r. case r of
       None \<Rightarrow> kpanic ''kerneltrap''
     | Some p \<Rightarrow>
         kthen (kmod (\<lambda>s. s\<lparr>initproc := p\<rparr>))
        (kthen (\<lambda>s. uvminit (p_pagetable (procs s p)) (buf_view initcode) 52 s)
        (kthen (kmod (upd_proc p (\<lambda>x. x\<lparr>p_sz := PGSIZE\<rparr>)))
        (kthen (kmod (set_tf p tf_epc 0))
        (kthen (kmod (set_tf p tf_sp PGSIZE))
        (kthen (kmod (upd_proc p (\<lambda>x. x\<lparr>p_name := safestrcpy (p_name x) (cstr ''initcode'') 16\<rparr>)))
        (kbind (namei [47]) (\<lambda>cwd.
           kmod (upd_proc p (\<lambda>x. x\<lparr>p_cwd := cwd, p_state := RUNNABLE\<rparr>))))))))))"

text \<open>\<^verbatim>\<open>growproc\<close> keeps the size in a 32-bit variable.\<close>

definition growproc :: "int \<Rightarrow> ('z proc_st_scheme, int) kprog" where
  "growproc n = (\<lambda>s.
     let p = myproc s; sz = (ucast (p_sz p) :: uint) in
     if n > 0 then
       kbind (uvmalloc (p_pagetable p) (ucast sz) (ucast (sz + word_of_int n))) (\<lambda>r.
         let sz = (ucast r :: uint) in
         if sz = 0 then kret (-1)
         else kthen (kmod (\<lambda>s. upd_proc (cur s) (\<lambda>x. x\<lparr>p_sz := ucast sz\<rparr>) s)) (kret 0)) s
     else if n < 0 then
       kbind (uvmdealloc (p_pagetable p) (ucast sz) (ucast (sz + word_of_int n))) (\<lambda>r.
         kthen (kmod (\<lambda>s. upd_proc (cur s) (\<lambda>x. x\<lparr>p_sz := ucast (ucast r :: uint)\<rparr>) s)) (kret 0)) s
     else Ret 0 (upd_proc (cur s) (\<lambda>x. x\<lparr>p_sz := ucast sz\<rparr>) s))"

definition fork_files :: "nat \<Rightarrow> ('z file_st_scheme, unit) kprog" where
  "fork_files np = kfor [0 ..< NOFILE] (\<lambda>i s.
     case p_ofile (myproc s) i of
       None \<Rightarrow> Ret () s
     | Some f \<Rightarrow> kbind (filedup f) (\<lambda>f. kmod (upd_proc np (\<lambda>x. x\<lparr>p_ofile := (p_ofile x)(i := Some f)\<rparr>))) s)"

definition fork :: "ksyms \<Rightarrow> ('z file_st_scheme, int) kprog" where
  "fork K =
     kbind (allocproc K) (\<lambda>r. case r of
       None \<Rightarrow> kret (-1)
     | Some np \<Rightarrow>
         kbind (\<lambda>s. uvmcopy (p_pagetable (myproc s)) (p_pagetable (procs s np)) (p_sz (myproc s)) s) (\<lambda>r.
           if r < 0 then kthen (freeproc np) (kret (-1))
           else
             kthen (kmod (\<lambda>s. upd_proc np (\<lambda>x. x\<lparr>p_sz := p_sz (myproc s)\<rparr>) s))
            (kthen (kmod (\<lambda>s. s\<lparr>mem := memmove (p_trapframe (procs s np)) (p_trapframe (myproc s)) 288 (mem s)\<rparr>))
            (kthen (kmod (set_tf np tf_a0 0))
            (kthen (fork_files np)
            (kbind (\<lambda>s. case p_cwd (myproc s) of None \<Rightarrow> Panic ''kerneltrap'' | Some ip \<Rightarrow> idup ip s) (\<lambda>ip.
             kthen (kmod (\<lambda>s. upd_proc np (\<lambda>x. x\<lparr>p_cwd := Some ip, p_name := safestrcpy (p_name x) (p_name (myproc s)) 16,
                p_parent := Some (cur s), p_state := RUNNABLE\<rparr>) s))
               (kget (\<lambda>s. p_pid (procs s np))))))))))"

section \<open>Giving up the CPU\<close>

text \<open>
  The process half of a context switch, \<^verbatim>\<open>sched\<close>. The slot number \<open>NPROC\<close> stands for no running process.
\<close>

definition sched_out :: "('z proc_st_scheme, unit) kprog" where
  "sched_out = (\<lambda>s. if p_state (myproc s) = RUNNING then Panic ''sched running'' else Ret () (s\<lparr>cur := NPROC\<rparr>))"

section \<open>Exiting and waiting\<close>

definition reparent :: "nat \<Rightarrow> 'z proc_st_scheme \<Rightarrow> 'z proc_st_scheme" where
  "reparent p s = fold (\<lambda>pp s.
     if p_parent (procs s pp) = Some p
     then wakeup (ChProc (initproc s)) (upd_proc pp (\<lambda>x. x\<lparr>p_parent := Some (initproc s)\<rparr>) s)
     else s) [0 ..< NPROC] s"

definition close_all :: "('z file_st_scheme, unit) kprog" where
  "close_all = kfor [0 ..< NOFILE] (\<lambda>fd s.
     case p_ofile (myproc s) fd of
       None \<Rightarrow> Ret () s
     | Some f \<Rightarrow> kthen (fileclose f) (kmod (\<lambda>s. upd_proc (cur s) (\<lambda>x. x\<lparr>p_ofile := (p_ofile x)(fd := None)\<rparr>) s)) s)"

text \<open>
  \<^verbatim>\<open>exit\<close> ends in the scheduler, with the process a zombie; the locked part from \<^verbatim>\<open>reparent\<close> on is \<open>exit_tail\<close>.
\<close>

definition exit_tail :: "int \<Rightarrow> 'z proc_st_scheme \<Rightarrow> 'z proc_st_scheme" where
  "exit_tail status s =
     (let s = reparent (cur s) s;
          s = wakeup (case p_parent (myproc s) of None \<Rightarrow> ChNull | Some q \<Rightarrow> ChProc q) s
      in upd_proc (cur s) (\<lambda>x. x\<lparr>p_xstate := status, p_state := ZOMBIE\<rparr>) s)"

definition exit :: "int \<Rightarrow> ('z file_st_scheme, unit) kprog" where
  "exit status = (\<lambda>s.
     if cur s = initproc s then Panic ''init exiting''
     else
       kthen close_all
      (kthen begin_op
      (kthen (\<lambda>s. case p_cwd (myproc s) of None \<Rightarrow> Panic ''kerneltrap'' | Some ip \<Rightarrow> iput ip s)
      (kthen end_op
      (kthen (kmod (\<lambda>s. upd_proc (cur s) (\<lambda>x. x\<lparr>p_cwd := None\<rparr>) s))
      (kthen (kmod (exit_tail status)) sched_out))))) s)"

text \<open>A call of \<^verbatim>\<open>wait\<close> that has to sleep returns nothing and starts over when it is woken.\<close>

definition wait :: "addr \<Rightarrow> ('z proc_st_scheme, int option) kprog" where
  "wait addr = (\<lambda>s.
     let kids = filter (\<lambda>np. p_parent (procs s np) = Some (cur s)) [0 ..< NPROC] in
     case List.find (\<lambda>np. p_state (procs s np) = ZOMBIE) kids of
       Some np \<Rightarrow>
         kbind (if addr \<noteq> 0 then copyout (p_pagetable (myproc s)) addr
                  (put32 0 (word_of_int (p_xstate (procs s np))) (\<lambda>_. 0)) 4 else kret 0) (\<lambda>r.
           if r < 0 then kret (Some (-1))
           else kthen (freeproc np) (kret (Some (p_pid (procs s np))))) s
     | None \<Rightarrow>
         if kids = [] \<or> p_killed (myproc s) \<noteq> 0 then Ret (Some (-1)) s
         else Ret None (go_to_sleep (ChProc (cur s)) s))"

section \<open>Scheduling\<close>

text \<open>
  The scheduler half of a context switch, for a process that the loop of \<^verbatim>\<open>scheduler\<close> has found.
\<close>

definition sched_in :: "nat \<Rightarrow> 'z proc_st_scheme \<Rightarrow> 'z proc_st_scheme" where
  "sched_in p s = (if p_state (procs s p) = RUNNABLE then (upd_proc p (\<lambda>x. x\<lparr>p_state := RUNNING\<rparr>) s)\<lparr>cur := p\<rparr> else s)"

definition yield :: "('z proc_st_scheme, unit) kprog" where
  "yield = kthen (kmod (\<lambda>s. upd_proc (cur s) (\<lambda>x. x\<lparr>p_state := RUNNABLE\<rparr>) s)) sched_out"

definition sleep :: "chan \<Rightarrow> ('z proc_st_scheme, unit) kprog" where
  "sleep ch = kthen (kmod (go_to_sleep ch)) sched_out"

text \<open>The tail of \<^verbatim>\<open>sleep\<close>, run when the process is scheduled again.\<close>

definition sleep_resume :: "'z proc_st_scheme \<Rightarrow> 'z proc_st_scheme" where
  "sleep_resume s = upd_proc (cur s) (\<lambda>x. x\<lparr>p_chan := ChNull\<rparr>) s"

definition kill :: "int \<Rightarrow> ('z proc_st_scheme, int) kprog" where
  "kill pid = (\<lambda>s.
     case List.find (\<lambda>p. p_pid (procs s p) = pid) [0 ..< NPROC] of
       None \<Rightarrow> Ret (-1) s
     | Some p \<Rightarrow> Ret 0 (upd_proc p (\<lambda>x. x\<lparr>p_killed := 1, p_state := (if p_state x = SLEEPING then RUNNABLE else p_state x)\<rparr>) s))"

end
