(* ===== verification/Exec.thy ===== *)
theory Exec
  imports Proc
begin

text \<open>
  Loading a program, \<^verbatim>\<open>kernel/exec.c\<close>. The headers of \<^verbatim>\<open>kernel/elf.h\<close> are decoded from the bytes read. The elements of
  \<^verbatim>\<open>argv\<close> are pointers to strings in kernel memory.
\<close>

abbreviation MAXARG :: nat where "MAXARG \<equiv> 32"
abbreviation ELF_MAGIC :: uint where "ELF_MAGIC \<equiv> 0x464C457F"

record elfhdr =
  e_magic :: uint
  e_entry :: uint64
  e_phoff :: uint64
  e_phnum :: ushort

definition elfhdr_of :: "uchar list \<Rightarrow> elfhdr" where
  "elfhdr_of bs = (let d = buf_view bs in
     \<lparr>e_magic = get32 d 0, e_entry = le_get 8 d 24, e_phoff = le_get 8 d 32, e_phnum = get16 d 56\<rparr>)"

record proghdr =
  ph_type :: uint
  ph_off :: uint64
  ph_vaddr :: uint64
  ph_filesz :: uint64
  ph_memsz :: uint64

definition proghdr_of :: "uchar list \<Rightarrow> proghdr" where
  "proghdr_of bs = (let d = buf_view bs in
     \<lparr>ph_type = get32 d 0, ph_off = le_get 8 d 8, ph_vaddr = le_get 8 d 16, ph_filesz = le_get 8 d 32, ph_memsz = le_get 8 d 40\<rparr>)"

definition loadseg_step :: "addr \<Rightarrow> addr \<Rightarrow> nat \<Rightarrow> uint \<Rightarrow> uint \<Rightarrow> uint \<Rightarrow> ('z fs_st_scheme, uint + int) kprog" where
  "loadseg_step pagetable va ip offset sz i =
     (if i < sz then
        kbind (walkaddr pagetable (va + ucast i)) (\<lambda>pa.
          if pa = 0 then kpanic ''loadseg: address should exist''
          else let n = (if sz - i < 4096 then sz - i else 4096) in
            kbind (readi ip (DMem pa) (offset + i) n) (\<lambda>(r, _).
              if r \<noteq> n then kret (Inr (-1)) else kret (Inl (i + 4096))))
      else kret (Inr 0))"

definition loadseg :: "addr \<Rightarrow> addr \<Rightarrow> nat \<Rightarrow> uint \<Rightarrow> uint \<Rightarrow> ('z fs_st_scheme, int) kprog" where
  "loadseg pagetable va ip offset sz = kwhile (loadseg_step pagetable va ip offset sz) 0"

text \<open>The \<^verbatim>\<open>bad\<close> exit: free the new address space, unlock the file and end the transaction.\<close>

definition exec_bad :: "addr \<Rightarrow> uint64 \<Rightarrow> nat option \<Rightarrow> ('z file_st_scheme, int) kprog" where
  "exec_bad pagetable sz ip =
     kthen (if pagetable \<noteq> 0 then proc_freepagetable pagetable sz else kret ())
    (kthen (case ip of None \<Rightarrow> kret () | Some ip \<Rightarrow> kthen (iunlockput ip) end_op) (kret (-1)))"

text \<open>
  The loop over the program headers on the index, the file offset and the size so far. It leaves with \<open>Inl\<close> of the size if the
  program is rejected.
\<close>

definition exec_load_step ::
  "nat \<Rightarrow> addr \<Rightarrow> ushort \<Rightarrow> nat \<times> uint \<times> uint64 \<Rightarrow> ('z fs_st_scheme, (nat \<times> uint \<times> uint64) + (uint64 + uint64)) kprog" where
  "exec_load_step ip pagetable phnum = (\<lambda>(i, off, sz).
     if i < unat phnum then
       kbind (readi ip DObj off 56) (\<lambda>(r, bs).
         let ph = proghdr_of bs in
         if r \<noteq> 56 then kret (Inr (Inl sz))
         else if ph_type ph \<noteq> 1 then kret (Inl (Suc i, off + 56, sz))
         else if ph_memsz ph < ph_filesz ph then kret (Inr (Inl sz))
         else if ph_vaddr ph + ph_memsz ph < ph_vaddr ph then kret (Inr (Inl sz))
         else kbind (uvmalloc pagetable sz (ph_vaddr ph + ph_memsz ph)) (\<lambda>sz1.
           if sz1 = 0 then kret (Inr (Inl sz))
           else if ph_vaddr ph mod PGSIZE \<noteq> 0 then kret (Inr (Inl sz1))
           else kbind (loadseg pagetable (ph_vaddr ph) ip (ucast (ph_off ph)) (ucast (ph_filesz ph))) (\<lambda>r.
             if r < 0 then kret (Inr (Inl sz1)) else kret (Inl (Suc i, off + 56, sz1)))))
     else kret (Inr (Inr sz)))"

text \<open>Pushing the argument strings: the stack pointer and the addresses of the strings pushed so far.\<close>

definition kstr :: "memory \<Rightarrow> addr \<Rightarrow> cptr" where
  "kstr m a = (\<lambda>i. m (a + of_nat i))"

definition push_args_step ::
  "addr \<Rightarrow> uint64 \<Rightarrow> addr list \<Rightarrow> uint64 \<times> uint64 list \<Rightarrow>
   ('z fs_st_scheme, (uint64 \<times> uint64 list) + (uint64 \<times> uint64 list) option) kprog" where
  "push_args_step pagetable stackbase argv = (\<lambda>(sp, ustack) s.
     if length ustack < length argv then
       if length ustack \<ge> MAXARG then Ret (Inr None) s
       else
         let str = kstr (mem s) (argv ! length ustack) in
         (case strlen str of
            None \<Rightarrow> Hang
          | Some n \<Rightarrow>
              let sp = sp - of_nat (n + 1); sp = sp - sp mod 16 in
              if sp < stackbase then Ret (Inr None) s
              else kbind (copyout pagetable sp str (of_nat (n + 1))) (\<lambda>r.
                     if r < 0 then kret (Inr None) else kret (Inl (sp, ustack @ [sp]))) s)
     else Ret (Inr (Some (sp, ustack))) s)"

text \<open>The array \<^verbatim>\<open>ustack\<close> with its terminating null, as bytes.\<close>

definition ustack_bytes :: "uint64 list \<Rightarrow> cptr" where
  "ustack_bytes us = (\<lambda>i. if i div 8 < length us then ucast (drop_bit (8 * (i mod 8)) (us ! (i div 8))) else 0)"

text \<open>The part of a path after the last slash.\<close>

definition last_elem :: "uchar list \<Rightarrow> uchar list" where
  "last_elem path = rev (takeWhile (\<lambda>c. c \<noteq> 47) (rev path))"

text \<open>The second half of \<^verbatim>\<open>exec\<close>: the stack, the arguments, and the commit to the new image.\<close>

definition exec_stack ::
  "addr \<Rightarrow> uint64 \<Rightarrow> elfhdr \<Rightarrow> uchar list \<Rightarrow> addr list \<Rightarrow> ('z file_st_scheme, int) kprog" where
  "exec_stack pagetable sz elf path argv =
     (let sz = PGROUNDUP sz in
      kbind (uvmalloc pagetable sz (sz + 2 * PGSIZE)) (\<lambda>sz1.
        if sz1 = 0 then exec_bad pagetable sz None
        else let stackbase = sz1 - PGSIZE in
          kthen (uvmclear pagetable (sz1 - 2 * PGSIZE))
         (kbind (kwhile (push_args_step pagetable stackbase argv) (sz1, [])) (\<lambda>r. case r of
            None \<Rightarrow> exec_bad pagetable sz1 None
          | Some (sp, ustack) \<Rightarrow>
              let argc = length ustack; sp = sp - of_nat (argc + 1) * 8; sp = sp - sp mod 16 in
              if sp < stackbase then exec_bad pagetable sz1 None
              else kbind (copyout pagetable sp (ustack_bytes ustack) (of_nat (argc + 1) * 8)) (\<lambda>r.
                if r < 0 then exec_bad pagetable sz1 None
                else
                  kthen (kmod (\<lambda>s. set_tf (cur s) tf_a1 sp s))
                 (kthen (kmod (\<lambda>s. upd_proc (cur s) (\<lambda>x. x\<lparr>p_name := safestrcpy (p_name x) (buf_view (last_elem path)) 16\<rparr>) s))
                 (kbind (kget (\<lambda>s. (p_pagetable (myproc s), p_sz (myproc s)))) (\<lambda>(oldpagetable, oldsz).
                  kthen (kmod (\<lambda>s. upd_proc (cur s) (\<lambda>x. x\<lparr>p_pagetable := pagetable, p_sz := sz1\<rparr>) s))
                 (kthen (kmod (\<lambda>s. set_tf (cur s) tf_epc (e_entry elf) s))
                 (kthen (kmod (\<lambda>s. set_tf (cur s) tf_sp sp s))
                 (kthen (proc_freepagetable oldpagetable oldsz)
                        (kret (int argc)))))))))))))"

definition exec :: "ksyms \<Rightarrow> uchar list \<Rightarrow> addr list \<Rightarrow> ('z file_st_scheme, int) kprog" where
  "exec K path argv =
     kthen begin_op
    (kbind (namei path) (\<lambda>r. case r of
       None \<Rightarrow> kthen end_op (kret (-1))
     | Some ip \<Rightarrow>
         kthen (ilock ip)
        (kbind (readi ip DObj 0 64) (\<lambda>(r, bs).
           let elf = elfhdr_of bs in
           if r \<noteq> 64 then exec_bad 0 0 (Some ip)
           else if e_magic elf \<noteq> ELF_MAGIC then exec_bad 0 0 (Some ip)
           else kbind (\<lambda>s. proc_pagetable K (cur s) s) (\<lambda>pagetable.
             if pagetable = 0 then exec_bad 0 0 (Some ip)
             else kbind (kwhile (exec_load_step ip pagetable (e_phnum elf)) (0, ucast (e_phoff elf), 0)) (\<lambda>r. case r of
               Inl sz \<Rightarrow> exec_bad pagetable sz (Some ip)
             | Inr sz \<Rightarrow>
                 kthen (iunlockput ip) (kthen end_op (exec_stack pagetable sz elf path argv))))))))"

end
