(* ===== verification/SysFile.thy ===== *)
theory SysFile
  imports Exec
begin

text \<open>
  The system calls on files, \<^verbatim>\<open>kernel/sysfile.c\<close>. Arguments are fetched from the trapframe of the calling process; the value
  returned is what the dispatcher stores in its register \<^verbatim>\<open>a0\<close>. A read or a write that has to wait returns \<open>Inl\<close> of its progress.
\<close>

abbreviation MAXPATH :: int where "MAXPATH \<equiv> 128"
abbreviation O_WRONLY :: uint where "O_WRONLY \<equiv> 0x001"
abbreviation O_RDWR :: uint where "O_RDWR \<equiv> 0x002"
abbreviation O_CREATE :: uint where "O_CREATE \<equiv> 0x200"
abbreviation O_TRUNC :: uint where "O_TRUNC \<equiv> 0x400"

text \<open>A path argument: nothing if it cannot be fetched, else its characters.\<close>

definition argpath :: "nat \<Rightarrow> ('z proc_st_scheme, uchar list option) kprog" where
  "argpath n = kbind (argstr n MAXPATH) (\<lambda>(r, bs). kret (if r < 0 then None else Some (takeWhile (\<lambda>c. c \<noteq> 0) bs)))"

definition argfd :: "nat \<Rightarrow> ('z proc_st_scheme, (nat \<times> nat) option) kprog" where
  "argfd n = kbind (argint n) (\<lambda>fd s.
     if fd < 0 \<or> fd \<ge> int NOFILE then Ret None s
     else case p_ofile (myproc s) (nat fd) of None \<Rightarrow> Ret None s | Some f \<Rightarrow> Ret (Some (nat fd, f)) s)"

definition fdalloc :: "nat \<Rightarrow> ('z proc_st_scheme, int) kprog" where
  "fdalloc f = (\<lambda>s.
     case List.find (\<lambda>fd. p_ofile (myproc s) fd = None) [0 ..< NOFILE] of
       None \<Rightarrow> Ret (-1) s
     | Some fd \<Rightarrow> Ret (int fd) (upd_proc (cur s) (\<lambda>x. x\<lparr>p_ofile := (p_ofile x)(fd := Some f)\<rparr>) s))"

definition fdclear :: "int \<Rightarrow> 'z proc_st_scheme \<Rightarrow> 'z proc_st_scheme" where
  "fdclear fd s = upd_proc (cur s) (\<lambda>x. x\<lparr>p_ofile := (p_ofile x)(nat fd := None)\<rparr>) s"

definition sys_dup :: "('z file_st_scheme, int) kprog" where
  "sys_dup = kbind (argfd 0) (\<lambda>r. case r of
     None \<Rightarrow> kret (-1)
   | Some (_, f) \<Rightarrow>
       kbind (fdalloc f) (\<lambda>fd. if fd < 0 then kret (-1) else kbind (filedup f) (\<lambda>_. kret fd)))"

definition sys_read :: "('z file_st_scheme) devsw \<Rightarrow> nat \<Rightarrow> ('z file_st_scheme, nat + int) kprog" where
  "sys_read devsw i = kbind (argfd 0) (\<lambda>r. case r of
     None \<Rightarrow> kret (Inr (-1))
   | Some (_, f) \<Rightarrow> kbind (argint 2) (\<lambda>n. kbind (argaddr 1) (\<lambda>p. fileread devsw f p n i)))"

definition sys_write :: "('z file_st_scheme) devsw \<Rightarrow> nat \<Rightarrow> ('z file_st_scheme, nat + int) kprog" where
  "sys_write devsw i = kbind (argfd 0) (\<lambda>r. case r of
     None \<Rightarrow> kret (Inr (-1))
   | Some (_, f) \<Rightarrow> kbind (argint 2) (\<lambda>n. kbind (argaddr 1) (\<lambda>p. filewrite devsw f p n i)))"

definition sys_close :: "('z file_st_scheme, int) kprog" where
  "sys_close = kbind (argfd 0) (\<lambda>r. case r of
     None \<Rightarrow> kret (-1)
   | Some (fd, f) \<Rightarrow> kthen (kmod (fdclear (int fd))) (kthen (fileclose f) (kret 0)))"

definition sys_fstat :: "cptr \<Rightarrow> ('z file_st_scheme, int) kprog" where
  "sys_fstat junk = kbind (argfd 0) (\<lambda>r. case r of
     None \<Rightarrow> kret (-1)
   | Some (_, f) \<Rightarrow> kbind (argaddr 1) (\<lambda>st. filestat junk f st))"

text \<open>The \<^verbatim>\<open>bad\<close> exit of \<^verbatim>\<open>sys_link\<close>.\<close>

definition link_bad :: "nat \<Rightarrow> ('z fs_st_scheme, int) kprog" where
  "link_bad ip =
     kthen (ilock ip)
    (kthen (kmod (upd_inode ip (\<lambda>x. x\<lparr>i_nlink := i_nlink x - 1\<rparr>)))
    (kthen (iupdate ip) (kthen (iunlockput ip) (kthen end_op (kret (-1))))))"

definition sys_link :: "('z fs_st_scheme, int) kprog" where
  "sys_link = kbind (argpath 0) (\<lambda>old. case old of None \<Rightarrow> kret (-1) | Some old \<Rightarrow>
     kbind (argpath 1) (\<lambda>new. case new of None \<Rightarrow> kret (-1) | Some new \<Rightarrow>
       kthen begin_op
      (kbind (namei old) (\<lambda>r. case r of
         None \<Rightarrow> kthen end_op (kret (-1))
       | Some ip \<Rightarrow>
           kthen (ilock ip)
          (\<lambda>s. if i_type (itable s ip) = T_DIR then kthen (iunlockput ip) (kthen end_op (kret (-1))) s
           else
             kthen (kmod (upd_inode ip (\<lambda>x. x\<lparr>i_nlink := i_nlink x + 1\<rparr>)))
            (kthen (iupdate ip)
            (kthen (iunlock ip)
            (kbind (nameiparent new (\<lambda>_. 0)) (\<lambda>(r, name). case r of
               None \<Rightarrow> link_bad ip
             | Some dp \<Rightarrow>
                 kthen (ilock dp)
                (kbind (\<lambda>s. if i_dev (itable s dp) \<noteq> i_dev (itable s ip) then Ret (-1) s
                            else dirlink dp name (i_inum (itable s ip)) s) (\<lambda>r.
                   if r < 0 then kthen (iunlockput dp) (link_bad ip)
                   else kthen (iunlockput dp) (kthen (iput ip) (kthen end_op (kret 0)))))))) ) s)))))"

definition isdirempty_step :: "nat \<Rightarrow> uint \<Rightarrow> ('z fs_st_scheme, uint + bool) kprog" where
  "isdirempty_step dp off = (\<lambda>s.
     if off < i_size (itable s dp) then
       kbind (readi dp DObj off 32) (\<lambda>(r, de).
         if r \<noteq> 32 then kpanic ''isdirempty: readi''
         else if de_inum de \<noteq> 0 then kret (Inr False) else kret (Inl (off + 32))) s
     else Ret (Inr True) s)"

definition isdirempty :: "nat \<Rightarrow> ('z fs_st_scheme, bool) kprog" where
  "isdirempty dp = kwhile (isdirempty_step dp) 64"

definition unlink_bad :: "nat \<Rightarrow> ('z fs_st_scheme, int) kprog" where
  "unlink_bad dp = kthen (iunlockput dp) (kthen end_op (kret (-1)))"

text \<open>The part of \<^verbatim>\<open>sys_unlink\<close> after the entry of \<open>ip\<close> was found at offset \<open>off\<close> of the directory \<open>dp\<close>.\<close>

definition unlink_entry :: "nat \<Rightarrow> nat \<Rightarrow> uint \<Rightarrow> ('z fs_st_scheme, int) kprog" where
  "unlink_entry dp ip off =
     kthen (ilock ip)
    (\<lambda>s. if sint (i_nlink (itable s ip)) < 1 then Panic ''unlink: nlink < 1''
     else kbind (if i_type (itable s ip) = T_DIR then isdirempty ip else kret True) (\<lambda>empty.
       if \<not> empty then kthen (iunlockput ip) (unlink_bad dp)
       else kbind (writei dp (SObj (\<lambda>_. 0)) off 32) (\<lambda>r.
         if r \<noteq> 32 then kpanic ''unlink: writei''
         else
           kthen (\<lambda>s. if i_type (itable s ip) = T_DIR
                  then kthen (kmod (upd_inode dp (\<lambda>x. x\<lparr>i_nlink := i_nlink x - 1\<rparr>))) (iupdate dp) s else Ret () s)
          (kthen (iunlockput dp)
          (kthen (kmod (upd_inode ip (\<lambda>x. x\<lparr>i_nlink := i_nlink x - 1\<rparr>)))
          (kthen (iupdate ip)
          (kthen (iunlockput ip)
          (kthen end_op (kret 0)))))))) s)"

definition sys_unlink :: "('z fs_st_scheme, int) kprog" where
  "sys_unlink = kbind (argpath 0) (\<lambda>p. case p of None \<Rightarrow> kret (-1) | Some path \<Rightarrow>
     kthen begin_op
    (kbind (nameiparent path (\<lambda>_. 0)) (\<lambda>(r, name). case r of
       None \<Rightarrow> kthen end_op (kret (-1))
     | Some dp \<Rightarrow>
         kthen (ilock dp)
        (if namecmp name (cstr ''.'') = 0 \<or> namecmp name (cstr ''..'') = 0 then unlink_bad dp
         else kbind (dirlookup dp name) (\<lambda>r. case r of
           None \<Rightarrow> unlink_bad dp
         | Some (ip, off) \<Rightarrow> unlink_entry dp ip off)))))"

text \<open>The part of \<^verbatim>\<open>create\<close> that makes a new inode in the directory \<open>dp\<close>.\<close>

definition create_new :: "nat \<Rightarrow> cptr \<Rightarrow> short \<Rightarrow> short \<Rightarrow> short \<Rightarrow> ('z fs_st_scheme, nat) kprog" where
  "create_new dp name type major minor =
     kbind (\<lambda>s. ialloc (i_dev (itable s dp)) type s) (\<lambda>ip.
     kthen (ilock ip)
    (kthen (kmod (upd_inode ip (\<lambda>x. x\<lparr>i_major := major, i_minor := minor, i_nlink := 1\<rparr>)))
    (kthen (iupdate ip)
    (kthen (if type = T_DIR then
              kthen (kmod (upd_inode dp (\<lambda>x. x\<lparr>i_nlink := i_nlink x + 1\<rparr>)))
             (kthen (iupdate dp)
             (kbind (\<lambda>s. dirlink ip (cstr ''.'') (i_inum (itable s ip)) s) (\<lambda>r.
                if r < 0 then kpanic ''create dots''
                else kbind (\<lambda>s. dirlink ip (cstr ''..'') (i_inum (itable s dp)) s) (\<lambda>r.
                  if r < 0 then kpanic ''create dots'' else kret ()))))
            else kret ())
    (kbind (\<lambda>s. dirlink dp name (i_inum (itable s ip)) s) (\<lambda>r.
       if r < 0 then kpanic ''create: dirlink''
       else kthen (iunlockput dp) (kret ip)))))))"

definition create :: "uchar list \<Rightarrow> short \<Rightarrow> short \<Rightarrow> short \<Rightarrow> ('z fs_st_scheme, nat option) kprog" where
  "create path type major minor =
     kbind (nameiparent path (\<lambda>_. 0)) (\<lambda>(r, name). case r of
       None \<Rightarrow> kret None
     | Some dp \<Rightarrow>
         kthen (ilock dp)
        (kbind (dirlookup dp name) (\<lambda>r. case r of
           Some (ip, _) \<Rightarrow>
             kthen (iunlockput dp)
            (kthen (ilock ip)
            (\<lambda>s. if type = T_FILE \<and> (i_type (itable s ip) = T_FILE \<or> i_type (itable s ip) = T_DEVICE) then Ret (Some ip) s
                  else kthen (iunlockput ip) (kret None) s))
         | None \<Rightarrow> kbind (create_new dp name type major minor) (\<lambda>ip. kret (Some ip)))))"

text \<open>The second half of \<^verbatim>\<open>sys_open\<close>, with the inode locked.\<close>

definition open_file :: "nat \<Rightarrow> uint \<Rightarrow> ('z file_st_scheme, int) kprog" where
  "open_file ip omode = (\<lambda>s.
     if i_type (itable s ip) = T_DEVICE \<and> (sint (i_major (itable s ip)) < 0 \<or> sint (i_major (itable s ip)) \<ge> int NDEV)
     then kthen (iunlockput ip) (kthen end_op (kret (-1))) s
     else
       kbind filealloc (\<lambda>f. case f of
         None \<Rightarrow> kthen (iunlockput ip) (kthen end_op (kret (-1)))
       | Some f \<Rightarrow>
           kbind (fdalloc f) (\<lambda>fd.
             if fd < 0 then kthen (fileclose f) (kthen (iunlockput ip) (kthen end_op (kret (-1))))
             else
               kthen (kmod (\<lambda>s. if i_type (itable s ip) = T_DEVICE
                 then upd_file f (\<lambda>x. x\<lparr>f_type := FD_DEVICE, f_major := i_major (itable s ip)\<rparr>) s
                 else upd_file f (\<lambda>x. x\<lparr>f_type := FD_INODE, f_off := 0\<rparr>) s))
              (kthen (kmod (upd_file f (\<lambda>x. x\<lparr>f_ip := ip, f_readable := (omode AND O_WRONLY = 0),
                 f_writable := (omode AND O_WRONLY \<noteq> 0 \<or> omode AND O_RDWR \<noteq> 0)\<rparr>)))
              (kthen (\<lambda>s. if omode AND O_TRUNC \<noteq> 0 \<and> i_type (itable s ip) = T_FILE then itrunc ip s else Ret () s)
              (kthen (iunlock ip) (kthen end_op (kret fd))))))) s)"

definition sys_open :: "('z file_st_scheme, int) kprog" where
  "sys_open = kbind (argpath 0) (\<lambda>p. case p of None \<Rightarrow> kret (-1) | Some path \<Rightarrow>
     kbind (argint 1) (\<lambda>m. let omode = (word_of_int m :: uint) in
       kthen begin_op
       (if omode AND O_CREATE \<noteq> 0 then
          kbind (create path T_FILE 0 0) (\<lambda>r. case r of
            None \<Rightarrow> kthen end_op (kret (-1))
          | Some ip \<Rightarrow> open_file ip omode)
        else
          kbind (namei path) (\<lambda>r. case r of
            None \<Rightarrow> kthen end_op (kret (-1))
          | Some ip \<Rightarrow>
              kthen (ilock ip)
             (\<lambda>s. if i_type (itable s ip) = T_DIR \<and> omode \<noteq> 0 then kthen (iunlockput ip) (kthen end_op (kret (-1))) s
                   else open_file ip omode s)))))"

text \<open>The common tail of \<^verbatim>\<open>sys_mkdir\<close> and \<^verbatim>\<open>sys_mknod\<close>.\<close>

definition finish_create :: "nat option \<Rightarrow> ('z fs_st_scheme, int) kprog" where
  "finish_create r = (case r of
     None \<Rightarrow> kthen end_op (kret (-1))
   | Some ip \<Rightarrow> kthen (iunlockput ip) (kthen end_op (kret 0)))"

definition sys_mkdir :: "('z fs_st_scheme, int) kprog" where
  "sys_mkdir = kthen begin_op (kbind (argpath 0) (\<lambda>p. case p of
     None \<Rightarrow> finish_create None
   | Some path \<Rightarrow> kbind (create path T_DIR 0 0) finish_create))"

definition sys_mknod :: "('z fs_st_scheme, int) kprog" where
  "sys_mknod = kthen begin_op (kbind (argpath 0) (\<lambda>p. case p of
     None \<Rightarrow> finish_create None
   | Some path \<Rightarrow>
       kbind (argint 1) (\<lambda>major. kbind (argint 2) (\<lambda>minor.
         kbind (create path T_DEVICE (word_of_int major) (word_of_int minor)) finish_create))))"

definition sys_chdir :: "('z fs_st_scheme, int) kprog" where
  "sys_chdir = kthen begin_op (kbind (argpath 0) (\<lambda>p. case p of
     None \<Rightarrow> kthen end_op (kret (-1))
   | Some path \<Rightarrow>
       kbind (namei path) (\<lambda>r. case r of
         None \<Rightarrow> kthen end_op (kret (-1))
       | Some ip \<Rightarrow>
           kthen (ilock ip)
          (\<lambda>s. if i_type (itable s ip) \<noteq> T_DIR then kthen (iunlockput ip) (kthen end_op (kret (-1))) s
            else
              kthen (iunlock ip)
             (kthen (\<lambda>s. case p_cwd (myproc s) of None \<Rightarrow> Panic ''kerneltrap'' | Some cwd \<Rightarrow> iput cwd s)
             (kthen end_op
             (kthen (kmod (\<lambda>s. upd_proc (cur s) (\<lambda>x. x\<lparr>p_cwd := Some ip\<rparr>) s)) (kret 0)))) s))))"

text \<open>
  The loop of \<^verbatim>\<open>sys_exec\<close> that copies the argument strings, each into a page of its own. It leaves with \<open>False\<close> if the
  arguments are rejected; the pages allocated so far are returned in both cases.
\<close>

definition exec_args_step ::
  "addr \<Rightarrow> addr list \<Rightarrow> ('z proc_st_scheme, addr list + (bool \<times> addr list)) kprog" where
  "exec_args_step uargv argv =
     (if length argv \<ge> MAXARG then kret (Inr (False, argv))
      else kbind (fetchaddr (uargv + 8 * of_nat (length argv))) (\<lambda>(r, uarg).
        if r < 0 then kret (Inr (False, argv))
        else if uarg = 0 then kret (Inr (True, argv))
        else kbind kalloc (\<lambda>pg.
          if pg = 0 then kret (Inr (False, argv))
          else kbind (fetchstr uarg 4096) (\<lambda>(r, bs).
            kthen (kmod (\<lambda>s. s\<lparr>mem := store_bytes pg (buf_view bs) (length bs) (mem s)\<rparr>))
              (if r < 0 then kret (Inr (False, argv @ [pg])) else kret (Inl (argv @ [pg])))))))"

definition sys_exec :: "ksyms \<Rightarrow> ('z file_st_scheme, int) kprog" where
  "sys_exec K = kbind (argpath 0) (\<lambda>p. case p of None \<Rightarrow> kret (-1) | Some path \<Rightarrow>
     kbind (argaddr 1) (\<lambda>uargv.
     kbind (kwhile (exec_args_step uargv) []) (\<lambda>(ok, argv).
     kbind (if ok then exec K path argv else kret (-1)) (\<lambda>r.
     kthen (kfor argv kfree) (kret r)))))"

text \<open>The two descriptors are copied out as 32-bit integers.\<close>

definition int_bytes :: "int \<Rightarrow> cptr" where
  "int_bytes n = put32 0 (word_of_int n) (\<lambda>_. 0)"

definition pipe_undo :: "int \<Rightarrow> int \<Rightarrow> nat \<Rightarrow> nat \<Rightarrow> ('z file_st_scheme, int) kprog" where
  "pipe_undo fd0 fd1 rf wrf =
     kthen (kmod (fdclear fd0)) (kthen (kmod (fdclear fd1)) (kthen (fileclose rf) (kthen (fileclose wrf) (kret (-1)))))"

definition sys_pipe :: "('z file_st_scheme, int) kprog" where
  "sys_pipe = kbind (argaddr 0) (\<lambda>fdarray.
     kbind pipealloc (\<lambda>r. case r of
       None \<Rightarrow> kret (-1)
     | Some (rf, wrf) \<Rightarrow>
         kbind (fdalloc rf) (\<lambda>fd0.
           if fd0 < 0 then kthen (fileclose rf) (kthen (fileclose wrf) (kret (-1)))
           else kbind (fdalloc wrf) (\<lambda>fd1.
             if fd1 < 0 then kthen (kmod (fdclear fd0)) (kthen (fileclose rf) (kthen (fileclose wrf) (kret (-1))))
             else
               kbind (\<lambda>s. copyout (p_pagetable (myproc s)) fdarray (int_bytes fd0) 4 s) (\<lambda>r.
                 if r < 0 then pipe_undo fd0 fd1 rf wrf
                 else kbind (\<lambda>s. copyout (p_pagetable (myproc s)) (fdarray + 4) (int_bytes fd1) 4 s) (\<lambda>r.
                   if r < 0 then pipe_undo fd0 fd1 rf wrf else kret 0))))))"

end
