(* ===== verification/Uart.thy ===== *)
theory Uart
  imports Proc Ring
begin

text \<open>
  Memory-mapped devices and the serial port, \<^verbatim>\<open>kernel/uart.c\<close> and \<^verbatim>\<open>kernel/plic.c\<close>. A device is hardware: a
  parameter \<open>M\<close> that says what a load from, or a store to, each of its registers does to the device state.
\<close>

record 'd mmio =
  rd8 :: "addr \<Rightarrow> 'd \<Rightarrow> uchar \<times> 'd"
  rd16 :: "addr \<Rightarrow> 'd \<Rightarrow> ushort \<times> 'd"
  rd32 :: "addr \<Rightarrow> 'd \<Rightarrow> uint \<times> 'd"
  wr8 :: "addr \<Rightarrow> uchar \<Rightarrow> 'd \<Rightarrow> 'd"
  wr16 :: "addr \<Rightarrow> ushort \<Rightarrow> 'd \<Rightarrow> 'd"
  wr32 :: "addr \<Rightarrow> uint \<Rightarrow> 'd \<Rightarrow> 'd"

text \<open>
  The globals of the serial port, the console, \<^verbatim>\<open>kernel/printf.c\<close> and the clock, on top of the file layer.
\<close>

record 'd io_st = file_st +
  dev :: 'd
  ticks :: uint
  panicked :: bool
  pr_locking :: bool
  uart_tx_buf :: cptr
  uart_tx_w :: uint64
  uart_tx_r :: uint64
  cons_buf :: cptr
  cons_r :: uint
  cons_w :: uint
  cons_e :: uint

definition Read8 :: "'d mmio \<Rightarrow> addr \<Rightarrow> (('d, 'z) io_st_scheme, uchar) kprog" where
  "Read8 M a s = (case rd8 M a (dev s) of (v, d) \<Rightarrow> Ret v (s\<lparr>dev := d\<rparr>))"

definition Read16 :: "'d mmio \<Rightarrow> addr \<Rightarrow> (('d, 'z) io_st_scheme, ushort) kprog" where
  "Read16 M a s = (case rd16 M a (dev s) of (v, d) \<Rightarrow> Ret v (s\<lparr>dev := d\<rparr>))"

definition Read32 :: "'d mmio \<Rightarrow> addr \<Rightarrow> (('d, 'z) io_st_scheme, uint) kprog" where
  "Read32 M a s = (case rd32 M a (dev s) of (v, d) \<Rightarrow> Ret v (s\<lparr>dev := d\<rparr>))"

definition Write8 :: "'d mmio \<Rightarrow> addr \<Rightarrow> uchar \<Rightarrow> (('d, 'z) io_st_scheme, unit) kprog" where
  "Write8 M a v = kmod (\<lambda>s. s\<lparr>dev := wr8 M a v (dev s)\<rparr>)"

definition Write16 :: "'d mmio \<Rightarrow> addr \<Rightarrow> ushort \<Rightarrow> (('d, 'z) io_st_scheme, unit) kprog" where
  "Write16 M a v = kmod (\<lambda>s. s\<lparr>dev := wr16 M a v (dev s)\<rparr>)"

definition Write32 :: "'d mmio \<Rightarrow> addr \<Rightarrow> uint \<Rightarrow> (('d, 'z) io_st_scheme, unit) kprog" where
  "Write32 M a v = kmod (\<lambda>s. s\<lparr>dev := wr32 M a v (dev s)\<rparr>)"

section \<open>The interrupt controller\<close>

abbreviation PLIC :: addr where "PLIC \<equiv> 0x0c000000"
abbreviation UART0_IRQ :: nat where "UART0_IRQ \<equiv> 10"
abbreviation VIRTIO0_IRQ :: nat where "VIRTIO0_IRQ \<equiv> 1"
abbreviation PCI_IRQ :: nat where "PCI_IRQ \<equiv> 33"

definition PLIC_SENABLE :: "nat \<Rightarrow> addr" where "PLIC_SENABLE hart = PLIC + 0x2080 + of_nat hart * 0x100"
definition PLIC_SPRIORITY :: "nat \<Rightarrow> addr" where "PLIC_SPRIORITY hart = PLIC + 0x201000 + of_nat hart * 0x2000"
definition PLIC_SCLAIM :: "nat \<Rightarrow> addr" where "PLIC_SCLAIM hart = PLIC + 0x201004 + of_nat hart * 0x2000"

definition plicinit :: "'d mmio \<Rightarrow> (('d, 'z) io_st_scheme, unit) kprog" where
  "plicinit M =
     kthen (Write32 M (PLIC + of_nat UART0_IRQ * 4) 1)
    (kthen (Write32 M (PLIC + of_nat VIRTIO0_IRQ * 4) 1)
           (Write32 M (PLIC + of_nat PCI_IRQ * 4) 1))"

definition plicinithart :: "'d mmio \<Rightarrow> nat \<Rightarrow> (('d, 'z) io_st_scheme, unit) kprog" where
  "plicinithart M hart =
     kthen (Write32 M (PLIC_SENABLE hart) (push_bit UART0_IRQ 1 OR push_bit VIRTIO0_IRQ 1))
    (kthen (Write32 M (PLIC_SENABLE hart + 4) 0xffffffff)
           (Write32 M (PLIC_SPRIORITY hart) 0))"

definition plic_claim :: "'d mmio \<Rightarrow> nat \<Rightarrow> (('d, 'z) io_st_scheme, uint) kprog" where
  "plic_claim M hart = Read32 M (PLIC_SCLAIM hart)"

definition plic_complete :: "'d mmio \<Rightarrow> nat \<Rightarrow> uint \<Rightarrow> (('d, 'z) io_st_scheme, unit) kprog" where
  "plic_complete M hart irq = Write32 M (PLIC_SCLAIM hart) irq"

section \<open>The serial port\<close>

abbreviation UART_TX_BUF_SIZE :: nat where "UART_TX_BUF_SIZE \<equiv> 32"
abbreviation RHR :: addr where "RHR \<equiv> 0"
abbreviation THR :: addr where "THR \<equiv> 0"
abbreviation IER :: addr where "IER \<equiv> 1"
abbreviation FCR :: addr where "FCR \<equiv> 2"
abbreviation LCR :: addr where "LCR \<equiv> 3"
abbreviation LSR :: addr where "LSR \<equiv> 5"
abbreviation LSR_TX_IDLE :: uchar where "LSR_TX_IDLE \<equiv> 0x20"

definition ReadReg :: "'d mmio \<Rightarrow> addr \<Rightarrow> (('d, 'z) io_st_scheme, uchar) kprog" where
  "ReadReg M r = Read8 M (0x10000000 + r)"

definition WriteReg :: "'d mmio \<Rightarrow> addr \<Rightarrow> uchar \<Rightarrow> (('d, 'z) io_st_scheme, unit) kprog" where
  "WriteReg M r v = Write8 M (0x10000000 + r) v"

definition uartinit :: "'d mmio \<Rightarrow> (('d, 'z) io_st_scheme, unit) kprog" where
  "uartinit M =
     kthen (WriteReg M IER 0x00)
    (kthen (WriteReg M LCR 0x80)
    (kthen (WriteReg M 0 0x03)
    (kthen (WriteReg M 1 0x00)
    (kthen (WriteReg M LCR 0x03)
    (kthen (WriteReg M FCR (0x01 OR 0x06))
           (WriteReg M IER (0x02 OR 0x01)))))))"

definition uartstart_step :: "'d mmio \<Rightarrow> unit \<Rightarrow> (('d, 'z) io_st_scheme, unit + unit) kprog" where
  "uartstart_step M u = (\<lambda>s.
     if uart_tx_w s = uart_tx_r s then Ret (Inr ()) s
     else kbind (ReadReg M LSR) (\<lambda>lsr.
       if lsr AND LSR_TX_IDLE = 0 then kret (Inr ())
       else kbind (kget (\<lambda>s. uart_tx_buf s (unat (uart_tx_r s mod of_nat UART_TX_BUF_SIZE)))) (\<lambda>c.
            kthen (kmod (\<lambda>s. wakeup ChUart (s\<lparr>uart_tx_r := uart_tx_r s + 1\<rparr>)))
           (kthen (WriteReg M THR c) (kret (Inl ()))))) s)"

definition uartstart :: "'d mmio \<Rightarrow> (('d, 'z) io_st_scheme, unit) kprog" where
  "uartstart M = kwhile (uartstart_step M) ()"

text \<open>\<open>uartputc\<close> yields \<open>False\<close> if the buffer is full and the caller was put to sleep.\<close>

definition uartputc :: "'d mmio \<Rightarrow> uchar \<Rightarrow> (('d, 'z) io_st_scheme, bool) kprog" where
  "uartputc M c = (\<lambda>s.
     if panicked s then Hang
     else if uart_tx_w s = uart_tx_r s + of_nat UART_TX_BUF_SIZE then Ret False (go_to_sleep ChUart s)
     else kthen (kmod (\<lambda>s. s\<lparr>uart_tx_buf := (uart_tx_buf s)(unat (uart_tx_w s mod of_nat UART_TX_BUF_SIZE) := c),
                             uart_tx_w := uart_tx_w s + 1\<rparr>))
         (kthen (uartstart M) (kret True)) s)"

definition uart_wait_step :: "'d mmio \<Rightarrow> unit \<Rightarrow> (('d, 'z) io_st_scheme, unit + unit) kprog" where
  "uart_wait_step M u = kbind (ReadReg M LSR) (\<lambda>lsr. kret (if lsr AND LSR_TX_IDLE = 0 then Inl () else Inr ()))"

definition uartputc_sync :: "'d mmio \<Rightarrow> uchar \<Rightarrow> (('d, 'z) io_st_scheme, unit) kprog" where
  "uartputc_sync M c = (\<lambda>s.
     if panicked s then Hang else kthen (kwhile (uart_wait_step M) ()) (WriteReg M THR c) s)"

definition uartgetc :: "'d mmio \<Rightarrow> (('d, 'z) io_st_scheme, uchar option) kprog" where
  "uartgetc M = kbind (ReadReg M LSR) (\<lambda>lsr.
     if lsr AND 1 \<noteq> 0 then kbind (ReadReg M RHR) (\<lambda>c. kret (Some c)) else kret None)"

section \<open>A kernel at boot\<close>

text \<open>A device that answers 0 to every load and ignores stores.\<close>

definition quiet :: "unit mmio" where
  "quiet = \<lparr>rd8 = (\<lambda>_ d. (0, d)), rd16 = (\<lambda>_ d. (0, d)), rd32 = (\<lambda>_ d. (0, d)),
            wr8 = (\<lambda>_ _ d. d), wr16 = (\<lambda>_ _ d. d), wr32 = (\<lambda>_ _ d. d)\<rparr>"

definition boot_io :: "memory \<Rightarrow> unit io_st" where
  "boot_io m = file_st.extend (boot_file m)
     \<lparr>dev = (), ticks = 0, panicked = False, pr_locking = False, uart_tx_buf = (\<lambda>_. 0), uart_tx_w = 0, uart_tx_r = 0,
      cons_buf = (\<lambda>_. 0), cons_r = 0, cons_w = 0, cons_e = 0\<rparr>"

section \<open>The transmit buffer\<close>

text \<open>What is queued for the serial port, oldest first.\<close>

definition uart_queue :: "('d, 'z) io_st_scheme \<Rightarrow> uchar list" where
  "uart_queue s = ring_list UART_TX_BUF_SIZE (uart_tx_buf s) (uart_tx_r s) (unat (uart_tx_w s - uart_tx_r s))"

definition uart_ok :: "('d, 'z) io_st_scheme \<Rightarrow> bool" where
  "uart_ok s \<longleftrightarrow> length (uart_queue s) \<le> UART_TX_BUF_SIZE"

interpretation ur: ring UART_TX_BUF_SIZE "TYPE(64)"
  by unfold_locales (auto intro!: dvd_triv_right [of _ 576460752303423488, simplified] simp: dvd_def)

text \<open>
  What the code relies on of the device: a store to the transmit register sends the byte, and reading the status register
  sends nothing. \<open>sent\<close> is the text that has left the machine.
\<close>

definition uart_device :: "'d mmio \<Rightarrow> ('d \<Rightarrow> uchar list) \<Rightarrow> bool" where
  "uart_device M sent \<longleftrightarrow>
     (\<forall>c d. sent (wr8 M (0x10000000 + THR) c d) = sent d @ [c]) \<and>
     (\<forall>d. sent (snd (rd8 M (0x10000000 + LSR) d)) = sent d)"

lemma uart_queue_empty: "uart_tx_w s = uart_tx_r s \<longleftrightarrow> uart_queue s = []"
  by (auto simp: uart_queue_def ring_list_def unat_eq_0)

lemma uart_queue_cong:
  "\<lbrakk>uart_tx_buf t = uart_tx_buf s; uart_tx_r t = uart_tx_r s; uart_tx_w t = uart_tx_w s\<rbrakk> \<Longrightarrow> uart_queue t = uart_queue s"
  by (simp add: uart_queue_def)

lemma wakeup_io [simp]:
  "dev (wakeup ch s) = dev s" "uart_tx_buf (wakeup ch s) = uart_tx_buf s" "uart_tx_r (wakeup ch s) = uart_tx_r s"
  "uart_tx_w (wakeup ch s) = uart_tx_w s" "panicked (wakeup ch s) = panicked s" "ticks (wakeup ch s) = ticks s"
  "cons_buf (wakeup ch s) = cons_buf s" "cons_r (wakeup ch s) = cons_r s" "cons_w (wakeup ch s) = cons_w s" "cons_e (wakeup ch s) = cons_e s"
  by (simp_all add: wakeup_def)

lemma uartstart_step_cases:
  fixes s :: "('d, 'z) io_st_scheme"
  assumes "uart_device M sent"
  shows "(\<exists>s'. uartstart_step M u s = Ret (Inr ()) s' \<and> sent (dev s') = sent (dev s) \<and> uart_queue s' = uart_queue s) \<or>
    (\<exists>s'. uartstart_step M u s = Ret (Inl ()) s' \<and> sent (dev s') @ uart_queue s' = sent (dev s) @ uart_queue s \<and>
       length (uart_queue s') < length (uart_queue s))"
proof -
  obtain v d where v: "rd8 M (0x10000000 + LSR) (dev s) = (v, d)" by fastforce
  have d: "sent d = sent (dev s)" using assms v unfolding uart_device_def by (metis snd_conv)
  show ?thesis
  proof (cases "uart_tx_w s = uart_tx_r s \<or> v AND LSR_TX_IDLE = 0")
    case True
    then show ?thesis
      using v d by (intro disjI1) (auto simp: uartstart_step_def ReadReg_def Read8_def kprog_simps intro!: uart_queue_cong)
  next
    case False
    let ?c = "uart_tx_buf s (unat (uart_tx_r s mod of_nat UART_TX_BUF_SIZE))"
    let ?s = "wakeup ChUart (s\<lparr>dev := d, uart_tx_r := uart_tx_r s + 1\<rparr>)"
    let ?t = "?s\<lparr>dev := wr8 M (0x10000000 + THR) ?c d\<rparr>"
    have "uartstart_step M u s = Ret (Inl ()) ?t"
      using False v by (simp add: uartstart_step_def ReadReg_def WriteReg_def Read8_def Write8_def kprog_simps)
    moreover have "uart_queue s = ?c # uart_queue ?t"
      using False ur.ring_count_pop [of "uart_tx_w s" "uart_tx_r s"]
      by (simp add: uart_queue_def ur.ring_pop ring_slot_def)
    moreover have "sent (dev ?t) = sent (dev s) @ [?c]" using assms d by (simp add: uart_device_def)
    ultimately show ?thesis by (intro disjI2 exI [of _ ?t]) simp
  qed
qed

lemma uartstart_sends:
  fixes s :: "('d, 'z) io_st_scheme"
  assumes "uart_device M sent"
  shows "\<exists>s'. uartstart M s = Ret () s' \<and> sent (dev s') @ uart_queue s' = sent (dev s) @ uart_queue s \<and>
    length (uart_queue s') \<le> length (uart_queue s)"
proof -
  let ?Q = "\<lambda>(t :: ('d, 'z) io_st_scheme). sent (dev t) @ uart_queue t = sent (dev s) @ uart_queue s \<and>
     length (uart_queue t) \<le> length (uart_queue s)"
  have "\<exists>r s'. kwhile (uartstart_step M) () s = Ret r s' \<and> ?Q s'"
  proof (rule kwhile_total [where I = "\<lambda>_ t. ?Q t" and f = "\<lambda>_ t. length (uart_queue t)"])
    show "?Q s" by simp
    fix u :: unit and t :: "('d, 'z) io_st_scheme" assume "?Q t"
    then show "(\<exists>l' s'. uartstart_step M u t = Ret (Inl l') s' \<and> ?Q s' \<and> length (uart_queue s') < length (uart_queue t)) \<or>
      (\<exists>r s'. uartstart_step M u t = Ret (Inr r) s' \<and> ?Q s')"
      using uartstart_step_cases [OF assms, of u t] by fastforce
  qed
  then show ?thesis by (simp add: uartstart_def)
qed


text \<open>A serial port that is always ready.\<close>

definition ready_uart :: "uchar list mmio" where
  "ready_uart = \<lparr>rd8 = (\<lambda>a d. (if a = 0x10000005 then 0x20 else 0, d)), rd16 = (\<lambda>_ d. (0, d)), rd32 = (\<lambda>_ d. (0, d)),
     wr8 = (\<lambda>a c d. if a = 0x10000000 then d @ [c] else d), wr16 = (\<lambda>_ _ d. d), wr32 = (\<lambda>_ _ d. d)\<rparr>"

definition boot_serial :: "uchar list io_st" where
  "boot_serial = file_st.extend (boot_file (\<lambda>_. 0))
     \<lparr>dev = [], ticks = 0, panicked = False, pr_locking = False, uart_tx_buf = (\<lambda>_. 0), uart_tx_w = 0, uart_tx_r = 0,
      cons_buf = (\<lambda>_. 0), cons_r = 0, cons_w = 0, cons_e = 0\<rparr>"

lemma ready_uart: "uart_device ready_uart id"
  by (simp add: uart_device_def ready_uart_def)

lemma boot_serial_simps [simp]:
  "dev boot_serial = []" "panicked boot_serial = False" "uart_tx_r boot_serial = 0" "uart_tx_w boot_serial = 0"
  "cons_r boot_serial = 0" "cons_w boot_serial = 0" "cons_e boot_serial = 0"
  by (simp_all add: boot_serial_def file_st.defs boot_file_def pipe_st.defs boot_pipe_def)


end
