(* ===== verification/Printf.thy ===== *)
theory Printf
  imports Uart
begin

text \<open>
  Formatted output, \<^verbatim>\<open>kernel/printf.c\<close>, with \<^verbatim>\<open>consputc\<close> of \<^verbatim>\<open>kernel/console.c\<close> and \<^verbatim>\<open>procdump\<close> of \<^verbatim>\<open>kernel/proc.c\<close>. The text that a call
  prints is computed first and then sent to the serial port character by character.
\<close>

abbreviation BACKSPACE :: uint where "BACKSPACE \<equiv> 0x100"

definition consputc :: "'d mmio \<Rightarrow> uint \<Rightarrow> (('d, 'z) io_st_scheme, unit) kprog" where
  "consputc M c =
     (if c = BACKSPACE then kthen (uartputc_sync M 8) (kthen (uartputc_sync M 32) (uartputc_sync M 8))
      else uartputc_sync M (ucast c))"

definition digit :: "nat \<Rightarrow> uchar" where
  "digit k = (if k < 10 then of_nat (48 + k) else of_nat (87 + k))"

text \<open>
  The do-while loop of \<^verbatim>\<open>printint\<close>: the digits of \<open>x\<close>, least significant first. It is called with bases 10 and 16 only; for
  a base below 2 the loop would not end.
\<close>

function digits_of :: "nat \<Rightarrow> nat \<Rightarrow> uchar list" where
  "digits_of base x =
     digit (x mod base) # (if base < 2 \<or> x div base = 0 then [] else digits_of base (x div base))"
  by pat_completeness auto
termination by (relation "measure (\<lambda>(base, x). x)") (auto simp: div_eq_0_iff intro!: div_less_dividend)

definition printint :: "uint \<Rightarrow> nat \<Rightarrow> bool \<Rightarrow> uchar list" where
  "printint xx base sign =
     (let neg = sign \<and> sint xx < 0; x = (if neg then - xx else xx)
      in rev (digits_of base (unat x) @ (if neg then [45] else [])))"

definition printhex :: "uint64 \<Rightarrow> nat \<Rightarrow> uchar list" where
  "printhex x bits = [48, 120] @ map (\<lambda>i. digit (unat (drop_bit (i * 4) x AND 0xf))) (rev [0 ..< bits])"

definition printptr :: "uint64 \<Rightarrow> uchar list" where
  "printptr x = [48, 120] @ map (\<lambda>i. digit (unat (drop_bit 60 (push_bit (4 * i) x)))) [0 ..< 16]"

text \<open>
  A variable argument is an integer or a string, where a null pointer is \<open>None\<close>. There is no result if the arguments do not
  fit the format, which C leaves undefined.
\<close>

datatype parg = ANum uint64 | AStr "uchar list option"

fun printf_text :: "uchar list \<Rightarrow> parg list \<Rightarrow> uchar list option" where
  "printf_text [] ap = Some []"
| "printf_text (c # fmt) ap =
     (if c \<noteq> 37 then map_option ((#) c) (printf_text fmt ap)
      else case fmt of
        [] \<Rightarrow> Some []
      | d # fmt \<Rightarrow>
          if d \<in> {100, 120, 112, 56, 54, 50, 52} then
            (case ap of
               ANum v # ap \<Rightarrow>
                 map_option ((@)
                   (if d = 100 then printint (ucast v) 10 True
                    else if d = 120 then printint (ucast v) 16 True
                    else if d = 112 then printptr v
                    else if d = 56 then printhex v 2
                    else if d = 54 then printhex v 4
                    else if d = 50 then printhex v 8
                    else printhex v 16)) (printf_text fmt ap)
             | _ \<Rightarrow> None)
          else if d = 115 then
            (case ap of
               AStr str # ap \<Rightarrow>
                 map_option ((@) (case str of None \<Rightarrow> [40, 110, 117, 108, 108, 41] | Some xs \<Rightarrow> xs)) (printf_text fmt ap)
             | _ \<Rightarrow> None)
          else if d = 37 then map_option ((#) 37) (printf_text fmt ap)
          else map_option ((@) [37, d]) (printf_text fmt ap))"

definition printf :: "'d mmio \<Rightarrow> uchar list \<Rightarrow> parg list \<Rightarrow> (('d, 'z) io_st_scheme, unit) kprog" where
  "printf M fmt ap = (case printf_text fmt ap of
     None \<Rightarrow> (\<lambda>_. Hang) | Some out \<Rightarrow> kfor out (\<lambda>c. consputc M (ucast c)))"

definition chars :: "string \<Rightarrow> uchar list" where
  "chars = map of_char"

text \<open>
  What \<^verbatim>\<open>panic\<close> does to the machine before it spins: the message is printed and the serial port frozen. The
  other theories represent a call of \<^verbatim>\<open>panic\<close> by the outcome \<open>Panic\<close> with its message.
\<close>

definition panic_state :: "'d mmio \<Rightarrow> uchar list \<Rightarrow> (('d, 'z) io_st_scheme, unit) kprog" where
  "panic_state M msg =
     kthen (kmod (\<lambda>s. s\<lparr>pr_locking := False\<rparr>))
    (kthen (printf M (chars ''panic: '') [])
    (kthen (printf M msg [])
    (kthen (printf M [10] [])
           (kmod (\<lambda>s. s\<lparr>panicked := True\<rparr>)))))"

definition printfinit :: "(('d, 'z) io_st_scheme, unit) kprog" where
  "printfinit = kmod (\<lambda>s. s\<lparr>pr_locking := True\<rparr>)"

fun state_name :: "procstate \<Rightarrow> string" where
  "state_name UNUSED = ''unused''"
| "state_name USED = ''???''"
| "state_name SLEEPING = ''sleep ''"
| "state_name RUNNABLE = ''runble''"
| "state_name RUNNING = ''run   ''"
| "state_name ZOMBIE = ''zombie''"

definition procdump :: "'d mmio \<Rightarrow> (('d, 'z) io_st_scheme, unit) kprog" where
  "procdump M =
     kthen (printf M [10] [])
     (kfor [0 ..< NPROC] (\<lambda>p s.
        if p_state (procs s p) = UNUSED then Ret () s
        else kthen (printf M (chars ''%d %s %s'')
                      [ANum (word_of_int (p_pid (procs s p))), AStr (Some (chars (state_name (p_state (procs s p))))),
                       AStr (Some (cname 16 (p_name (procs s p))))])
                   (printf M [10] []) s))"

declare digits_of.simps [simp del]

section \<open>Decimal output\<close>

text \<open>Reading a number back, with an optional sign.\<close>

definition char_value :: "uchar \<Rightarrow> nat" where
  "char_value c = (if c < 58 then unat c - 48 else unat c - 87)"

definition digits_value :: "nat \<Rightarrow> uchar list \<Rightarrow> nat" where
  "digits_value base = foldl (\<lambda>v c. v * base + char_value c) 0"

definition signed_value :: "nat \<Rightarrow> uchar list \<Rightarrow> int" where
  "signed_value base cs = (if cs \<noteq> [] \<and> hd cs = 45 then - int (digits_value base (tl cs)) else int (digits_value base cs))"

lemma unat_digit: "k < 16 \<Longrightarrow> unat (digit k) = (if k < 10 then 48 + k else 87 + k)"
  by (simp add: digit_def unat_of_nat del: of_nat_add)

lemma digit_value: "k < 16 \<Longrightarrow> char_value (digit k) = k"
  by (simp add: char_value_def word_less_nat_alt unat_digit)

lemma digit_nonminus: "k < 16 \<Longrightarrow> digit k \<noteq> 45"
  using unat_digit [of k] by (auto split: if_splits)

lemma digits_value_snoc: "digits_value base (cs @ [c]) = digits_value base cs * base + char_value c"
  by (simp add: digits_value_def)

lemma digits_of_cases:
  assumes "2 \<le> base"
  obtains "x < base" "digits_of base x = [digit x]"
  | "x div base < x" "digits_of base x = digit (x mod base) # digits_of base (x div base)"
proof (cases "x < base")
  case True
  then show thesis using that(1) digits_of.simps [of base x] by simp
next
  case False
  then have "x div base \<noteq> 0" "x div base < x" using assms by (auto simp: div_eq_0_iff intro!: div_less_dividend)
  then show thesis using that(2) assms digits_of.simps [of base x] by simp
qed

lemma digits_of_value:
  assumes "2 \<le> base" "base \<le> 16"
  shows "digits_value base (rev (digits_of base x)) = x"
proof (induction x rule: less_induct)
  case (less x)
  have "x mod base < 16" using assms by (simp add: less_le_trans [OF mod_less_divisor])
  then have d: "char_value (digit (x mod base)) = x mod base" by (rule digit_value)
  show ?case using assms(1)
  proof (cases rule: digits_of_cases [of base x])
    case 1
    then show ?thesis using d by (simp add: digits_value_def)
  next
    case 2
    then show ?thesis using less.IH d by (simp add: digits_value_snoc)
  qed
qed

lemma digits_of_nonminus:
  assumes "2 \<le> base" "base \<le> 16"
  shows "45 \<notin> set (digits_of base x)"
proof (induction x rule: less_induct)
  case (less x)
  have "x mod base < 16" using assms by (simp add: less_le_trans [OF mod_less_divisor])
  then have "digit (x mod base) \<noteq> 45" by (rule digit_nonminus)
  note d = this
  show ?case using assms(1)
  proof (cases rule: digits_of_cases [of base x])
    case 1
    then show ?thesis using d by simp
  next
    case 2
    then show ?thesis using d less.IH by simp
  qed
qed

lemma digits_of_length:
  assumes "2 \<le> base"
  shows "x < base ^ Suc k \<Longrightarrow> length (digits_of base x) \<le> Suc k"
proof (induction k arbitrary: x)
  case 0
  then show ?case using digits_of.simps [of base x] by simp
next
  case (Suc k)
  then have "x div base < base ^ Suc k" by (simp add: less_mult_imp_div_less mult.commute)
  then have "length (digits_of base (x div base)) \<le> Suc k" by (rule Suc.IH)
  then show ?case using digits_of.simps [of base x] by simp
qed

lemma digits_of_nonempty: "digits_of base x \<noteq> []"
  using digits_of.simps [of base x] by simp

lemma signed_value_digits: "signed_value 10 (rev (digits_of 10 x)) = int x"
proof -
  have "last (digits_of 10 x) \<noteq> 45" using digits_of_nonminus [of 10 x] last_in_set [OF digits_of_nonempty [of 10 x]] by auto
  then show ?thesis using digits_of_value [of 10 x] by (simp add: signed_value_def hd_rev)
qed

lemma uint_of_sint: "uint (word_of_int k :: uint) = k mod 2 ^ 32"
  by (simp only: uint_word_of_int) simp

lemma abs_value:
  "sint (xx :: uint) < 0 \<Longrightarrow> int (unat (- xx)) = - sint xx" "0 \<le> sint (xx :: uint) \<Longrightarrow> int (unat xx) = sint xx"
proof -
  have r: "- (2 ^ 31) \<le> sint xx" "sint xx < 2 ^ 31" using sint_greater_eq [of xx] sint_less [of xx] by simp_all
  have "uint (- xx) = (- sint xx) mod 2 ^ 32" using uint_of_sint [of "- sint xx"] by simp
  then show "int (unat (- xx)) = - sint xx" if "sint xx < 0" using r that by (simp add: unat_eq_nat_uint)
  have "uint xx = sint xx mod 2 ^ 32" using uint_of_sint [of "sint xx"] by simp
  then show "int (unat xx) = sint xx" if "0 \<le> sint xx" using r that by (simp add: unat_eq_nat_uint)
qed

text \<open>
  C23. Numbers are printed so that they read back: for every \<^verbatim>\<open>int\<close>, the smallest included, the decimal text of \<open>printint\<close> denotes the value that was
  passed, and its at most 11 characters fit the buffer of 16.
\<close>

theorem printint_reads_back:
  "signed_value 10 (printint xx 10 True) = sint xx \<and> length (printint xx 10 True) \<le> 11"
proof -
  have l: "length (digits_of 10 (unat x)) \<le> 10" for x :: uint
    using digits_of_length [of 10 "unat x" 9] unsigned_less [of x, where 'a = nat] by simp
  show ?thesis
  proof (cases "sint xx < 0")
    case True
    then have "printint xx 10 True = 45 # rev (digits_of 10 (unat (- xx)))" by (simp add: printint_def)
    then show ?thesis using l [of "- xx"] abs_value(1) [OF True] digits_of_value [of 10 "unat (- xx)"] by (simp add: signed_value_def)
  next
    case False
    then have "printint xx 10 True = rev (digits_of 10 (unat xx))" by (simp add: printint_def)
    moreover have "int (unat xx) = sint xx" using False by (intro abs_value(2)) simp
    ultimately show ?thesis using l [of xx] by (simp add: signed_value_digits)
  qed
qed


section \<open>Printing on a serial port that drains\<close>

text \<open>The synchronous output waits for the status bit; on a port that sets it, printing only changes the device.\<close>

definition uart_idle :: "'d mmio \<Rightarrow> bool" where
  "uart_idle M \<longleftrightarrow> (\<forall>d. fst (rd8 M (0x10000000 + LSR) d) AND LSR_TX_IDLE \<noteq> 0)"

text \<open>\<open>prints m s\<close>: run from \<open>s\<close>, with the device in any state, \<open>m\<close> returns and has changed nothing but the device.\<close>

definition prints :: "(('d, 'z) io_st_scheme, unit) kprog \<Rightarrow> ('d, 'z) io_st_scheme \<Rightarrow> bool" where
  "prints m s \<longleftrightarrow> (\<forall>d. \<exists>d'. m (s\<lparr>dev := d\<rparr>) = Ret () (s\<lparr>dev := d'\<rparr>))"

lemma prints_kret [simp]: "prints (kret ()) s"
  by (simp add: prints_def kret_def) blast

lemma prints_kthen:
  assumes "prints m s" "prints n s"
  shows "prints (kthen m n) s"
  unfolding prints_def
proof
  fix d
  obtain d1 where "m (s\<lparr>dev := d\<rparr>) = Ret () (s\<lparr>dev := d1\<rparr>)" using assms(1) unfolding prints_def by blast
  moreover obtain d2 where "n (s\<lparr>dev := d1\<rparr>) = Ret () (s\<lparr>dev := d2\<rparr>)" using assms(2) unfolding prints_def by blast
  ultimately show "\<exists>d'. kthen m n (s\<lparr>dev := d\<rparr>) = Ret () (s\<lparr>dev := d'\<rparr>)" by (auto simp: kprog_simps)
qed

lemma prints_kfor: "(\<And>x. x \<in> set xs \<Longrightarrow> prints (f x) s) \<Longrightarrow> prints (kfor xs f) s"
  by (induction xs) (auto intro: prints_kthen)

lemma prints_cong: "\<lbrakk>prints n s; \<And>d. m (s\<lparr>dev := d\<rparr>) = n (s\<lparr>dev := d\<rparr>)\<rbrakk> \<Longrightarrow> prints m s"
  by (simp add: prints_def)

lemma printsD: "prints m s \<Longrightarrow> \<exists>d. m s = Ret () (s\<lparr>dev := d\<rparr>)"
  unfolding prints_def by (erule allE [of _ "dev s"]) simp

lemma prints_uartputc_sync:
  assumes "uart_idle M" "\<not> panicked s"
  shows "prints (uartputc_sync M c) s"
  unfolding prints_def
proof
  fix d0
  obtain v d where v: "rd8 M (0x10000000 + LSR) d0 = (v, d)" by fastforce
  then have "v AND LSR_TX_IDLE \<noteq> 0" using assms(1) unfolding uart_idle_def by (metis fst_conv)
  then have "kwhile (uart_wait_step M) () (s\<lparr>dev := d0\<rparr>) = Ret () (s\<lparr>dev := d\<rparr>)"
    using v by (subst kwhile_unfold) (simp add: uart_wait_step_def ReadReg_def Read8_def kprog_simps)
  then show "\<exists>d'. uartputc_sync M c (s\<lparr>dev := d0\<rparr>) = Ret () (s\<lparr>dev := d'\<rparr>)"
    using assms(2) by (auto simp: uartputc_sync_def WriteReg_def Write8_def kprog_simps)
qed

lemma prints_consputc: "\<lbrakk>uart_idle M; \<not> panicked s\<rbrakk> \<Longrightarrow> prints (consputc M c) s"
  by (simp add: consputc_def prints_uartputc_sync prints_kthen)

lemma prints_printf: "\<lbrakk>uart_idle M; \<not> panicked s; printf_text fmt ap \<noteq> None\<rbrakk> \<Longrightarrow> prints (printf M fmt ap) s"
  by (auto simp: printf_def intro!: prints_kfor prints_consputc)

lemma prints_procdump:
  assumes "uart_idle M" "\<not> panicked s"
  shows "prints (procdump M) s"
proof -
  have nl: "prints (printf M [10] []) s" using assms by (intro prints_printf) simp_all
  have line: "prints (printf M (chars ''%d %s %s'') [ANum a, AStr b, AStr c]) s" for a b c
    using assms by (intro prints_printf) (simp_all add: chars_def)
  show ?thesis
    unfolding procdump_def
  proof (intro prints_kthen nl prints_kfor)
    fix p
    let ?x = "procs s p"
    have "prints (if p_state ?x = UNUSED then kret () else kthen (printf M (chars ''%d %s %s'')
        [ANum (word_of_int (p_pid ?x)), AStr (Some (chars (state_name (p_state ?x)))), AStr (Some (cname 16 (p_name ?x)))])
        (printf M [10] [])) s"
      using line nl by (auto intro: prints_kthen)
    then show "prints (\<lambda>s. if p_state (procs s p) = UNUSED then Ret () s else kthen (printf M (chars ''%d %s %s'')
        [ANum (word_of_int (p_pid (procs s p))), AStr (Some (chars (state_name (p_state (procs s p))))),
         AStr (Some (cname 16 (p_name (procs s p))))]) (printf M [10] []) s) s"
      by (rule prints_cong) (simp add: kret_def)
  qed
qed

end
