(* ===== verification/Console.thy ===== *)
theory Console
  imports Printf
begin

text \<open>
  The console device, \<^verbatim>\<open>kernel/console.c\<close>, and the serial interrupt of \<^verbatim>\<open>kernel/uart.c\<close>. Input is collected in a ring of 128 bytes
  with three counters: \<open>cons_r\<close> up to where it has been read, \<open>cons_w\<close> up to where complete lines end, \<open>cons_e\<close> up to where
  the line being edited ends.
\<close>

abbreviation INPUT_BUF :: nat where "INPUT_BUF \<equiv> 128"

definition consolewrite_step :: "'d mmio \<Rightarrow> addr \<Rightarrow> int \<Rightarrow> nat \<Rightarrow> (('d, 'z) io_st_scheme, nat + (nat + int)) kprog" where
  "consolewrite_step M src n i =
     (if int i < n then
        kbind (either_copyin (SUser (src + of_nat i)) 1) (\<lambda>(r, c).
          if r = -1 then kret (Inr (Inr (int i)))
          else kbind (uartputc M (hd c)) (\<lambda>ok. kret (if ok then Inl (Suc i) else Inr (Inl i))))
      else kret (Inr (Inr (int i))))"

definition consolewrite :: "'d mmio \<Rightarrow> addr \<Rightarrow> int \<Rightarrow> nat \<Rightarrow> (('d, 'z) io_st_scheme, nat + int) kprog" where
  "consolewrite M src n i = kwhile (consolewrite_step M src n) i"

text \<open>
  The loop of \<^verbatim>\<open>consoleread\<close>, on the number of bytes copied. A character that is not copied because the user address is bad is lost,
  as in the source.
\<close>

definition consoleread_step :: "addr \<Rightarrow> int \<Rightarrow> nat \<Rightarrow> (('d, 'z) io_st_scheme, nat + (nat + int)) kprog" where
  "consoleread_step dst target i = (\<lambda>s.
     if target - int i > 0 then
       if cons_r s = cons_w s then
         if p_killed (myproc s) \<noteq> 0 then Ret (Inr (Inr (-1))) s
         else Ret (Inr (Inl i)) (go_to_sleep ChConsole s)
       else
         let c = cons_buf s (unat (cons_r s mod of_nat INPUT_BUF)); s = s\<lparr>cons_r := cons_r s + 1\<rparr> in
         if c = 4 then Ret (Inr (Inr (int i))) (if 0 < i then s\<lparr>cons_r := cons_r s - 1\<rparr> else s)
         else
           kbind (either_copyout (DUser (dst + of_nat i)) (\<lambda>_. c) 1) (\<lambda>r.
             if r = -1 then kret (Inr (Inr (int i)))
             else if c = 10 then kret (Inr (Inr (int (Suc i))))
             else kret (Inl (Suc i))) s
     else Ret (Inr (Inr (int i))) s)"

definition consoleread :: "addr \<Rightarrow> int \<Rightarrow> nat \<Rightarrow> (('d, 'z) io_st_scheme, nat + int) kprog" where
  "consoleread dst n i = kwhile (consoleread_step dst n) i"

definition kill_line_step :: "'d mmio \<Rightarrow> unit \<Rightarrow> (('d, 'z) io_st_scheme, unit + unit) kprog" where
  "kill_line_step M u = (\<lambda>s.
     if cons_e s \<noteq> cons_w s \<and> cons_buf s (unat ((cons_e s - 1) mod of_nat INPUT_BUF)) \<noteq> 10
     then kthen (kmod (\<lambda>s. s\<lparr>cons_e := cons_e s - 1\<rparr>)) (kthen (consputc M BACKSPACE) (kret (Inl ()))) s
     else Ret (Inr ()) s)"

text \<open>The characters of control-P, control-U, control-H, delete and control-D are 16, 21, 8, 127 and 4.\<close>

definition consoleintr :: "'d mmio \<Rightarrow> uchar \<Rightarrow> (('d, 'z) io_st_scheme, unit) kprog" where
  "consoleintr M c =
     (if c = 16 then procdump M
      else if c = 21 then kwhile (kill_line_step M) ()
      else if c = 8 \<or> c = 127 then (\<lambda>s.
        if cons_e s \<noteq> cons_w s then kthen (kmod (\<lambda>s. s\<lparr>cons_e := cons_e s - 1\<rparr>)) (consputc M BACKSPACE) s
        else Ret () s)
      else (\<lambda>s.
        if c \<noteq> 0 \<and> cons_e s - cons_r s < of_nat INPUT_BUF then
          let c = (if c = 13 then 10 else c) in
          kthen (consputc M (ucast c))
         (kthen (kmod (\<lambda>s. s\<lparr>cons_buf := (cons_buf s)(unat (cons_e s mod of_nat INPUT_BUF) := c), cons_e := cons_e s + 1\<rparr>))
         (kmod (\<lambda>s. if c = 10 \<or> c = 4 \<or> cons_e s = cons_r s + of_nat INPUT_BUF
                    then wakeup ChConsole (s\<lparr>cons_w := cons_e s\<rparr>) else s))) s
        else Ret () s))"

definition consoleinit :: "'d mmio \<Rightarrow> (('d, 'z) io_st_scheme, unit) kprog" where
  "consoleinit M = uartinit M"

text \<open>The device switch after \<^verbatim>\<open>consoleinit\<close>: only the console, major number 1.\<close>

definition console_devsw :: "'d mmio \<Rightarrow> (('d, 'z) io_st_scheme) devsw" where
  "console_devsw M = (\<lambda>major. if major = 1 then (Some consoleread, Some (consolewrite M)) else (None, None))"

definition uartintr_step :: "'d mmio \<Rightarrow> unit \<Rightarrow> (('d, 'z) io_st_scheme, unit + unit) kprog" where
  "uartintr_step M u = kbind (uartgetc M) (\<lambda>c. case c of
     None \<Rightarrow> kret (Inr ()) | Some c \<Rightarrow> kthen (consoleintr M c) (kret (Inl ())))"

definition uartintr :: "'d mmio \<Rightarrow> (('d, 'z) io_st_scheme, unit) kprog" where
  "uartintr M = kthen (kwhile (uartintr_step M) ()) (uartstart M)"

section \<open>The line discipline\<close>

text \<open>
  The specification of console input: complete lines that wait for a reader, and the line being edited. A character is echoed and
  added unless the 128 bytes are used up; return becomes newline; a newline, control-D or the last free byte completes the line; control-H
  and delete take back one character, control-U the line.
\<close>

definition line_input :: "uchar \<Rightarrow> uchar list \<times> uchar list \<Rightarrow> uchar list \<times> uchar list" where
  "line_input c l = (case l of (lines, edit) \<Rightarrow>
     if c = 16 then (lines, edit)
     else if c = 21 then (lines, rev (dropWhile (\<lambda>x. x \<noteq> 10) (rev edit)))
     else if c = 8 \<or> c = 127 then (lines, butlast edit)
     else if c \<noteq> 0 \<and> length lines + length edit < INPUT_BUF then
       let c = (if c = 13 then 10 else c); edit = edit @ [c] in
       if c = 10 \<or> c = 4 \<or> length lines + length edit = INPUT_BUF then (lines @ edit, []) else (lines, edit)
     else (lines, edit))"

definition cons_view :: "('d, 'z) io_st_scheme \<Rightarrow> uchar list \<times> uchar list" where
  "cons_view s = (ring_list INPUT_BUF (cons_buf s) (cons_r s) (unat (cons_w s - cons_r s)),
                  ring_list INPUT_BUF (cons_buf s) (cons_w s) (unat (cons_e s - cons_w s)))"

definition cons_ok :: "('d, 'z) io_st_scheme \<Rightarrow> bool" where
  "cons_ok s \<longleftrightarrow> unat (cons_w s - cons_r s) + unat (cons_e s - cons_w s) \<le> INPUT_BUF"

interpretation cr: ring INPUT_BUF "TYPE(32)"
  by unfold_locales (auto intro!: dvd_triv_right [of _ 33554432, simplified] simp: dvd_def)

lemma cons_ok_count:
  assumes "cons_ok s"
  shows "unat (cons_e s - cons_r s) = unat (cons_w s - cons_r s) + unat (cons_e s - cons_w s)"
proof -
  have "cons_e s - cons_r s = (cons_w s - cons_r s) + (cons_e s - cons_w s)" by simp
  then have "unat (cons_e s - cons_r s) = (unat (cons_w s - cons_r s) + unat (cons_e s - cons_w s)) mod 2 ^ 32"
    by (simp only: unat_word_ariths(1)) simp
  then show ?thesis using assms by (simp add: cons_ok_def)
qed

lemma cons_take_back:
  assumes "cons_ok s" "cons_e s \<noteq> cons_w s"
  shows "cons_ok (s\<lparr>cons_e := cons_e s - 1\<rparr>)" "cons_view (s\<lparr>cons_e := cons_e s - 1\<rparr>) = (fst (cons_view s), butlast (snd (cons_view s)))"
    "last (snd (cons_view s)) = cons_buf s (unat ((cons_e s - 1) mod of_nat INPUT_BUF))" "snd (cons_view s) \<noteq> []"
proof -
  have "cons_e s - cons_w s \<noteq> 0" using assms(2) by simp
  then have k: "unat (cons_e s - cons_w s) = Suc (unat (cons_e s - 1 - cons_w s))"
    using unat_minus_one [of "cons_e s - cons_w s"] unat_gt_0 [of "cons_e s - cons_w s"] by (simp add: diff_right_commute [of _ 1])
  show "cons_ok (s\<lparr>cons_e := cons_e s - 1\<rparr>)" using assms(1) k by (simp add: cons_ok_def)
  show "cons_view (s\<lparr>cons_e := cons_e s - 1\<rparr>) = (fst (cons_view s), butlast (snd (cons_view s)))"
    by (simp add: cons_view_def k ring_list_def butlast_append)
  have "cons_w s + of_nat (unat (cons_e s - 1 - cons_w s)) = cons_e s - 1" by simp
  then show "last (snd (cons_view s)) = cons_buf s (unat ((cons_e s - 1) mod of_nat INPUT_BUF))" "snd (cons_view s) \<noteq> []"
    by (simp_all add: cons_view_def k ring_list_def ring_slot_def)
qed

lemma cons_view_dev [simp]: "cons_view (s\<lparr>dev := d\<rparr>) = cons_view s" "cons_ok (s\<lparr>dev := d\<rparr>) = cons_ok s"
  by (simp_all add: cons_view_def cons_ok_def)

lemma cons_view_wakeup [simp]: "cons_view (wakeup ch s) = cons_view s" "cons_ok (wakeup ch s) = cons_ok s"
  by (simp_all add: cons_view_def cons_ok_def)

lemma cons_view_empty: "snd (cons_view s) = [] \<longleftrightarrow> cons_e s = cons_w s"
  by (auto simp: cons_view_def ring_list_def unat_eq_0)

lemma cons_add:
  assumes ok: "cons_ok s" and room: "cons_e s - cons_r s < of_nat INPUT_BUF"
    and t: "t = s\<lparr>cons_buf := (cons_buf s)(unat (cons_e s mod of_nat INPUT_BUF) := c), cons_e := cons_e s + 1\<rparr>"
  shows "cons_ok t" "cons_view t = (fst (cons_view s), snd (cons_view s) @ [c])"
    "cons_ok (t\<lparr>cons_w := cons_e t\<rparr>)" "cons_view (t\<lparr>cons_w := cons_e t\<rparr>) = (fst (cons_view s) @ snd (cons_view s) @ [c], [])"
proof -
  let ?k = "unat (cons_w s - cons_r s)" and ?l = "unat (cons_e s - cons_w s)"
  let ?buf = "(cons_buf s)(ring_slot INPUT_BUF (cons_r s + of_nat (?k + ?l)) := c)"
  have kl: "?k + ?l < INPUT_BUF" using room cons_ok_count [OF ok] by (simp add: word_less_nat_alt)
  have e: "cons_r s + of_nat (?k + ?l) = cons_e s" "cons_r s + of_nat ?k = cons_w s" by (simp_all add: algebra_simps)
  have bf: "cons_buf t = ?buf" unfolding e by (simp add: t ring_slot_def)
  have "unat (cons_e s - cons_w s + 1) = Suc ?l" "unat (cons_e s - cons_r s + 1) = Suc (?k + ?l)"
    using kl cons_ok_count [OF ok] by (simp_all add: unat_word_ariths(1))
  then have l': "unat (cons_e s + 1 - cons_w s) = Suc ?l" and r': "unat (cons_e s + 1 - cons_r s) = ?k + Suc ?l"
    by (simp_all add: algebra_simps)
  have all: "ring_list INPUT_BUF ?buf (cons_r s) (?k + Suc ?l) = (fst (cons_view s) @ snd (cons_view s)) @ [c]"
    using cr.ring_append [OF kl, of "cons_buf s" "cons_r s" c] ring_list_split [of INPUT_BUF "cons_buf s" "cons_r s" ?k ?l]
    by (simp add: cons_view_def e)
  then have "ring_list INPUT_BUF ?buf (cons_r s) ?k @ ring_list INPUT_BUF ?buf (cons_w s) (Suc ?l) = fst (cons_view s) @ (snd (cons_view s) @ [c])"
    unfolding ring_list_split e by simp
  then have sp: "ring_list INPUT_BUF ?buf (cons_r s) ?k = fst (cons_view s)" "ring_list INPUT_BUF ?buf (cons_w s) (Suc ?l) = snd (cons_view s) @ [c]"
    by (simp_all add: append_eq_append_conv cons_view_def)
  show "cons_ok t" using kl l' by (simp add: t cons_ok_def)
  show "cons_view t = (fst (cons_view s), snd (cons_view s) @ [c])" using sp bf l' by (simp add: cons_view_def t)
  show "cons_ok (t\<lparr>cons_w := cons_e t\<rparr>)" using kl r' by (simp add: t cons_ok_def)
  show "cons_view (t\<lparr>cons_w := cons_e t\<rparr>) = (fst (cons_view s) @ snd (cons_view s) @ [c], [])"
    using all bf r' by (simp add: cons_view_def t)
qed

lemma consputc_keeps:
  assumes "uart_idle M" "\<not> panicked s"
  obtains d where "consputc M c s = Ret () (s\<lparr>dev := d\<rparr>)"
  using printsD [OF prints_consputc [OF assms]] by blast

lemma kill_line:
  fixes s :: "('d, 'z) io_st_scheme"
  assumes "uart_idle M" "\<not> panicked s" "cons_ok s"
  shows "\<exists>s'. kwhile (kill_line_step M) () s = Ret () s' \<and> cons_ok s' \<and>
    cons_view s' = (fst (cons_view s), rev (dropWhile (\<lambda>x. x \<noteq> 10) (rev (snd (cons_view s)))))"
proof -
  let ?goal = "rev (dropWhile (\<lambda>x. x \<noteq> 10) (rev (snd (cons_view s))))"
  let ?I = "\<lambda>(t :: ('d, 'z) io_st_scheme). cons_ok t \<and> \<not> panicked t \<and> fst (cons_view t) = fst (cons_view s) \<and>
     rev (dropWhile (\<lambda>x. x \<noteq> 10) (rev (snd (cons_view t)))) = ?goal"
  have "\<exists>r s'. kwhile (kill_line_step M) () s = Ret r s' \<and> (cons_ok s' \<and> cons_view s' = (fst (cons_view s), ?goal))"
  proof (rule kwhile_total [where I = "\<lambda>_. ?I" and f = "\<lambda>_ t. length (snd (cons_view t))"])
    show "?I s" using assms by simp
    fix u :: unit and t :: "('d, 'z) io_st_scheme" assume I: "?I t"
    show "(\<exists>l' s'. kill_line_step M u t = Ret (Inl l') s' \<and> ?I s' \<and> length (snd (cons_view s')) < length (snd (cons_view t))) \<or>
      (\<exists>r s'. kill_line_step M u t = Ret (Inr r) s' \<and> (cons_ok s' \<and> cons_view s' = (fst (cons_view s), ?goal)))"
    proof (cases "cons_e t \<noteq> cons_w t \<and> cons_buf t (unat ((cons_e t - 1) mod of_nat INPUT_BUF)) \<noteq> 10")
      case True
      let ?t = "t\<lparr>cons_e := cons_e t - 1\<rparr>"
      have p: "\<not> panicked ?t" using I by simp
      obtain d where d: "consputc M BACKSPACE ?t = Ret () (?t\<lparr>dev := d\<rparr>)"
        by (rule consputc_keeps [where c = BACKSPACE, OF assms(1) p])
      then have st: "kill_line_step M u t = Ret (Inl ()) (?t\<lparr>dev := d\<rparr>)" using True by (simp add: kill_line_step_def kprog_simps)
      obtain xs x where x: "snd (cons_view t) = xs @ [x]" "x \<noteq> 10"
        using cons_take_back(3,4) [of t] I True by (metis append_butlast_last_id)
      have v: "cons_view ?t = (fst (cons_view t), xs)" "cons_ok ?t" using cons_take_back(1,2) [of t] I True x by simp_all
      show ?thesis using st v I x by (intro disjI1 exI [of _ "()"] exI [of _ "?t\<lparr>dev := d\<rparr>"]) simp
    next
      case False
      then have "kill_line_step M u t = Ret (Inr ()) t" unfolding kill_line_step_def by (rule if_not_P)
      moreover have "rev (dropWhile (\<lambda>x. x \<noteq> 10) (rev (snd (cons_view t)))) = snd (cons_view t)"
      proof (cases "snd (cons_view t) = []")
        case False
        then have "last (snd (cons_view t)) = 10" using cons_take_back(3) [of t] cons_view_empty [of t] I \<open>\<not> (cons_e t \<noteq> cons_w t \<and> _)\<close> by auto
        then show ?thesis using False by (cases "snd (cons_view t)" rule: rev_cases) auto
      qed simp
      ultimately show ?thesis using I by (intro disjI2 exI [of _ "()"] exI [of _ t]) (auto simp: prod_eq_iff)
    qed
  qed
  then show ?thesis by auto
qed

lemma consoleintr_char:
  assumes "uart_idle M" "\<not> panicked s" "cons_ok s" "c \<notin> {16, 21, 8, 127}"
  shows "\<exists>s'. consoleintr M c s = Ret () s' \<and> cons_ok s' \<and> cons_view s' = line_input c (cons_view s)"
proof (cases "c \<noteq> 0 \<and> cons_e s - cons_r s < of_nat INPUT_BUF")
  case True
  let ?c = "if c = 13 then 10 else c"
  obtain d where d: "consputc M (ucast ?c) s = Ret () (s\<lparr>dev := d\<rparr>)" by (rule consputc_keeps [OF assms(1,2)])
  define s1 where "s1 = s\<lparr>dev := d\<rparr>"
  define t where "t = s1\<lparr>cons_buf := (cons_buf s1)(unat (cons_e s1 mod of_nat INPUT_BUF) := ?c), cons_e := cons_e s1 + 1\<rparr>"
  define s' where "s' = (if ?c = 10 \<or> ?c = 4 \<or> cons_e t = cons_r t + of_nat INPUT_BUF then wakeup ChConsole (t\<lparr>cons_w := cons_e t\<rparr>) else t)"
  have 1: "cons_ok s1" "cons_e s1 - cons_r s1 < of_nat INPUT_BUF" "cons_view s1 = cons_view s" using assms(3) True by (simp_all add: s1_def)
  note add = cons_add [OF 1(1,2) t_def, unfolded 1(3)]
  have "consoleintr M c s = Ret () s'"
    using assms(4) True d by (simp add: consoleintr_def kprog_simps Let_def s'_def t_def s1_def split del: if_split cong: if_cong)
  moreover have len: "length (fst (cons_view s)) + length (snd (cons_view s)) < INPUT_BUF"
    using True cons_ok_count [OF assms(3)] by (simp add: cons_view_def word_less_nat_alt)
  moreover have "cons_e t = cons_r t + of_nat INPUT_BUF \<longleftrightarrow> Suc (length (fst (cons_view s)) + length (snd (cons_view s))) = INPUT_BUF"
  proof -
    have "unat (cons_e s - cons_r s + 1) = Suc (length (fst (cons_view s)) + length (snd (cons_view s)))"
      using len cons_ok_count [OF assms(3)] by (simp add: cons_view_def unat_word_ariths(1))
    moreover have "cons_e t = cons_r t + of_nat INPUT_BUF \<longleftrightarrow> cons_e s - cons_r s + 1 = of_nat INPUT_BUF"
      by (auto simp: t_def s1_def algebra_simps)
    ultimately show ?thesis by (simp add: word_unat_eq_iff)
  qed
  ultimately show ?thesis
    using add assms(4) True by (intro exI [of _ s']) (auto simp: s'_def line_input_def Let_def split: prod.split if_splits)
next
  case False
  then have "consoleintr M c s = Ret () s" using assms(4) by (auto simp: consoleintr_def Let_def)
  moreover have "\<not> (c \<noteq> 0 \<and> length (fst (cons_view s)) + length (snd (cons_view s)) < INPUT_BUF)"
    using False cons_ok_count [OF assms(3)] by (simp add: cons_view_def word_less_nat_alt)
  ultimately show ?thesis using assms(3,4) by (auto simp: line_input_def split: prod.split)
qed



end
