(* ===== verification/Virtio.thy ===== *)
theory Virtio
  imports Uart
begin

text \<open>
  The driver of the virtio disk, \<^verbatim>\<open>kernel/virtio_disk.c\<close>: the descriptor table and the two rings that the driver
  shares with the device. The theory of the buffer cache uses the contract of \<^verbatim>\<open>virtio_disk_rw\<close>, that a request is complete
  on return; here is the code behind it, cut where it waits: \<open>virtio_disk_submit\<close> up to the loop on \<^verbatim>\<open>b->disk\<close> and \<open>virtio_disk_finish\<close>
  from there on. What a descriptor points to is named by the object rather than by its address.
\<close>

abbreviation NUM :: nat where "NUM \<equiv> 8"
abbreviation VIRTIO0 :: addr where "VIRTIO0 \<equiv> 0x10001000"
abbreviation VRING_DESC_F_NEXT :: ushort where "VRING_DESC_F_NEXT \<equiv> 1"
abbreviation VRING_DESC_F_WRITE :: ushort where "VRING_DESC_F_WRITE \<equiv> 2"
abbreviation VIRTIO_BLK_T_IN :: uint where "VIRTIO_BLK_T_IN \<equiv> 0"
abbreviation VIRTIO_BLK_T_OUT :: uint where "VIRTIO_BLK_T_OUT \<equiv> 1"

datatype daddr = ANull | AOps nat | AData nat | AStatus nat

record virtq_desc =
  d_addr :: daddr
  d_len :: uint
  d_flags :: ushort
  d_next :: ushort

record virtio_blk_req =
  r_type :: uint
  r_reserved :: uint
  r_sector :: uint64

record 'd disk_st = "'d io_st" +
  v_desc :: "nat \<Rightarrow> virtq_desc"
  v_avail_idx :: ushort
  v_avail_ring :: "nat \<Rightarrow> ushort"
  v_used_idx :: ushort
  v_used_ring :: "nat \<Rightarrow> uint"
  v_free :: "nat \<Rightarrow> bool"
  v_seen :: ushort
  v_info_b :: "nat \<Rightarrow> nat option"
  v_info_status :: "nat \<Rightarrow> uchar"
  v_ops :: "nat \<Rightarrow> virtio_blk_req"
  v_pages :: addr

definition desc0 :: virtq_desc where
  "desc0 = \<lparr>d_addr = ANull, d_len = 0, d_flags = 0, d_next = 0\<rparr>"

section \<open>Initialization\<close>

text \<open>The feature bits the driver refuses: read-only, SCSI, write-back mode, multi-queue, layout, event index, indirect.\<close>

definition driver_features :: "uint \<Rightarrow> uint" where
  "driver_features f = f AND NOT (push_bit 5 1) AND NOT (push_bit 7 1) AND NOT (push_bit 11 1) AND NOT (push_bit 12 1)
     AND NOT (push_bit 27 1) AND NOT (push_bit 29 1) AND NOT (push_bit 28 1)"

text \<open>The tests are made in order and the first that fails ends the reading.\<close>

definition virtio_probe :: "'d mmio \<Rightarrow> (('d, 'z) io_st_scheme, bool) kprog" where
  "virtio_probe M =
     kbind (Read32 M (VIRTIO0 + 0x000)) (\<lambda>v. if v \<noteq> 0x74726976 then kret False else
     kbind (Read32 M (VIRTIO0 + 0x004)) (\<lambda>v. if v \<noteq> 1 then kret False else
     kbind (Read32 M (VIRTIO0 + 0x008)) (\<lambda>v. if v \<noteq> 2 then kret False else
     kbind (Read32 M (VIRTIO0 + 0x00c)) (\<lambda>v. kret (v = 0x554d4551)))))"

definition virtio_disk_init :: "'d mmio \<Rightarrow> (('d, 'z) disk_st_scheme, unit) kprog" where
  "virtio_disk_init M =
     kbind (virtio_probe M) (\<lambda>found.
     if \<not> found then kpanic ''could not find virtio disk''
     else
       kthen (Write32 M (VIRTIO0 + 0x070) 1)
      (kthen (Write32 M (VIRTIO0 + 0x070) (1 OR 2))
      (kbind (Read32 M (VIRTIO0 + 0x010)) (\<lambda>features.
       kthen (Write32 M (VIRTIO0 + 0x020) (driver_features features))
      (kthen (Write32 M (VIRTIO0 + 0x070) (1 OR 2 OR 8))
      (kthen (Write32 M (VIRTIO0 + 0x070) (1 OR 2 OR 8 OR 4))
      (kthen (Write32 M (VIRTIO0 + 0x028) 4096)
      (kthen (Write32 M (VIRTIO0 + 0x030) 0)
      (kbind (Read32 M (VIRTIO0 + 0x034)) (\<lambda>max.
       if max = 0 then kpanic ''virtio disk has no queue 0''
       else if max < of_nat NUM then kpanic ''virtio disk max queue too short''
       else
         kthen (Write32 M (VIRTIO0 + 0x038) (of_nat NUM))
        (kthen (kmod (\<lambda>s. s\<lparr>v_desc := (\<lambda>_. desc0), v_avail_idx := 0, v_avail_ring := (\<lambda>_. 0),
                            v_used_idx := 0, v_used_ring := (\<lambda>_. 0)\<rparr>))
        (kthen (\<lambda>s. Write32 M (VIRTIO0 + 0x040) (ucast (drop_bit 12 (v_pages s))) s)
               (kmod (\<lambda>s. s\<lparr>v_free := (\<lambda>i. i < NUM \<or> v_free s i)\<rparr>))))))))))))))"

section \<open>Descriptors\<close>

definition alloc_desc :: "(('d, 'z) disk_st_scheme, nat option) kprog" where
  "alloc_desc = (\<lambda>s. case List.find (v_free s) [0 ..< NUM] of
     None \<Rightarrow> Ret None s | Some i \<Rightarrow> Ret (Some i) (s\<lparr>v_free := (v_free s)(i := False)\<rparr>))"

definition free_desc :: "nat \<Rightarrow> (('d, 'z) disk_st_scheme, unit) kprog" where
  "free_desc i = (\<lambda>s.
     if i \<ge> NUM then Panic ''free_desc 1''
     else if v_free s i then Panic ''free_desc 2''
     else Ret () (wakeup ChDiskFree (s\<lparr>v_desc := (v_desc s)(i := desc0), v_free := (v_free s)(i := True)\<rparr>)))"

definition free_chain_step :: "nat \<Rightarrow> (('d, 'z) disk_st_scheme, nat + unit) kprog" where
  "free_chain_step i = (\<lambda>s.
     kthen (free_desc i)
       (kret (if d_flags (v_desc s i) AND VRING_DESC_F_NEXT \<noteq> 0 then Inl (unat (d_next (v_desc s i))) else Inr ())) s)"

definition free_chain :: "nat \<Rightarrow> (('d, 'z) disk_st_scheme, unit) kprog" where
  "free_chain i = kwhile free_chain_step i"

text \<open>The indices allocated, or none after those already taken are given back.\<close>

fun alloc_descs :: "nat \<Rightarrow> nat list \<Rightarrow> (('d, 'z) disk_st_scheme, nat list option) kprog" where
  "alloc_descs 0 idx = kret (Some idx)"
| "alloc_descs (Suc n) idx = kbind alloc_desc (\<lambda>r. case r of
     None \<Rightarrow> kthen (kfor idx free_desc) (kret None)
   | Some i \<Rightarrow> alloc_descs n (idx @ [i]))"

definition alloc3_desc :: "(('d, 'z) disk_st_scheme, nat list option) kprog" where
  "alloc3_desc = alloc_descs 3 []"

section \<open>Requests\<close>

text \<open>\<^verbatim>\<open>b->blockno * (BSIZE / 512)\<close> is computed in 32 bits.\<close>

definition sector_of :: "uint \<Rightarrow> uint64" where
  "sector_of blockno = ucast (blockno * (of_nat BSIZE div 512))"

definition format_request :: "nat \<Rightarrow> bool \<Rightarrow> nat \<Rightarrow> nat \<Rightarrow> nat \<Rightarrow> ('d, 'z) disk_st_scheme \<Rightarrow> ('d, 'z) disk_st_scheme" where
  "format_request b wr i0 i1 i2 s = s\<lparr>
     v_ops := (v_ops s)(i0 := \<lparr>r_type = (if wr then VIRTIO_BLK_T_OUT else VIRTIO_BLK_T_IN), r_reserved = 0,
       r_sector = sector_of (b_blockno (bcache s b))\<rparr>),
     v_desc := (v_desc s)
       (i0 := \<lparr>d_addr = AOps i0, d_len = 16, d_flags = VRING_DESC_F_NEXT, d_next = of_nat i1\<rparr>,
        i1 := \<lparr>d_addr = AData b, d_len = of_nat BSIZE, d_flags = (if wr then 0 else VRING_DESC_F_WRITE) OR VRING_DESC_F_NEXT,
               d_next = of_nat i2\<rparr>,
        i2 := \<lparr>d_addr = AStatus i0, d_len = 1, d_flags = VRING_DESC_F_WRITE, d_next = 0\<rparr>),
     v_info_status := (v_info_status s)(i0 := 0xff)\<rparr>"

text \<open>The head of the chain, or nothing if the caller was put to sleep for want of descriptors.\<close>

definition virtio_disk_submit :: "'d mmio \<Rightarrow> nat \<Rightarrow> bool \<Rightarrow> (('d, 'z) disk_st_scheme, nat option) kprog" where
  "virtio_disk_submit M b wr = kbind alloc3_desc (\<lambda>r. case r of
     None \<Rightarrow> kthen (kmod (go_to_sleep ChDiskFree)) (kret None)
   | Some idx \<Rightarrow>
       let i0 = idx ! 0 in
       kthen (kmod (format_request b wr i0 (idx ! 1) (idx ! 2)))
      (kthen (kmod (upd_buf b (\<lambda>x. x\<lparr>b_disk := True\<rparr>)))
      (kthen (kmod (\<lambda>s. s\<lparr>v_info_b := (v_info_b s)(i0 := Some b)\<rparr>))
      (kthen (kmod (\<lambda>s. s\<lparr>v_avail_ring := (v_avail_ring s)(unat (v_avail_idx s) mod NUM := of_nat i0)\<rparr>))
      (kthen (kmod (\<lambda>s. s\<lparr>v_avail_idx := v_avail_idx s + 1\<rparr>))
      (kthen (Write32 M (VIRTIO0 + 0x050) 0) (kret (Some i0))))))))"

text \<open>\<open>False\<close> if the request is still with the device and the caller sleeps on.\<close>

definition virtio_disk_finish :: "nat \<Rightarrow> nat \<Rightarrow> (('d, 'z) disk_st_scheme, bool) kprog" where
  "virtio_disk_finish b i0 = (\<lambda>s.
     if b_disk (bcache s b) then Ret False (go_to_sleep (ChDisk b) s)
     else kthen (kmod (\<lambda>s. s\<lparr>v_info_b := (v_info_b s)(i0 := None)\<rparr>))
         (kthen (free_chain i0) (kret True)) s)"

text \<open>A used entry whose request has no buffer makes the handler write through a null pointer, a kernel page fault.\<close>

definition virtio_intr_step :: "unit \<Rightarrow> (('d, 'z) disk_st_scheme, unit + unit) kprog" where
  "virtio_intr_step u = (\<lambda>s.
     if v_seen s = v_used_idx s then Ret (Inr ()) s
     else
       let i = unat (v_used_ring s (unat (v_seen s) mod NUM)) in
       if v_info_status s i \<noteq> 0 then Panic ''virtio_disk_intr status''
       else case v_info_b s i of
         None \<Rightarrow> Panic ''kerneltrap''
       | Some b \<Rightarrow> Ret (Inl ()) ((wakeup (ChDisk b) (upd_buf b (\<lambda>x. x\<lparr>b_disk := False\<rparr>) s))\<lparr>v_seen := v_seen s + 1\<rparr>))"

definition virtio_disk_intr :: "'d mmio \<Rightarrow> (('d, 'z) disk_st_scheme, unit) kprog" where
  "virtio_disk_intr M =
     kbind (Read32 M (VIRTIO0 + 0x060)) (\<lambda>v.
     kthen (Write32 M (VIRTIO0 + 0x064) (v AND 3))
           (kwhile virtio_intr_step ()))"

definition boot_disk :: "memory \<Rightarrow> unit disk_st" where
  "boot_disk m = io_st.extend (boot_io m)
     \<lparr>v_desc = (\<lambda>_. desc0), v_avail_idx = 0, v_avail_ring = (\<lambda>_. 0), v_used_idx = 0, v_used_ring = (\<lambda>_. 0),
      v_free = (\<lambda>i. i < NUM), v_seen = 0, v_info_b = (\<lambda>_. None), v_info_status = (\<lambda>_. 0),
      v_ops = (\<lambda>_. \<lparr>r_type = 0, r_reserved = 0, r_sector = 0\<rparr>), v_pages = 0x80010000\<rparr>"

section \<open>The device and the contract of \<^verbatim>\<open>virtio_disk_rw\<close>\<close>

text \<open>
  What the virtio specification says a block device does with a chain: the first descriptor points to the request header, the
  second to the data, the third to the status byte. The device moves the block that starts at the sector of the header between the disk and the
  data, sets the status to 0 and adds the head of the chain to the used ring. A block of the model's disk is 128 sectors.
\<close>

definition next_desc :: "('d, 'z) disk_st_scheme \<Rightarrow> nat \<Rightarrow> nat" where
  "next_desc s i = unat (d_next (v_desc s i))"

definition sector_block :: "uint64 \<Rightarrow> uint" where
  "sector_block sec = ucast (sec div 128)"

definition served :: "nat \<Rightarrow> ('d, 'z) disk_st_scheme \<Rightarrow> ('d, 'z) disk_st_scheme" where
  "served h s =
     (case (d_addr (v_desc s h), d_addr (v_desc s (next_desc s h)), d_addr (v_desc s (next_desc s (next_desc s h)))) of
        (AOps o', AData b, AStatus st) \<Rightarrow>
          (let req = v_ops s o'; k = sector_block (r_sector req);
               s = (if r_type req = VIRTIO_BLK_T_OUT
                    then s\<lparr>disk := (disk s)(k := b_data (bcache s b)), dtrace := dtrace s @ [(k, b_data (bcache s b))]\<rparr>
                    else upd_buf b (\<lambda>x. x\<lparr>b_data := disk s k\<rparr>) s)
           in s\<lparr>v_info_status := (v_info_status s)(st := 0),
                v_used_ring := (v_used_ring s)(unat (v_used_idx s) mod NUM := of_nat h), v_used_idx := v_used_idx s + 1\<rparr>)
      | _ \<Rightarrow> s)"

text \<open>A chain as the driver formats it: linked, of the right lengths, and with the data descriptor open in the right direction.\<close>

definition chain_ok :: "('d, 'z) disk_st_scheme \<Rightarrow> nat \<Rightarrow> bool" where
  "chain_ok s h = (let i1 = next_desc s h; i2 = next_desc s i1; d0 = v_desc s h; d1 = v_desc s i1; d2 = v_desc s i2 in
     h < NUM \<and> i1 < NUM \<and> i2 < NUM \<and>
     d_flags d0 AND VRING_DESC_F_NEXT \<noteq> 0 \<and> d_flags d1 AND VRING_DESC_F_NEXT \<noteq> 0 \<and> d_flags d2 AND VRING_DESC_F_NEXT = 0 \<and>
     d_flags d0 AND VRING_DESC_F_WRITE = 0 \<and> d_flags d2 AND VRING_DESC_F_WRITE \<noteq> 0 \<and> d_len d0 = 16 \<and> d_len d1 = of_nat BSIZE \<and> d_len d2 = 1 \<and>
     (case (d_addr d0, d_addr d1, d_addr d2) of
        (AOps o', AData b, AStatus st) \<Rightarrow> (d_flags d1 AND VRING_DESC_F_WRITE = 0) = (r_type (v_ops s o') = VIRTIO_BLK_T_OUT)
      | _ \<Rightarrow> False))"

definition virtio_device :: "(nat \<Rightarrow> ('d, 'z) disk_st_scheme \<Rightarrow> ('d, 'z) disk_st_scheme) \<Rightarrow> bool" where
  "virtio_device dv \<longleftrightarrow> (\<forall>h s. chain_ok s h \<longrightarrow> dv h s = served h s)"

text \<open>Allocation takes the three lowest free descriptors.\<close>

definition free_list :: "('d, 'z) disk_st_scheme \<Rightarrow> nat list" where
  "free_list s = filter (v_free s) [0 ..< NUM]"

lemma alloc_desc_free:
  assumes "free_list s = i # fs"
  shows "alloc_desc s = Ret (Some i) (s\<lparr>v_free := (v_free s)(i := False)\<rparr>)" "free_list (s\<lparr>v_free := (v_free s)(i := False)\<rparr>) = fs"
    "i < NUM" "v_free s i" "i \<notin> set fs"
proof -
  have "i \<in> set (free_list s)" using assms by simp
  then show "i < NUM" "v_free s i" by (auto simp: free_list_def)
  show "alloc_desc s = Ret (Some i) (s\<lparr>v_free := (v_free s)(i := False)\<rparr>)"
    using assms by (simp add: alloc_desc_def find_filter free_list_def)
  show "free_list (s\<lparr>v_free := (v_free s)(i := False)\<rparr>) = fs" "i \<notin> set fs"
    using filter_rest [of "[0 ..< NUM]" "v_free s" i fs] assms by (simp_all add: free_list_def)
qed

lemma alloc3_desc_free:
  assumes "free_list s = i0 # i1 # i2 # fs"
  shows "alloc3_desc s = Ret (Some [i0, i1, i2]) (s\<lparr>v_free := (v_free s)(i0 := False, i1 := False, i2 := False)\<rparr>)"
    "distinct [i0, i1, i2]" "i0 < NUM" "i1 < NUM" "i2 < NUM" "v_free s i0" "v_free s i1" "v_free s i2"
proof -
  note a0 = alloc_desc_free [OF assms]
  note a1 = alloc_desc_free [OF a0(2)]
  note a2 = alloc_desc_free [OF a1(2)]
  show "alloc3_desc s = Ret (Some [i0, i1, i2]) (s\<lparr>v_free := (v_free s)(i0 := False, i1 := False, i2 := False)\<rparr>)"
    using a0(1) a1(1) a2(1) by (simp add: alloc3_desc_def kprog_simps numeral_3_eq_3)
  show "distinct [i0, i1, i2]" using a0(5) a1(5) by auto
  then show "i0 < NUM" "i1 < NUM" "i2 < NUM" "v_free s i0" "v_free s i1" "v_free s i2" using a0(3,4) a1(3,4) a2(3,4) by auto
qed

text \<open>The state in which a request for buffer \<open>b\<close> has been handed to the device on the chain \<open>i0\<close>, \<open>i1\<close>, \<open>i2\<close>.\<close>

definition submitted :: "nat \<Rightarrow> bool \<Rightarrow> nat \<Rightarrow> nat \<Rightarrow> nat \<Rightarrow> ('d, 'z) disk_st_scheme \<Rightarrow> ('d, 'z) disk_st_scheme" where
  "submitted b wr i0 i1 i2 s =
     (let t = upd_buf b (\<lambda>x. x\<lparr>b_disk := True\<rparr>) (format_request b wr i0 i1 i2 (s\<lparr>v_free := (v_free s)(i0 := False, i1 := False, i2 := False)\<rparr>))
      in t\<lparr>v_info_b := (v_info_b t)(i0 := Some b), v_avail_ring := (v_avail_ring t)(unat (v_avail_idx t) mod NUM := of_nat i0),
           v_avail_idx := v_avail_idx t + 1\<rparr>)"

lemma virtio_submit:
  assumes "free_list s = i0 # i1 # i2 # fs"
  shows "\<exists>d. virtio_disk_submit M b wr s = Ret (Some i0) ((submitted b wr i0 i1 i2 s)\<lparr>dev := d\<rparr>)"
  using alloc3_desc_free(1) [OF assms]
  by (auto simp: virtio_disk_submit_def kprog_simps Write32_def submitted_def Let_def upd_buf_def)

lemma submitted_chain:
  assumes "free_list s = i0 # i1 # i2 # fs"
  shows "chain_ok ((submitted b wr i0 i1 i2 s)\<lparr>dev := d\<rparr>) i0"
proof -
  note a = alloc3_desc_free [OF assms]
  have "unat (of_nat i1 :: ushort) = i1" "unat (of_nat i2 :: ushort) = i2" using a(4,5) by (simp_all add: unat_of_nat)
  then show ?thesis using a(2-5)
    by (simp add: chain_ok_def next_desc_def submitted_def format_request_def upd_buf_def Let_def)
qed

lemma sector_block_of:
  assumes "unat bn < 2 ^ 25"
  shows "sector_block (sector_of bn) = bn"
proof -
  have "unat (bn * 128) = unat bn * 128" using assms by (simp add: unat_word_ariths)
  then have "unat (ucast (bn * 128) div 128 :: uint64) = unat bn" using assms by (simp add: unat_div unsigned_ucast_eq take_bit_nat_eq_self)
  then have "unat (ucast (ucast (bn * 128) div 128 :: uint64) :: uint) = unat bn" using assms by (simp add: unsigned_ucast_eq take_bit_nat_eq_self)
  then show ?thesis by (simp add: sector_block_def sector_of_def word_unat_eq_iff)
qed

lemma free_desc_ok:
  assumes "i < NUM" "\<not> v_free t i"
  shows "free_desc i t = Ret () (wakeup ChDiskFree (t\<lparr>v_desc := (v_desc t)(i := desc0), v_free := (v_free t)(i := True)\<rparr>))"
  using assms by (simp add: free_desc_def)

lemma wakeup_disk [simp]:
  "v_desc (wakeup ch s) = v_desc s" "v_free (wakeup ch s) = v_free s" "bcache (wakeup ch s) = bcache s" "disk (wakeup ch s) = disk s"
  "dtrace (wakeup ch s) = dtrace s" "v_seen (wakeup ch s) = v_seen s" "v_used_idx (wakeup ch s) = v_used_idx s"
  "v_info_b (wakeup ch s) = v_info_b s" "v_info_status (wakeup ch s) = v_info_status s" "v_used_ring (wakeup ch s) = v_used_ring s"
  "v_avail_idx (wakeup ch s) = v_avail_idx s"
  by (simp_all add: wakeup_def)

lemma free_chain3:
  fixes t :: "('d, 'z) disk_st_scheme"
  assumes "distinct [i0, i1, i2]" "i0 < NUM" "i1 < NUM" "i2 < NUM" "\<not> v_free t i0" "\<not> v_free t i1" "\<not> v_free t i2"
    "d_flags (v_desc t i0) AND 1 \<noteq> 0" "d_flags (v_desc t i1) AND 1 \<noteq> 0" "d_flags (v_desc t i2) AND 1 = 0"
    "next_desc t i0 = i1" "next_desc t i1 = i2"
  shows "\<exists>t'. free_chain i0 t = Ret () t' \<and> bcache t' = bcache t \<and> disk t' = disk t \<and> dtrace t' = dtrace t \<and> v_seen t' = v_seen t \<and>
     v_used_idx t' = v_used_idx t \<and> v_free t' = (v_free t)(i0 := True, i1 := True, i2 := True) \<and>
     v_desc t' = (v_desc t)(i0 := desc0, i1 := desc0, i2 := desc0)"
proof -
  let ?f = "\<lambda>i (t :: ('d, 'z) disk_st_scheme). wakeup ChDiskFree (t\<lparr>v_desc := (v_desc t)(i := desc0), v_free := (v_free t)(i := True)\<rparr>)"
  define t1 where t1: "t1 = ?f i0 t"
  define t2 where t2: "t2 = ?f i1 t1"
  define t3 where t3: "t3 = ?f i2 t2"
  have 0: "free_chain_step i0 t = Ret (Inl i1) t1"
    using assms by (simp add: free_chain_step_def free_desc_ok kprog_simps next_desc_def t1)
  have 1: "free_chain_step i1 t1 = Ret (Inl i2) t2"
    using assms by (simp add: free_chain_step_def free_desc_ok kprog_simps next_desc_def t1 t2)
  have 2: "free_chain_step i2 t2 = Ret (Inr ()) t3"
    using assms by (simp add: free_chain_step_def free_desc_ok kprog_simps t1 t2 t3)
  have "free_chain i0 t = Ret () t3"
    unfolding free_chain_def by (simp add: kwhile_unfold 0 1 2)
  then show ?thesis by (intro exI [of _ t3]) (simp add: t1 t2 t3)
qed

text \<open>What the device leaves, and what the interrupt handler and the rest of \<^verbatim>\<open>virtio_disk_rw\<close> make of it.\<close>

lemma served_submitted:
  fixes s :: "('d, 'z) disk_st_scheme"
  assumes f: "free_list s = i0 # i1 # i2 # fs" and bn: "unat (b_blockno (bcache s b)) < 2 ^ 25"
    and t: "t = served i0 ((submitted b wr i0 i1 i2 s)\<lparr>dev := d\<rparr>)" and c: "virtio_disk_rw b wr s = Ret () c"
  shows "bcache t = (bcache c)(b := (bcache c b)\<lparr>b_disk := True\<rparr>)" "disk t = disk c" "dtrace t = dtrace c"
    "v_free t = (v_free s)(i0 := False, i1 := False, i2 := False)" "v_seen t = v_seen s" "v_used_idx t = v_used_idx s + 1"
    "v_info_status t i0 = 0" "v_info_b t i0 = Some b" "v_used_ring t (unat (v_used_idx s) mod NUM) = of_nat i0"
    "v_desc t = v_desc (submitted b wr i0 i1 i2 s)"
proof -
  note a = alloc3_desc_free [OF f]
  have n: "unat (of_nat i1 :: ushort) = i1" "unat (of_nat i2 :: ushort) = i2" using a(4,5) by (simp_all add: unat_of_nat)
  let ?k = "b_blockno (bcache s b)"
  have k: "sector_block (sector_of ?k) = ?k" by (rule sector_block_of [OF bn])
  note defs = t served_def next_desc_def submitted_def format_request_def upd_buf_def Let_def n k
  have c': "c = (if wr then s\<lparr>disk := (disk s)(?k := b_data (bcache s b)), dtrace := dtrace s @ [(?k, b_data (bcache s b))]\<rparr>
     else upd_buf b (\<lambda>x. x\<lparr>b_data := disk s ?k\<rparr>) s)"
    using c by (simp add: virtio_disk_rw_def kprog_simps Let_def)
  show "bcache t = (bcache c)(b := (bcache c b)\<lparr>b_disk := True\<rparr>)"
    using a(2) by (simp add: defs c') (simp add: fun_eq_iff)
  show "disk t = disk c" "dtrace t = dtrace c" using a(2) by (simp_all add: defs c')
  show "v_free t = (v_free s)(i0 := False, i1 := False, i2 := False)" "v_seen t = v_seen s" "v_used_idx t = v_used_idx s + 1"
    "v_info_status t i0 = 0" "v_info_b t i0 = Some b" "v_used_ring t (unat (v_used_idx s) mod NUM) = of_nat i0"
    "v_desc t = v_desc (submitted b wr i0 i1 i2 s)"
    using a(2) by (simp_all add: defs)
qed

lemma virtio_intr_one:
  assumes "v_used_idx t = v_seen t + 1" "v_used_ring t (unat (v_seen t) mod NUM) = of_nat i" "i < NUM" "v_info_status t i = 0" "v_info_b t i = Some b"
  shows "\<exists>d. virtio_disk_intr M t =
    Ret () ((wakeup (ChDisk b) (upd_buf b (\<lambda>x. x\<lparr>b_disk := False\<rparr>) (t\<lparr>dev := d\<rparr>)))\<lparr>v_seen := v_used_idx t\<rparr>)"
proof -
  obtain v d1 where r: "rd32 M (VIRTIO0 + 0x060) (dev t) = (v, d1)" by fastforce
  let ?d = "wr32 M (VIRTIO0 + 0x064) (v AND 3) d1"
  let ?t = "(wakeup (ChDisk b) (upd_buf b (\<lambda>x. x\<lparr>b_disk := False\<rparr>) (t\<lparr>dev := ?d\<rparr>)))\<lparr>v_seen := v_used_idx t\<rparr>"
  have i: "unat (of_nat i :: uint) = i" using assms(3) by (simp add: unat_of_nat)
  have ne: "v_seen t \<noteq> v_seen t + 1" by simp
  have 0: "virtio_intr_step () (t\<lparr>dev := ?d\<rparr>) = Ret (Inl ()) ?t"
    using assms i ne by (simp add: virtio_intr_step_def Let_def upd_buf_def)
  have 1: "virtio_intr_step () ?t = Ret (Inr ()) ?t"
    using assms(1) by (simp add: virtio_intr_step_def upd_buf_def)
  have "kwhile virtio_intr_step () (t\<lparr>dev := ?d\<rparr>) = Ret () ?t"
    by (subst kwhile_unfold, simp only: 0 outcome.case sum.case, subst kwhile_unfold, simp only: 1 outcome.case sum.case)
  then show ?thesis using r by (intro exI [of _ ?d]) (simp add: virtio_disk_intr_def Read32_def Write32_def kprog_simps)
qed

lemma virtio_complete:
  fixes s :: "('d, 'z) disk_st_scheme"
  assumes f: "free_list s = i0 # i1 # i2 # fs" and seen: "v_seen s = v_used_idx s" and bn: "unat (b_blockno (bcache s b)) < 2 ^ 25"
    and dv: "virtio_device dv" and s1: "s1 = (submitted b wr i0 i1 i2 s)\<lparr>dev := d\<rparr>" and c: "virtio_disk_rw b wr s = Ret () c"
  shows "\<exists>s2 s3. virtio_disk_intr M (dv i0 s1) = Ret () s2 \<and> virtio_disk_finish b i0 s2 = Ret True s3 \<and>
    bcache s3 = (bcache c)(b := (bcache c b)\<lparr>b_disk := False\<rparr>) \<and> disk s3 = disk c \<and> dtrace s3 = dtrace c \<and>
    v_free s3 = v_free s \<and> v_seen s3 = v_used_idx s3"
proof -
  note a = alloc3_desc_free [OF f]
  define t where "t = dv i0 s1"
  then have "t = served i0 ((submitted b wr i0 i1 i2 s)\<lparr>dev := d\<rparr>)"
    using submitted_chain [OF f] dv unfolding virtio_device_def s1 by simp
  note sv = served_submitted [OF f bn this c]
  obtain d' where i: "virtio_disk_intr M t =
      Ret () ((wakeup (ChDisk b) (upd_buf b (\<lambda>x. x\<lparr>b_disk := False\<rparr>) (t\<lparr>dev := d'\<rparr>)))\<lparr>v_seen := v_used_idx t\<rparr>)"
    using virtio_intr_one [of t i0 b M] sv a(3) seen by auto
  define s2 where "s2 = (wakeup (ChDisk b) (upd_buf b (\<lambda>x. x\<lparr>b_disk := False\<rparr>) (t\<lparr>dev := d'\<rparr>)))\<lparr>v_seen := v_used_idx t\<rparr>"
  define u where "u = s2\<lparr>v_info_b := (v_info_b s2)(i0 := None)\<rparr>"
  have dsc: "v_desc u = v_desc (submitted b wr i0 i1 i2 s)" "v_free u = (v_free s)(i0 := False, i1 := False, i2 := False)"
      "bcache u = (bcache c)(b := (bcache c b)\<lparr>b_disk := False\<rparr>)" "disk u = disk c" "dtrace u = dtrace c" "v_seen u = v_used_idx u"
    using sv by (simp_all add: u_def s2_def upd_buf_def)
  have n: "unat (of_nat i1 :: ushort) = i1" "unat (of_nat i2 :: ushort) = i2" using a(4,5) by (simp_all add: unat_of_nat)
  obtain s3 where s3: "free_chain i0 u = Ret () s3" "bcache s3 = bcache u" "disk s3 = disk u" "dtrace s3 = dtrace u" "v_seen s3 = v_seen u"
     "v_used_idx s3 = v_used_idx u" "v_free s3 = (v_free u)(i0 := True, i1 := True, i2 := True)"
    using free_chain3 [OF a(2-5), of u] a(2) n
    by (auto simp: dsc next_desc_def submitted_def format_request_def upd_buf_def Let_def)
  have "\<not> b_disk (bcache s2 b)" by (simp add: s2_def upd_buf_def)
  then have "virtio_disk_finish b i0 s2 = Ret True s3" using s3(1) by (simp add: virtio_disk_finish_def kprog_simps u_def)
  moreover have "v_free s3 = v_free s" using s3(7) dsc(2) a(2,6-8) by (simp add: fun_eq_iff)
  ultimately show ?thesis using i s3(2-6) dsc(3-6) unfolding t_def [symmetric] s2_def [symmetric] by auto
qed



end
