(* ===== verification/Sound.thy ===== *)
theory Sound
  imports Virtio
begin

text \<open>
  The AC97 sound driver: \<^verbatim>\<open>kernel/pci.c\<close> (registers, the queue of full buffers, the interrupt
  handler, device discovery) and \<^verbatim>\<open>kernel/sound_card.c\<close> (the audio system calls).

  The device itself is hardware, the parameter \<open>M\<close>. A pointer to a \<^verbatim>\<open>struct sound_node\<close> is the index of the node
  in \<^verbatim>\<open>sound_buffer[]\<close>, the only nodes there are.
\<close>

section \<open>Device registers\<close>

abbreviation DMA_BUFFER_NUM :: nat where "DMA_BUFFER_NUM \<equiv> 32"
abbreviation DMA_SAMPLE_NUM :: nat where "DMA_SAMPLE_NUM \<equiv> 1024"
abbreviation DMA_BUFFER_SIZE :: nat where "DMA_BUFFER_SIZE \<equiv> 2048"
abbreviation BUFFER_NODE_NUM :: nat where "BUFFER_NODE_NUM \<equiv> 3"

record descriptor =
  buffer_pointer :: uint
  buffer_ctrl_and_len :: uint

record sound_node =
  flag :: uchar
  next_node :: "nat option"
  node_data :: cptr

text \<open>
  The globals of both files. The addresses the linker gives to \<^verbatim>\<open>descriptor_list\<close> and
  \<^verbatim>\<open>sound_buffer\<close> are constant fields.
\<close>

record 'd sound_st = "'d disk_st" +
  namba :: uint
  nabmba :: uint
  descriptor_list :: "nat \<Rightarrow> descriptor"
  sound_queue_head :: "nat option"
  sound_buffer :: "nat \<Rightarrow> sound_node"
  buffer_index :: nat
  used_size :: int
  descriptor_list_addr :: addr
  sound_buffer_addr :: addr

text \<open>\<^verbatim>\<open>PCIE_PIO | (base + offset)\<close>, the base being a 32-bit I/O address.\<close>

definition pio :: "uint \<Rightarrow> uint \<Rightarrow> addr" where
  "pio base off = 0x3000000 OR ucast (base + off)"

section \<open>kernel/pci.c\<close>

text \<open>
  \<^verbatim>\<open>ecam + offaddr\<close> is arithmetic on a \<^verbatim>\<open>uint32*\<close>, so the byte address is four times the offset.
\<close>

definition ecam_addr :: "ushort \<Rightarrow> ushort \<Rightarrow> ushort \<Rightarrow> ushort \<Rightarrow> addr" where
  "ecam_addr bus slot func off =
     (let offaddr = (push_bit 16 (ucast bus) OR push_bit 11 (ucast slot) OR push_bit 8 (ucast func) OR ucast off :: uint)
      in 0x30000000 + 4 * ucast offaddr)"

definition read_pci_config ::
  "'d mmio \<Rightarrow> ushort \<Rightarrow> ushort \<Rightarrow> ushort \<Rightarrow> ushort \<Rightarrow> (('d, 'z) sound_st_scheme, uint) kprog" where
  "read_pci_config M bus slot func off = Read32 M (ecam_addr bus slot func off)"

definition set_sample_rate :: "'d mmio \<Rightarrow> uint \<Rightarrow> (('d, 'z) sound_st_scheme, unit) kprog" where
  "set_sample_rate M rate = (\<lambda>s.
     kthen (Write16 M (pio (namba s) 0x2c) (ucast (rate AND 0xffff)))
    (kthen (Write16 M (pio (namba s) 0x2e) (ucast (rate AND 0xffff)))
           (Write16 M (pio (namba s) 0x30) (ucast (rate AND 0xffff)))) s)"

definition set_volume :: "'d mmio \<Rightarrow> ushort \<Rightarrow> (('d, 'z) sound_st_scheme, unit) kprog" where
  "set_volume M volume = (\<lambda>s.
     kthen (Write16 M (pio (namba s) 0x02) 0) (Write16 M (pio (namba s) 0x18) volume) s)"

definition get_volume :: "'d mmio \<Rightarrow> (('d, 'z) sound_st_scheme, ushort) kprog" where
  "get_volume M = (\<lambda>s. Read16 M (pio (namba s) 0x18) s)"

definition clear_wait_step :: "'d mmio \<Rightarrow> nat \<Rightarrow> (('d, 'z) sound_st_scheme, nat + unit) kprog" where
  "clear_wait_step M tries =
     (if tries = 0 then kret (Inr ())
      else (\<lambda>s. kbind (Read8 M (pio (nabmba s) 0x1b)) (\<lambda>v.
              if v AND 2 = 0 then kret (Inr ()) else kret (Inl (tries - 1))) s))"

definition clear_sound_queue :: "'d mmio \<Rightarrow> (('d, 'z) sound_st_scheme, unit) kprog" where
  "clear_sound_queue M = (\<lambda>s.
     kthen (Write8 M (pio (nabmba s) 0x1b) 0)
    (kthen (Write8 M (pio (nabmba s) 0x1b) 2)
    (kthen (kwhile (clear_wait_step M) 1000)
           (kmod (\<lambda>s. s\<lparr>sound_queue_head := None\<rparr>)))) s)"

definition resume :: "'d mmio \<Rightarrow> (('d, 'z) sound_st_scheme, int) kprog" where
  "resume M = (\<lambda>s.
     kbind (Read8 M (pio (nabmba s) 0x1b)) (\<lambda>cur_status.
       if cur_status = 0 then kthen (Write8 M (pio (nabmba s) 0x1b) 5) (kret 0) else kret (-1)) s)"

definition pause :: "'d mmio \<Rightarrow> (('d, 'z) sound_st_scheme, int) kprog" where
  "pause M = (\<lambda>s.
     kbind (Read8 M (pio (nabmba s) 0x1b)) (\<lambda>cur_status.
       if cur_status = 5 then kthen (Write8 M (pio (nabmba s) 0x1b) 0) (kret 0) else kret (-1)) s)"

text \<open>
  \<^verbatim>\<open>node->data\<close>: \<^verbatim>\<open>sizeof(struct sound_node)\<close> is 65552 and the data starts at byte 16. The driver
  keeps the low 32 bits of the address.
\<close>

definition node_data_addr :: "('d, 'z) sound_st_scheme \<Rightarrow> nat \<Rightarrow> addr" where
  "node_data_addr s i = sound_buffer_addr s + of_nat (65552 * i + 16)"

definition write_bdl :: "uint \<Rightarrow> (('d, 'z) sound_st_scheme, unit) kprog" where
  "write_bdl base_addr =
     kfor [0 ..< DMA_BUFFER_NUM] (\<lambda>i. kmod (\<lambda>s. s\<lparr>descriptor_list := (descriptor_list s)(i :=
       \<lparr>buffer_pointer = base_addr + of_nat (i * DMA_BUFFER_SIZE),
        buffer_ctrl_and_len = 0x80000000 OR of_nat DMA_SAMPLE_NUM\<rparr>)\<rparr>))"

text \<open>Dereferencing a null \<^verbatim>\<open>sound_queue_head\<close> is a page fault in the kernel.\<close>

definition play :: "'d mmio \<Rightarrow> (('d, 'z) sound_st_scheme, unit) kprog" where
  "play M = (\<lambda>s. case sound_queue_head s of
       None \<Rightarrow> Panic ''kerneltrap''
     | Some h \<Rightarrow>
         kthen (write_bdl (ucast (node_data_addr s h)))
           (if flag (sound_buffer s h) \<noteq> 0 then
              kthen (Write32 M (pio (nabmba s) 0x10) (ucast (descriptor_list_addr s)))
             (kthen (Write8 M (pio (nabmba s) 0x15) 0x1f)
                    (Write8 M (pio (nabmba s) 0x1b) 5))
            else kret ()) s)"

definition set_flag :: "nat \<Rightarrow> uchar \<Rightarrow> ('d, 'z) sound_st_scheme \<Rightarrow> ('d, 'z) sound_st_scheme" where
  "set_flag i f s = s\<lparr>sound_buffer := (sound_buffer s)(i := (sound_buffer s i)\<lparr>flag := f\<rparr>)\<rparr>"

definition set_next :: "nat \<Rightarrow> nat option \<Rightarrow> ('d, 'z) sound_st_scheme \<Rightarrow> ('d, 'z) sound_st_scheme" where
  "set_next i n s = s\<lparr>sound_buffer := (sound_buffer s)(i := (sound_buffer s i)\<lparr>next_node := n\<rparr>)\<rparr>"

definition soundintr :: "'d mmio \<Rightarrow> (('d, 'z) sound_st_scheme, unit) kprog" where
  "soundintr M = (\<lambda>s. case sound_queue_head s of
       None \<Rightarrow> Panic ''empty sound queue, yet interrupt received''
     | Some h \<Rightarrow>
         kthen (Write16 M (pio (nabmba s) 0x16) 0x1c)
        (kthen (kmod (set_flag h 0))
        (kthen (kmod (\<lambda>s. s\<lparr>sound_queue_head := next_node (sound_buffer s h)\<rparr>))
          (\<lambda>s. case sound_queue_head s of
               None \<Rightarrow> Ret () s
             | Some h' \<Rightarrow> kthen (write_bdl (ucast (node_data_addr s h')))
                               (Write8 M (pio (nabmba s) 0x1b) 5) s))) s)"

text \<open>The walk to the tail of the queue; on a cyclic queue it does not end.\<close>

partial_function (option) queue_tail :: "(nat \<Rightarrow> nat option) \<Rightarrow> nat \<Rightarrow> nat option" where
  "queue_tail nx p = (case nx p of None \<Rightarrow> Some p | Some q \<Rightarrow> queue_tail nx q)"

definition add_sound_node :: "'d mmio \<Rightarrow> nat \<Rightarrow> (('d, 'z) sound_st_scheme, unit) kprog" where
  "add_sound_node M node =
     kthen (kmod (set_next node None))
    (kthen (\<lambda>s. case sound_queue_head s of
              None \<Rightarrow> Ret () (s\<lparr>sound_queue_head := Some node\<rparr>)
            | Some h \<Rightarrow> (case queue_tail (\<lambda>i. next_node (sound_buffer s i)) h of
                           None \<Rightarrow> Hang
                         | Some t \<Rightarrow> Ret () (set_next t (Some node) s)))
      (\<lambda>s. if sound_queue_head s = Some node then play M s else Ret () s))"

definition codec_wait_step :: "'d mmio \<Rightarrow> nat \<Rightarrow> (('d, 'z) sound_st_scheme, nat + nat) kprog" where
  "codec_wait_step M wait_time = (\<lambda>s.
     kbind (Read16 M (pio (nabmba s) 0x30)) (\<lambda>v.
       if v AND 0x100 = 0 \<and> wait_time > 0 then kret (Inl (wait_time - 1)) else kret (Inr wait_time)) s)"

definition sound_card_init ::
  "'d mmio \<Rightarrow> ushort \<Rightarrow> ushort \<Rightarrow> ushort \<Rightarrow> ushort \<Rightarrow> (('d, 'z) sound_st_scheme, unit) kprog" where
  "sound_card_init M bus slot func off =
     (let a = ecam_addr bus slot func off in
      kthen (Write8 M (a + 0x04) 0x5)
     (kthen (Write32 M (a + 0x10) 0x1001)
     (kbind (Read32 M (a + 0x10)) (\<lambda>v.
      kthen (kmod (\<lambda>s. s\<lparr>namba := v AND NOT 1\<rparr>))
     (kthen (Write32 M (a + 0x14) 0x1401)
     (kbind (Read32 M (a + 0x14)) (\<lambda>v.
      kthen (kmod (\<lambda>s. s\<lparr>nabmba := v AND NOT 1\<rparr>))
     (kthen (\<lambda>s. Write8 M (pio (nabmba s) 0x2c) 0x3 s)
     (kbind (kwhile (codec_wait_step M) 1000) (\<lambda>wait_time.
      if wait_time = 0 then kpanic (''AC_RESET# bit not cleared for the first time'' @ [CHR 0x0A])
      else
      kbind (\<lambda>s. Read16 M (pio (nabmba s) 0x02) s) (\<lambda>codec_master_volume.
      kthen (\<lambda>s. Write16 M (pio (namba s) 0x02) 0x8000 s)
     (kbind (\<lambda>s. Read16 M (pio (namba s) 0x02) s) (\<lambda>v.
      if v \<noteq> 0x8000 then kpanic (''Audio codec is not detected'' @ [CHR 0x0A])
      else
      kbind (\<lambda>s. Read16 M (pio (namba s) 0x7c) s) (\<lambda>codec_vendor_id1.
      kbind (\<lambda>s. Read16 M (pio (namba s) 0x7e) s) (\<lambda>codec_vendor_id2.
      kthen (Write32 M (a + 0x2c) (push_bit 16 (ucast codec_vendor_id2) + ucast codec_vendor_id1))
     (kthen (\<lambda>s. Write32 M (pio (nabmba s) 0x10) (ucast (descriptor_list_addr s)) s)
     (kthen (set_sample_rate M 44100)
            (set_volume M 0x808))))))))))))))))))"

definition pci_init :: "'d mmio \<Rightarrow> (('d, 'z) sound_st_scheme, unit) kprog" where
  "pci_init M =
     kfor [0 ..< 32] (\<lambda>slot. kfor [0 ..< 8] (\<lambda>func.
       kbind (read_pci_config M 0 (of_nat slot) (of_nat func) 0) (\<lambda>devid.
         if devid = 0x24158086 then sound_card_init M 0 (of_nat slot) (of_nat func) 0 else kret ())))"

section \<open>kernel/sound_card.c\<close>

abbreviation MAX_VOLUME :: int where "MAX_VOLUME \<equiv> 0"
abbreviation MIN_VOLUME :: int where "MIN_VOLUME \<equiv> 31"
abbreviation MUTE_VOLUME :: ushort where "MUTE_VOLUME \<equiv> 0x8000"

text \<open>\<^verbatim>\<open>bufsize\<close>: the bytes of one node.\<close>

abbreviation bufsize :: int where "bufsize \<equiv> int (DMA_BUFFER_NUM * DMA_BUFFER_SIZE)"

text \<open>Arithmetic of \<^verbatim>\<open>int\<close> keeps 32 bits.\<close>

definition c_int :: "int \<Rightarrow> int" where
  "c_int x = sint (word_of_int x :: 32 word)"

definition sys_setSampleRate :: "'d mmio \<Rightarrow> (('d, 'z) sound_st_scheme, int) kprog" where
  "sys_setSampleRate M =
     kbind (argint 0) (\<lambda>rate.
       if rate < 0 then kret (-1) else kthen (set_sample_rate M (word_of_int rate)) (kret 0))"

definition volume_of_register :: "ushort \<Rightarrow> int \<Rightarrow> int" where
  "volume_of_register volume maxVolume =
     (if volume \<ge> MUTE_VOLUME then 0
      else uint (word_of_int (c_div (c_int ((MIN_VOLUME - uint (volume AND 0b11111)) * maxVolume))
                               (MIN_VOLUME - MAX_VOLUME)) :: ushort))"

definition sys_getVolume :: "'d mmio \<Rightarrow> (('d, 'z) sound_st_scheme, int) kprog" where
  "sys_getVolume M =
     kbind (get_volume M) (\<lambda>volume.
     kbind (argint 0) (\<lambda>maxVolume. kret (volume_of_register volume maxVolume)))"

definition register_of_volume :: "int \<Rightarrow> int \<Rightarrow> ushort" where
  "register_of_volume volume maxVolume =
     (if volume = 0 then MUTE_VOLUME
      else let v = c_int (MIN_VOLUME - c_div (c_int (volume * (MIN_VOLUME - MAX_VOLUME))) maxVolume)
           in word_of_int (v + v * 256))"

definition sys_setVolume :: "'d mmio \<Rightarrow> (('d, 'z) sound_st_scheme, int) kprog" where
  "sys_setVolume M =
     kbind (argint 0) (\<lambda>volume.
     kbind (argint 1) (\<lambda>maxVolume.
     kthen (set_volume M (register_of_volume volume maxVolume)) (kret 0)))"

definition sys_setPlay :: "'d mmio \<Rightarrow> (('d, 'z) sound_st_scheme, int) kprog" where
  "sys_setPlay M = kbind (argint 0) (\<lambda>playing. if playing \<noteq> 0 then resume M else pause M)"

definition clear_node :: "nat \<Rightarrow> ('d, 'z) sound_st_scheme \<Rightarrow> ('d, 'z) sound_st_scheme" where
  "clear_node i s = s\<lparr>sound_buffer := (sound_buffer s)(i := \<lparr>flag = 0, next_node = None, node_data = (\<lambda>_. 0)\<rparr>)\<rparr>"

definition fill_node :: "nat \<Rightarrow> nat \<Rightarrow> uchar list \<Rightarrow> ('d, 'z) sound_st_scheme \<Rightarrow> ('d, 'z) sound_st_scheme" where
  "fill_node i off bs s =
     s\<lparr>sound_buffer := (sound_buffer s)(i := (sound_buffer s i)\<lparr>node_data := blit (node_data (sound_buffer s i)) off bs\<rparr>)\<rparr>"

text \<open>
  The loop that spins until a node is free. Interrupts arrive while it spins: the schedule says,
  for each look at a flag, whether the device interrupted just before it. \<open>Block\<close>: still spinning
  when the schedule ends.
\<close>

fun scan_nodes ::
  "'d mmio \<Rightarrow> uchar list \<Rightarrow> int \<Rightarrow> bool list \<Rightarrow> nat \<Rightarrow> int \<Rightarrow> (('d, 'z) sound_st_scheme, unit) kprog" where
  "scan_nodes M buf sz [] i read_already = kblock"
| "scan_nodes M buf sz (irq # irqs) i read_already =
     kthen (if irq then soundintr M else kret ())
       (\<lambda>s. let i' = (if Suc i < BUFFER_NODE_NUM then Suc i else 0) in
          if flag (sound_buffer s i) = 0 then
            kthen (kmod (clear_node i))
              (if bufsize > sz - read_already then
                 kthen (kmod (fill_node i 0 (take (nat (sz - read_already)) (drop (nat read_already) buf))))
                (kthen (kmod (set_flag i 1))
                   (kmod (\<lambda>s. s\<lparr>used_size := sz - read_already, buffer_index := i\<rparr>)))
               else
                 kthen (kmod (fill_node i 0 (take (nat bufsize) (drop (nat read_already) buf))))
                (kthen (kmod (set_flag i 3))
                (kthen (add_sound_node M i)
                   (scan_nodes M buf sz irqs i' (read_already + bufsize))))) s
          else scan_nodes M buf sz irqs i' read_already s)"

definition write_audio ::
  "'d mmio \<Rightarrow> bool list \<Rightarrow> uchar list \<Rightarrow> int \<Rightarrow> (('d, 'z) sound_st_scheme, unit) kprog" where
  "write_audio M irqs buf sz =
     kthen (\<lambda>s. if used_size s = 0 then Ret () (clear_node (buffer_index s) s) else Ret () s)
       (\<lambda>s. if bufsize - used_size s > sz then
            kthen (kmod (\<lambda>s. fill_node (buffer_index s) (nat (used_size s)) (take (nat sz) buf) s))
           (kthen (kmod (\<lambda>s. set_flag (buffer_index s) 1 s))
              (kmod (\<lambda>s. s\<lparr>used_size := used_size s + sz\<rparr>))) s
          else let read_already = bufsize - used_size s in
            kthen (kmod (\<lambda>s. fill_node (buffer_index s) (nat (used_size s)) (take (nat read_already) buf) s))
           (kthen (kmod (\<lambda>s. set_flag (buffer_index s) 3 s))
           (kthen (\<lambda>s. add_sound_node M (buffer_index s) s)
              (scan_nodes M buf sz irqs 0 read_already))) s)"

text \<open>
  \<^verbatim>\<open>buf\<close> is a local array of 2049 bytes. A copy that stores more bytes than that overwrites the kernel
  stack, which C leaves undefined; the model stops there.
\<close>

definition sys_writeDecodedAudio :: "'d mmio \<Rightarrow> bool list \<Rightarrow> (('d, 'z) sound_st_scheme, int) kprog" where
  "sys_writeDecodedAudio M irqs =
     kbind (argint 1) (\<lambda>sz.
       if sz > 2048 then kret (-1)
       else kbind (argaddr 0) (\<lambda>buf_addr.
            kbind (\<lambda>s. copyin (p_pagetable (myproc s)) buf_addr (word_of_int sz) s) (\<lambda>(r, buf).
              if length buf > 2049 then kpanic ''stack overwritten''
              else if r < 0 then kret (-1)
              else kthen (write_audio M irqs buf sz) (kret 0))))"

definition sys_finishWriteAudio :: "'d mmio \<Rightarrow> (('d, 'z) sound_st_scheme, int) kprog" where
  "sys_finishWriteAudio M =
     kthen (\<lambda>s. if used_size s > 0 then
                  kthen (kmod (set_flag (buffer_index s) 3)) (add_sound_node M (buffer_index s)) s
                else Ret () s)
       (kret 0)"

definition sys_clearSoundCardBuffer :: "'d mmio \<Rightarrow> (('d, 'z) sound_st_scheme, int) kprog" where
  "sys_clearSoundCardBuffer M =
     kthen (kmod (\<lambda>s. s\<lparr>buffer_index := 0, used_size := 0\<rparr>))
    (kthen (kfor [0 ..< BUFFER_NODE_NUM] (\<lambda>i. kthen (kmod (clear_node i)) (kmod (set_flag i 0))))
    (kthen (clear_sound_queue M) (kret 0)))"

lemma kfor_kmod: "kfor xs (\<lambda>i. kmod (f i)) s = Ret () (fold f xs s)"
  by (induction xs arbitrary: s) (simp_all add: kprog_simps)

section \<open>Simplification of the driver's primitives\<close>

lemma node_simps [simp]:
  "sound_buffer (set_flag i f s) = (sound_buffer s)(i := (sound_buffer s i)\<lparr>flag := f\<rparr>)"
  "sound_buffer (set_next i n s) = (sound_buffer s)(i := (sound_buffer s i)\<lparr>next_node := n\<rparr>)"
  "sound_buffer (clear_node i s) = (sound_buffer s)(i := \<lparr>flag = 0, next_node = None, node_data = (\<lambda>_. 0)\<rparr>)"
  "sound_buffer (fill_node i off bs s) =
     (sound_buffer s)(i := (sound_buffer s i)\<lparr>node_data := blit (node_data (sound_buffer s i)) off bs\<rparr>)"
  by (simp_all add: set_flag_def set_next_def clear_node_def fill_node_def)

lemma node_frame [simp]:
  "sound_queue_head (set_flag i f s) = sound_queue_head s" "sound_queue_head (set_next i n s) = sound_queue_head s"
  "sound_queue_head (clear_node i s) = sound_queue_head s" "sound_queue_head (fill_node i off bs s) = sound_queue_head s"
  "buffer_index (set_flag i f s) = buffer_index s" "buffer_index (set_next i n s) = buffer_index s"
  "buffer_index (clear_node i s) = buffer_index s" "buffer_index (fill_node i off bs s) = buffer_index s"
  "used_size (set_flag i f s) = used_size s" "used_size (set_next i n s) = used_size s"
  "used_size (clear_node i s) = used_size s" "used_size (fill_node i off bs s) = used_size s"
  "descriptor_list (set_flag i f s) = descriptor_list s" "descriptor_list (set_next i n s) = descriptor_list s"
  "descriptor_list (clear_node i s) = descriptor_list s" "descriptor_list (fill_node i off bs s) = descriptor_list s"
  "node_data_addr (set_flag i f s) = node_data_addr s" "node_data_addr (set_next i n s) = node_data_addr s"
  "node_data_addr (clear_node i s) = node_data_addr s" "node_data_addr (fill_node i off bs s) = node_data_addr s"
  by (auto simp: set_flag_def set_next_def clear_node_def fill_node_def node_data_addr_def)

definition bdl_entry :: "uint \<Rightarrow> nat \<Rightarrow> descriptor" where
  "bdl_entry base_addr i =
     \<lparr>buffer_pointer = base_addr + of_nat (i * DMA_BUFFER_SIZE),
      buffer_ctrl_and_len = 0x80000000 OR of_nat DMA_SAMPLE_NUM\<rparr>"

lemma write_bdl_Ret:
  "write_bdl b s = Ret () (s\<lparr>descriptor_list := (\<lambda>i. if i < 32 then bdl_entry b i else descriptor_list s i)\<rparr>)"
proof -
  let ?f = "\<lambda>i s. s\<lparr>descriptor_list := (descriptor_list s)(i := bdl_entry b i)\<rparr>"
  have "fold ?f [0 ..< n] s = s\<lparr>descriptor_list := (\<lambda>i. if i < n then bdl_entry b i else descriptor_list s i)\<rparr>" for n
    by (induction n) (auto simp: fun_eq_iff)
  then show ?thesis unfolding write_bdl_def kfor_kmod bdl_entry_def [symmetric] by simp
qed

lemma node_data_addr_frame [simp]:
  "node_data_addr (s\<lparr>sound_queue_head := x\<rparr>) = node_data_addr s"
  "node_data_addr (s\<lparr>descriptor_list := y\<rparr>) = node_data_addr s"
  "node_data_addr (s\<lparr>dev := z\<rparr>) = node_data_addr s"
  "node_data_addr (s\<lparr>buffer_index := bi\<rparr>) = node_data_addr s"
  "node_data_addr (s\<lparr>used_size := us\<rparr>) = node_data_addr s"
  by (auto simp: node_data_addr_def)

section \<open>The queue of full nodes\<close>

fun chain :: "(nat \<Rightarrow> nat option) \<Rightarrow> nat option \<Rightarrow> nat list \<Rightarrow> bool" where
  "chain nx h [] \<longleftrightarrow> h = None"
| "chain nx h (x # xs) \<longleftrightarrow> h = Some x \<and> chain nx (nx x) xs"

lemma chain_cong: "(\<And>x. x \<in> set xs \<Longrightarrow> nx x = nx' x) \<Longrightarrow> chain nx h xs = chain nx' h xs"
  by (induction xs arbitrary: h) auto

lemma queue_tail_chain: "chain nx (Some p) (p # xs) \<Longrightarrow> queue_tail nx p = Some (last (p # xs))"
proof (induction xs arbitrary: p)
  case Nil
  then show ?case by (simp add: queue_tail.simps)
next
  case (Cons x xs)
  then show ?case by (subst queue_tail.simps) simp
qed

lemma chain_snoc:
  "chain nx h (xs @ [t]) \<Longrightarrow> distinct (xs @ [t, n]) \<Longrightarrow> nx n = None \<Longrightarrow> chain (nx(t := Some n)) h (xs @ [t, n])"
  by (induction xs arbitrary: h) auto

abbreviation links :: "('d, 'z) sound_st_scheme \<Rightarrow> nat \<Rightarrow> nat option" where
  "links s \<equiv> \<lambda>i. next_node (sound_buffer s i)"

text \<open>The descriptor table plays node \<open>i\<close>.\<close>

definition bdl_plays :: "('d, 'z) sound_st_scheme \<Rightarrow> nat \<Rightarrow> bool" where
  "bdl_plays s i \<longleftrightarrow> (\<forall>j<DMA_BUFFER_NUM. descriptor_list s j = bdl_entry (ucast (node_data_addr s i)) j)"

definition queue_inv :: "('d, 'z) sound_st_scheme \<Rightarrow> nat list \<Rightarrow> bool" where
  "queue_inv s q \<longleftrightarrow> chain (links s) (sound_queue_head s) q \<and> distinct q \<and> set q \<subseteq> {..<BUFFER_NODE_NUM} \<and>
     (\<forall>i\<in>set q. flag (sound_buffer s i) = 3) \<and> (q \<noteq> [] \<longrightarrow> bdl_plays s (hd q))"

text \<open>What the queue operations leave alone.\<close>

definition same_nodes :: "('d, 'z) sound_st_scheme \<Rightarrow> ('d, 'z) sound_st_scheme \<Rightarrow> bool" where
  "same_nodes s s' \<longleftrightarrow> (\<forall>i. node_data (sound_buffer s' i) = node_data (sound_buffer s i)) \<and>
     buffer_index s' = buffer_index s \<and> used_size s' = used_size s \<and> node_data_addr s' = node_data_addr s"

lemma play_Ret:
  assumes "sound_queue_head s = Some h"
  shows "\<exists>d. play M s = Ret () (s\<lparr>descriptor_list := (\<lambda>i. if i < 32 then bdl_entry (ucast (node_data_addr s h)) i else descriptor_list s i), dev := d\<rparr>)"
  using assms by (cases "flag (sound_buffer s h) = 0")
    (auto simp: play_def write_bdl_Ret kprog_simps Write8_def Write32_def intro: exI [of _ "dev s"])

lemma add_sound_node_inv:
  assumes inv: "queue_inv s q" and n: "n < BUFFER_NODE_NUM" "n \<notin> set q" "flag (sound_buffer s n) = 3"
  shows "\<exists>s'. add_sound_node M n s = Ret () s' \<and> queue_inv s' (q @ [n]) \<and> same_nodes s s' \<and>
           (\<forall>i. flag (sound_buffer s' i) = flag (sound_buffer s i))"
proof (cases q rule: rev_cases)
  case Nil
  with inv have "sound_queue_head s = None" by (simp add: queue_inv_def)
  let ?s = "set_next n None s\<lparr>sound_queue_head := Some n\<rparr>"
  obtain d where "play M ?s = Ret () (?s\<lparr>descriptor_list := (\<lambda>i. if i < 32 then bdl_entry (ucast (node_data_addr ?s n)) i else descriptor_list ?s i), dev := d\<rparr>)"
    using play_Ret [of ?s n M] by auto
  with Nil n \<open>sound_queue_head s = None\<close> show ?thesis
    by (auto simp: add_sound_node_def kprog_simps queue_inv_def same_nodes_def bdl_plays_def)
next
  case (snoc xs t)
  let ?s = "set_next n None s"
  have ch: "chain (links ?s) (sound_queue_head s) (xs @ [t])"
    using inv snoc n by (auto simp: queue_inv_def intro: chain_cong [THEN iffD1, rotated])
  obtain h where h: "sound_queue_head s = Some h" "h \<in> set q" 
    using inv snoc by (cases xs) (auto simp: queue_inv_def)
  have "\<exists>ys. xs @ [t] = h # ys" using ch h by (cases xs) auto
  then obtain ys where ys: "xs @ [t] = h # ys" ..
  then have "last (h # ys) = t" by (metis last_snoc)
  with ch ys h have tl: "queue_tail (links ?s) h = Some t"
    using queue_tail_chain [of "links ?s" h ys] by simp
  let ?t = "set_next t (Some n) ?s"
  have "chain ((links ?s)(t := Some n)) (sound_queue_head s) (xs @ [t, n])"
    using ch snoc inv n by (intro chain_snoc) (auto simp: queue_inv_def)
  moreover have "(links ?s)(t := Some n) = links ?t" by auto
  ultimately have ch': "chain (links ?t) (sound_queue_head ?t) (q @ [n])" using snoc by simp
  have "queue_inv ?t (q @ [n])"
    unfolding queue_inv_def
  proof (intro conjI)
    show "chain (links ?t) (sound_queue_head ?t) (q @ [n])" by (rule ch')
  qed (use inv n snoc in \<open>auto simp: queue_inv_def bdl_plays_def hd_append\<close>)
  moreover have "add_sound_node M n s = Ret () ?t"
    using h n tl by (auto simp: add_sound_node_def kprog_simps)
  ultimately show ?thesis by (auto simp: same_nodes_def)
qed

lemma soundintr_inv:
  assumes inv: "queue_inv s (h # q)"
  shows "\<exists>s'. soundintr M s = Ret () s' \<and> queue_inv s' q \<and> same_nodes s s' \<and> 
           (\<forall>i. flag (sound_buffer s' i) = (if i = h then 0 else flag (sound_buffer s i)))"
proof -
  have h: "sound_queue_head s = Some h" "chain (links s) (next_node (sound_buffer s h)) q"
    using inv by (auto simp: queue_inv_def)
  show ?thesis
  proof (cases q)
    case Nil
    with h inv show ?thesis
      by (auto simp: soundintr_def kprog_simps queue_inv_def same_nodes_def Write16_def)
  next
    case (Cons x xs)
    with h inv show ?thesis
      by (auto simp: soundintr_def kprog_simps queue_inv_def same_nodes_def Write16_def Write8_def write_bdl_Ret bdl_plays_def
          intro: chain_cong [THEN iffD1, rotated])
  qed
qed

section \<open>The stream\<close>

text \<open>
  The abstract sound card: full chunks waiting to be played, oldest first, and the bytes of the
  chunk being filled.
\<close>

abbreviation chunk_size :: nat where "chunk_size \<equiv> DMA_BUFFER_NUM * DMA_BUFFER_SIZE"

type_synonym stream = "uchar list list \<times> uchar list"

definition stream_write :: "uchar list \<Rightarrow> stream \<Rightarrow> stream" where
  "stream_write bs = (\<lambda>(chunks, c). let t = c @ bs in
     if length t < chunk_size then (chunks, t) else (chunks @ [take chunk_size t], drop chunk_size t))"

definition stream_play :: "nat \<Rightarrow> stream \<Rightarrow> stream" where
  "stream_play k = (\<lambda>(chunks, c). (drop k chunks, c))"

definition pcm :: "('d, 'z) sound_st_scheme \<Rightarrow> nat \<Rightarrow> uchar list" where
  "pcm s i = sub_array (node_data (sound_buffer s i)) 0 chunk_size"

definition partial :: "('d, 'z) sound_st_scheme \<Rightarrow> uchar list" where
  "partial s = sub_array (node_data (sound_buffer s (buffer_index s))) 0 (nat (used_size s))"

definition stream_of :: "('d, 'z) sound_st_scheme \<Rightarrow> nat list \<Rightarrow> stream" where
  "stream_of s q = (map (pcm s) q, partial s)"

definition scan_ready :: "('d, 'z) sound_st_scheme \<Rightarrow> nat list \<Rightarrow> bool" where
  "scan_ready s q \<longleftrightarrow> queue_inv s q \<and> (\<forall>i<BUFFER_NODE_NUM. i \<notin> set q \<longrightarrow> flag (sound_buffer s i) = 0)"

definition stream_inv :: "('d, 'z) sound_st_scheme \<Rightarrow> nat list \<Rightarrow> bool" where
  "stream_inv s q \<longleftrightarrow> queue_inv s q \<and> buffer_index s < BUFFER_NODE_NUM \<and> buffer_index s \<notin> set q \<and>
     0 \<le> used_size s \<and> used_size s < bufsize \<and>
     (\<forall>i<BUFFER_NODE_NUM. i \<notin> set q \<longrightarrow> i \<noteq> buffer_index s \<longrightarrow> flag (sound_buffer s i) = 0)"

lemma same_nodes_pcm: "same_nodes s s' \<Longrightarrow> pcm s' = pcm s \<and> partial s' = partial s"
  by (auto simp: same_nodes_def pcm_def partial_def)

lemma queue_inv_node_free:
  assumes "queue_inv s q" "i \<notin> set q"
    and "\<And>j. j \<noteq> i \<Longrightarrow> sound_buffer s' j = sound_buffer s j"
    and "sound_queue_head s' = sound_queue_head s" "descriptor_list s' = descriptor_list s"
    and "node_data_addr s' = node_data_addr s"
  shows "queue_inv s' q"
proof -
  have "chain (links s') (sound_queue_head s) q = chain (links s) (sound_queue_head s) q"
    by (rule chain_cong) (use assms(2,3) in metis)
  then show ?thesis
    using assms unfolding queue_inv_def bdl_plays_def by (metis (no_types, lifting))
qed

lemma soundintr_empty: "queue_inv s [] \<Longrightarrow> soundintr M s = Panic ''empty sound queue, yet interrupt received''"
  by (simp add: queue_inv_def soundintr_def)

lemma scan_irq:
  assumes "scan_ready s q" and "(if irq then soundintr M else kret ()) s = Ret () s1"
  shows "\<exists>k\<le>length q. scan_ready s1 (drop k q) \<and> same_nodes s s1"
proof (cases irq)
  case False
  with assms show ?thesis by (intro exI [of _ 0]) (auto simp: kprog_simps same_nodes_def)
next
  case True
  show ?thesis
  proof (cases q)
    case Nil
    with assms True soundintr_empty [of s M] show ?thesis by (simp add: scan_ready_def)
  next
    case (Cons h r)
    with assms True soundintr_inv [of s h r M] have
      s1: "queue_inv s1 r" "same_nodes s s1"
        "\<forall>i. flag (sound_buffer s1 i) = (if i = h then 0 else flag (sound_buffer s i))"
      by (auto simp: scan_ready_def)
    then have "scan_ready s1 r" using assms(1) Cons by (auto simp: scan_ready_def)
    with s1 Cons show ?thesis by (intro exI [of _ 1]) simp
  qed
qed

lemma scan_take:
  assumes "scan_ready s q" "i < BUFFER_NODE_NUM" "flag (sound_buffer s i) = 0" "length bs < chunk_size"
  defines "s' \<equiv> (set_flag i 1 (fill_node i 0 bs (clear_node i s)))\<lparr>used_size := int (length bs), buffer_index := i\<rparr>"
  shows "stream_inv s' q" and "\<forall>j\<in>set q. pcm s' j = pcm s j" and "partial s' = bs"
proof -
  have i: "i \<notin> set q" using assms(1,3) by (auto simp: scan_ready_def queue_inv_def)
  have other: "\<And>j. j \<noteq> i \<Longrightarrow> sound_buffer s' j = sound_buffer s j" by (simp add: s'_def)
  have "queue_inv s' q"
    by (rule queue_inv_node_free [of s q i]) (use assms(1) i in \<open>auto simp: s'_def scan_ready_def\<close>)
  with assms i show "stream_inv s' q" by (auto simp: stream_inv_def scan_ready_def s'_def)
  show "\<forall>j\<in>set q. pcm s' j = pcm s j" using other i unfolding pcm_def by metis
  show "partial s' = bs"
    using sub_array_blit_same [of "\<lambda>_. 0" 0 bs] by (simp add: partial_def s'_def)
qed

lemma scan_nodes_inv:
  assumes "scan_ready s q" "i < BUFFER_NODE_NUM" "0 \<le> ra" "ra \<le> sz" "sz - ra < bufsize" "length buf = nat sz"
    and "scan_nodes M buf sz irqs i ra s = Ret () s'"
  shows "\<exists>k\<le>length q. stream_inv s' (drop k q) \<and> (\<forall>j\<in>set (drop k q). pcm s' j = pcm s j) \<and>
           partial s' = drop (nat ra) buf"
  using assms(1,2,7)
proof (induction irqs arbitrary: i s q)
  case Nil
  then show ?case by (simp add: kprog_simps)
next
  case (Cons irq irqs)
  from Cons.prems(3) obtain s1 where irq: "(if irq then soundintr M else kret ()) s = Ret () s1"
    by (cases "(if irq then soundintr M else kret ()) s") (auto simp: kprog_simps)
  from scan_irq [OF Cons.prems(1) irq] obtain k where
    k: "k \<le> length q" "scan_ready s1 (drop k q)" "same_nodes s s1" by blast
  let ?i' = "if Suc i < BUFFER_NODE_NUM then Suc i else 0"
  show ?case
  proof (cases "flag (sound_buffer s1 i) = 0")
    case True
    let ?bs = "take (nat (sz - ra)) (drop (nat ra) buf)"
    have bs: "?bs = drop (nat ra) buf" and len: "length ?bs < chunk_size" "int (length ?bs) = sz - ra"
      using assms(3-6) by (auto simp: nat_diff_distrib)
    from Cons.prems(3) irq True assms(5) have
      "s' = (set_flag i 1 (fill_node i 0 ?bs (clear_node i s1)))\<lparr>used_size := sz - ra, buffer_index := i\<rparr>"
      by (simp add: kprog_simps Let_def)
    with scan_take [OF k(2) Cons.prems(2) True len(1)] len(2) bs k same_nodes_pcm [OF k(3)]
    show ?thesis by (intro exI [of _ k]) auto
  next
    case False
    with Cons.prems(3) irq have "scan_nodes M buf sz irqs ?i' ra s1 = Ret () s'"
      by (simp add: kprog_simps Let_def)
    moreover have "?i' < BUFFER_NODE_NUM" by simp
    ultimately obtain k' where
      "k' \<le> length (drop k q)" "stream_inv s' (drop k' (drop k q))"
      "\<forall>j\<in>set (drop k' (drop k q)). pcm s' j = pcm s1 j" "partial s' = drop (nat ra) buf"
      using Cons.IH [OF k(2)] by blast
    with k same_nodes_pcm [OF k(3)] show ?thesis
      by (intro exI [of _ "k + k'"]) (auto simp: add.commute)
  qed
qed


lemma stream_inv_node:
  assumes "stream_inv s q"
    and "\<And>j. j \<noteq> buffer_index s \<Longrightarrow> sound_buffer s' j = sound_buffer s j"
    and "sound_queue_head s' = sound_queue_head s" "descriptor_list s' = descriptor_list s"
    and "node_data_addr s' = node_data_addr s" "buffer_index s' = buffer_index s"
    and "0 \<le> used_size s'" "used_size s' < bufsize"
  shows "stream_inv s' q" and "map (pcm s') q = map (pcm s) q"
proof -
  have q: "queue_inv s q" "buffer_index s \<notin> set q" using assms(1) by (auto simp: stream_inv_def)
  have "queue_inv s' q"
    by (rule queue_inv_node_free [OF q]) (use assms in auto)
  then show "stream_inv s' q" using assms by (auto simp: stream_inv_def)
  show "map (pcm s') q = map (pcm s) q"
    using q(2) assms(2) unfolding pcm_def by (metis (mono_tags, lifting) map_eq_conv)
qed

lemma clear_first:
  assumes "stream_inv s q"
  defines "s' \<equiv> (if used_size s = 0 then clear_node (buffer_index s) s else s)"
  shows "stream_inv s' q" and "stream_of s' q = stream_of s q" and "buffer_index s' = buffer_index s"
    and "used_size s' = used_size s"
proof -
  show "stream_inv s' q"
    by (rule stream_inv_node(1) [OF assms(1)]) (use assms in \<open>auto simp: s'_def stream_inv_def\<close>)
  have "map (pcm s') q = map (pcm s) q"
    using assms(1) by (auto simp: s'_def stream_inv_def pcm_def)
  then show "stream_of s' q = stream_of s q"
    by (auto simp: stream_of_def s'_def partial_def)
qed (simp_all add: s'_def)

lemma length_partial: "stream_inv s q \<Longrightarrow> int (length (partial s)) = used_size s"
  by (simp add: partial_def stream_inv_def)

lemma stream_write_of:
  "stream_write bs (stream_of s q) =
    (if length (partial s) + length bs < chunk_size then (map (pcm s) q, partial s @ bs)
     else (map (pcm s) q @ [take chunk_size (partial s @ bs)], drop chunk_size (partial s @ bs)))"
  by (simp add: stream_write_def stream_of_def Let_def)

lemma write_fits:
  assumes inv: "stream_inv s q" and "length buf = nat sz" "0 \<le> sz" "sz < bufsize - used_size s"
  defines "s' \<equiv> (set_flag (buffer_index s) 1 (fill_node (buffer_index s) (nat (used_size s)) buf s))\<lparr>used_size := used_size s + sz\<rparr>"
  shows "stream_inv s' q" and "stream_of s' q = stream_write buf (stream_of s q)"
proof -
  have us: "0 \<le> used_size s" using inv by (simp add: stream_inv_def)
  show "stream_inv s' q"
    by (rule stream_inv_node(1) [OF inv]) (use assms us in \<open>auto simp: s'_def\<close>)
  have "map (pcm s') q = map (pcm s) q"
    by (rule stream_inv_node(2) [OF inv]) (use assms us in \<open>auto simp: s'_def\<close>)
  moreover have "partial s' = partial s @ buf"
    using us assms(2,3) sub_array_blit_append [of "node_data (sound_buffer s (buffer_index s))" "nat (used_size s)" buf]
    by (simp add: partial_def s'_def nat_add_distrib)
  moreover have "length (partial s) + length buf < chunk_size"
    using assms(2-4) length_partial [OF inv] by linarith
  ultimately show "stream_of s' q = stream_write buf (stream_of s q)"
    by (simp only: stream_write_of if_True stream_of_def [of s'])
qed

lemma write_fills:
  assumes inv: "stream_inv s q" and ra: "ra = bufsize - used_size s" "nat ra \<le> length buf"
  defines "s1 \<equiv> set_flag (buffer_index s) 3 (fill_node (buffer_index s) (nat (used_size s)) (take (nat ra) buf) s)"
  shows "\<exists>s2. add_sound_node M (buffer_index s1) s1 = Ret () s2 \<and> scan_ready s2 (q @ [buffer_index s]) \<and>
           map (pcm s2) (q @ [buffer_index s]) = map (pcm s) q @ [take chunk_size (partial s @ buf)]"
proof -
  let ?b = "buffer_index s"
  have b: "?b < BUFFER_NODE_NUM" "?b \<notin> set q" and us: "0 \<le> used_size s" "used_size s < bufsize" and q: "queue_inv s q"
    using inv by (auto simp: stream_inv_def)
  have "queue_inv s1 q"
    by (rule queue_inv_node_free [OF q b(2)]) (auto simp: s1_def)
  then obtain s2 where s2: "add_sound_node M ?b s1 = Ret () s2" "queue_inv s2 (q @ [?b])" "same_nodes s1 s2"
      "\<forall>i. flag (sound_buffer s2 i) = flag (sound_buffer s1 i)"
    using add_sound_node_inv [of s1 q ?b M] b by (auto simp: s1_def)
  have "scan_ready s2 (q @ [?b])"
    using s2 inv by (auto simp: scan_ready_def stream_inv_def s1_def)
  moreover have "nat (used_size s) + nat ra = chunk_size" "nat ra = chunk_size - nat (used_size s)"
    using us ra(1) by linarith+
  then have "pcm s1 ?b = take chunk_size (partial s @ buf)"
    using ra(2) sub_array_blit_append [of "node_data (sound_buffer s ?b)" "nat (used_size s)" "take (nat ra) buf"]
    by (simp add: pcm_def s1_def partial_def min_absorb2)
  moreover have "map (pcm s1) q = map (pcm s) q"
    by (rule stream_inv_node(2) [OF inv]) (use us in \<open>auto simp: s1_def\<close>)
  ultimately show ?thesis
    using s2 same_nodes_pcm [OF s2(3)] by (auto simp: s1_def)
qed

lemma write_audio_refines:
  assumes inv: "stream_inv s q" and sz: "length buf = nat sz" "0 \<le> sz" "sz < bufsize"
    and run: "write_audio M irqs buf sz s = Ret () s'"
  shows "\<exists>k q'. stream_inv s' q' \<and> stream_of s' q' = stream_play k (stream_write buf (stream_of s q))"
proof -
  let ?s = "if used_size s = 0 then clear_node (buffer_index s) s else s"
  note clear = clear_first [OF inv]
  let ?b = "buffer_index s"
  show ?thesis
  proof (cases "bufsize - used_size s > sz")
    case True
    with run sz have "s' = (set_flag ?b 1 (fill_node ?b (nat (used_size s)) buf ?s))\<lparr>used_size := used_size s + sz\<rparr>"
      by (auto simp: write_audio_def kprog_simps split: if_splits)
    with write_fits [OF clear(1) sz(1,2)] True clear(2-4) show ?thesis
      by (intro exI [of _ 0] exI [of _ q]) (auto simp: stream_play_def case_prod_beta)
  next
    case False
    define ra where "ra = bufsize - used_size s"
    have us: "0 \<le> used_size s" "used_size s < bufsize" using inv by (auto simp: stream_inv_def)
    with False sz have ra: "0 < ra" "ra \<le> sz" "sz - ra < bufsize" "nat ra \<le> length buf"
      by (auto simp: ra_def)
    let ?s1 = "set_flag ?b 3 (fill_node ?b (nat (used_size s)) (take (nat ra) buf) ?s)"
    obtain s2 where s2: "add_sound_node M ?b ?s1 = Ret () s2" "scan_ready s2 (q @ [?b])"
        "map (pcm s2) (q @ [?b]) = map (pcm ?s) q @ [take chunk_size (partial ?s @ buf)]"
      using write_fills [OF clear(1), of ra buf M] ra clear(3,4) by (auto simp: ra_def)
    from run False s2(1) have "scan_nodes M buf sz irqs 0 ra s2 = Ret () s'"
      by (auto simp: write_audio_def kprog_simps Let_def ra_def split: if_splits)
    from scan_nodes_inv [OF s2(2) _ _ ra(2,3) sz(1) this] ra obtain k where
      k: "stream_inv s' (drop k (q @ [?b]))" "\<forall>j\<in>set (drop k (q @ [?b])). pcm s' j = pcm s2 j"
        "partial s' = drop (nat ra) buf" by auto
    have len: "length (partial s) = nat (used_size s)" by (simp add: partial_def)
    then have d: "drop chunk_size (partial s @ buf) = drop (nat ra) buf"
      using us by (simp add: ra_def nat_diff_distrib)
    have "\<not> length (partial s) + length buf < chunk_size" using False sz us len by linarith
    moreover have "map (pcm ?s) q = map (pcm s) q" "partial ?s = partial s"
      using clear(2) by (simp_all only: stream_of_def prod.inject)
    ultimately have w: "stream_write buf (stream_of s q) = (map (pcm s2) (q @ [?b]), drop (nat ra) buf)"
      using s2(3) by (simp only: stream_write_of d if_False)
    have "map (pcm s') (drop k (q @ [?b])) = drop k (map (pcm s2) (q @ [?b]))"
      using k(2) by (simp only: drop_map map_eq_conv)
    then have "stream_of s' (drop k (q @ [?b])) = stream_play k (stream_write buf (stream_of s q))"
      unfolding w by (simp only: stream_play_def stream_of_def k(3) prod.case)
    with k(1) show ?thesis by blast
  qed
qed

lemma scan_nodes_finds:
  assumes "\<exists>j<BUFFER_NODE_NUM. flag (sound_buffer s j) = 0" "i < BUFFER_NODE_NUM" "sz - ra < bufsize" "3 \<le> n"
  shows "\<exists>s'. scan_nodes M buf sz (replicate n False @ irqs) i ra s = Ret () s'"
proof -
  obtain m where n: "n = Suc (Suc (Suc m))" using assms(4) by (metis Suc_le_D numeral_3_eq_3 Suc_le_mono)
  have "flag (sound_buffer s 0) = 0 \<or> flag (sound_buffer s 1) = 0 \<or> flag (sound_buffer s 2) = 0"
    "i = 0 \<or> i = 1 \<or> i = 2"
    using assms(1,2) by (auto simp: less_Suc_eq numeral_3_eq_3 numeral_2_eq_2)
  then show ?thesis
    using assms(3) by (auto simp: n kprog_simps Let_def numeral_2_eq_2)
qed

lemma scan_nodes_progress:
  assumes "scan_ready s q" "q \<noteq> []" "i < BUFFER_NODE_NUM" "sz - ra < bufsize"
  shows "\<exists>s'. scan_nodes M buf sz (replicate n False @ True # replicate 3 False) i ra s = Ret () s'"
  using assms(3)
proof (induction n arbitrary: i)
  case 0
  obtain h r where q: "q = h # r" using assms(2) by (cases q) auto
  obtain s1 where s1: "soundintr M s = Ret () s1" "flag (sound_buffer s1 h) = 0" "h < BUFFER_NODE_NUM"
    using soundintr_inv [of s h r M] assms(1) q by (auto simp: scan_ready_def queue_inv_def)
  let ?i' = "if Suc i < BUFFER_NODE_NUM then Suc i else 0"
  have "\<exists>s'. scan_nodes M buf sz (replicate 3 False @ []) ?i' ra s1 = Ret () s'"
    using s1(2,3) assms(4) by (intro scan_nodes_finds) auto
  with s1(1) assms(4) show ?case by (simp add: kprog_simps Let_def)
next
  case (Suc n)
  let ?i' = "if Suc i < BUFFER_NODE_NUM then Suc i else 0"
  have "\<exists>s'. scan_nodes M buf sz (replicate n False @ True # replicate 3 False) ?i' ra s = Ret () s'"
    by (rule Suc.IH) simp
  with assms(4) show ?case by (simp add: kprog_simps Let_def)
qed

lemma write_audio_progress:
  assumes inv: "stream_inv s q" and sz: "length buf = nat sz" "0 \<le> sz" "sz < bufsize"
  shows "\<exists>s'. write_audio M (replicate n False @ True # replicate 3 False) buf sz s = Ret () s'"
proof (cases "bufsize - used_size s > sz")
  case True
  then show ?thesis by (auto simp: write_audio_def kprog_simps)
next
  case False
  let ?s = "if used_size s = 0 then clear_node (buffer_index s) s else s"
  let ?b = "buffer_index s"
  note clear = clear_first [OF inv]
  define ra where "ra = bufsize - used_size s"
  have us: "0 \<le> used_size s" "used_size s < bufsize" using inv by (auto simp: stream_inv_def)
  with False sz have ra: "sz - ra < bufsize" "nat ra \<le> length buf" by (auto simp: ra_def)
  let ?s1 = "set_flag ?b 3 (fill_node ?b (nat (used_size s)) (take (nat ra) buf) ?s)"
  obtain s2 where s2: "add_sound_node M ?b ?s1 = Ret () s2" "scan_ready s2 (q @ [?b])"
    using write_fills [OF clear(1), of ra buf M] ra clear(3,4) by (auto simp: ra_def)
  obtain s' where "scan_nodes M buf sz (replicate n False @ True # replicate 3 False) 0 ra s2 = Ret () s'"
    using scan_nodes_progress [OF s2(2) _ _ ra(1), of 0 M buf n] by auto
  with False s2(1) show ?thesis
    by (auto simp: write_audio_def kprog_simps Let_def ra_def)
qed

lemma kfor_Ret:
  assumes "\<And>i s. f i s = Ret () (g i s)"
  shows "kfor xs f s = Ret () (fold g xs s)"
  by (induction xs arbitrary: s) (simp_all add: assms kprog_simps)

lemma clear_wait_total: "\<exists>d. kwhile (clear_wait_step M) n s = Ret () (s\<lparr>dev := d\<rparr>)"
proof (induction n arbitrary: s)
  case 0
  show ?case by (subst kwhile_unfold) (auto simp: clear_wait_step_def kprog_simps intro: exI [of _ "dev s"])
next
  case (Suc n)
  obtain v d where "rd8 M (pio (nabmba s) 0x1b) (dev s) = (v, d)" by fastforce
  moreover obtain d' where "kwhile (clear_wait_step M) n (s\<lparr>dev := d\<rparr>) = Ret () (s\<lparr>dev := d\<rparr>\<lparr>dev := d'\<rparr>)"
    using Suc.IH by blast
  ultimately show ?case
    by (subst kwhile_unfold) (auto simp: clear_wait_step_def kprog_simps Read8_def)
qed

lemma clear_sound_buffer_empty:
  "\<exists>s'. sys_clearSoundCardBuffer M s = Ret 0 s' \<and> stream_inv s' [] \<and> stream_of s' [] = ([], []) \<and>
     (\<forall>i<BUFFER_NODE_NUM. flag (sound_buffer s' i) = 0)"
proof -
  let ?s1 = "fold (\<lambda>i s. set_flag i 0 (clear_node i s)) [0..<3] (s\<lparr>buffer_index := 0, used_size := 0\<rparr>)"
  let ?s2 = "?s1\<lparr>dev := wr8 M (pio (nabmba ?s1) 0x1b) 2 (wr8 M (pio (nabmba ?s1) 0x1b) 0 (dev ?s1))\<rparr>"
  obtain d where "kwhile (clear_wait_step M) 1000 ?s2 = Ret () (?s2\<lparr>dev := d\<rparr>)"
    using clear_wait_total [of M 1000 ?s2] by (elim exE) (rule that)
  moreover have "kfor [0..<3] (\<lambda>i. kthen (kmod (clear_node i)) (kmod (set_flag i 0))) (s\<lparr>buffer_index := 0, used_size := 0\<rparr>)
      = Ret () ?s1"
    by (rule kfor_Ret) (simp add: kprog_simps)
  ultimately have "sys_clearSoundCardBuffer M s = Ret 0 (?s2\<lparr>dev := d, sound_queue_head := None\<rparr>)"
    by (simp add: sys_clearSoundCardBuffer_def clear_sound_queue_def kprog_simps Write8_def)
  moreover have "buffer_index ?s1 = 0" "used_size ?s1 = 0" "\<forall>i<3. flag (sound_buffer ?s1 i) = 0"
    by (auto simp: upt_rec less_Suc_eq numeral_3_eq_3)
  ultimately show ?thesis
    by (auto simp: stream_inv_def stream_of_def queue_inv_def partial_def sub_array_def)
qed

lemma soundintr_refines:
  assumes "stream_inv s (h # q)"
  shows "\<exists>s'. soundintr M s = Ret () s' \<and> stream_inv s' q \<and> stream_of s' q = stream_play 1 (stream_of s (h # q))"
proof -
  obtain s' where s': "soundintr M s = Ret () s'" "queue_inv s' q" "same_nodes s s'"
      "\<forall>i. flag (sound_buffer s' i) = (if i = h then 0 else flag (sound_buffer s i))"
    using assms soundintr_inv [of s h q M] by (auto simp: stream_inv_def)
  then have "stream_inv s' q" using assms by (auto simp: stream_inv_def same_nodes_def)
  with s' same_nodes_pcm [OF s'(3)] show ?thesis by (simp add: stream_of_def stream_play_def)
qed

text \<open>Any history of the driver: a clear, then writes of at most 2048 bytes and interrupts.\<close>

inductive driver_run :: "'d mmio \<Rightarrow> uchar list \<Rightarrow> ('d, 'z) sound_st_scheme \<Rightarrow> bool" for M where
  cleared: "sys_clearSoundCardBuffer M s0 = Ret 0 s \<Longrightarrow> driver_run M [] s"
| wrote: "driver_run M written s \<Longrightarrow> length buf \<le> 2048 \<Longrightarrow>
    write_audio M irqs buf (int (length buf)) s = Ret () s' \<Longrightarrow> driver_run M (written @ buf) s'"
| interrupted: "driver_run M written s \<Longrightarrow> soundintr M s = Ret () s' \<Longrightarrow> driver_run M written s'"

definition stream_pending :: "stream \<Rightarrow> uchar list" where
  "stream_pending = (\<lambda>(chunks, c). concat chunks @ c)"

definition stream_chunked :: "stream \<Rightarrow> bool" where
  "stream_chunked = (\<lambda>(chunks, c). \<forall>x\<in>set chunks. length x = chunk_size)"

lemma stream_write_pending: "stream_pending (stream_write bs st) = stream_pending st @ bs"
  by (auto simp: stream_pending_def stream_write_def Let_def split: prod.splits) (metis append_take_drop_id append_assoc take_append drop_append)

lemma stream_write_chunked: "stream_chunked st \<Longrightarrow> stream_chunked (stream_write bs st)"
  by (auto simp: stream_chunked_def stream_write_def Let_def split: prod.splits)

lemma stream_play_pending:
  assumes "stream_chunked st"
  shows "stream_chunked (stream_play k st)"
    and "\<exists>j\<le>length (fst st). stream_pending (stream_play k st) = drop (j * chunk_size) (stream_pending st)"
proof -
  obtain cs c where st: "st = (cs, c)" by (cases st)
  show "stream_chunked (stream_play k st)"
    using assms by (auto simp: stream_chunked_def stream_play_def st dest: in_set_dropD)
  have "\<forall>x\<in>set cs. length x = chunk_size" using assms by (simp add: stream_chunked_def st)
  then have "j \<le> length cs \<Longrightarrow> concat (drop j cs) @ c = drop (j * chunk_size) (concat cs @ c)" for j
  proof (induction cs arbitrary: j)
    case (Cons a cs)
    then show ?case by (cases j) (auto simp: add.commute)
  qed simp
  moreover have "drop k cs = drop (min k (length cs)) cs" by (simp add: min_def)
  ultimately show "\<exists>j\<le>length (fst st). stream_pending (stream_play k st) = drop (j * chunk_size) (stream_pending st)"
    by (intro exI [of _ "min k (length cs)"]) (simp add: st stream_pending_def stream_play_def)
qed

lemma audio_copy:
  assumes "0 \<le> sz" "sz \<le> 2048"
  obtains e bs where "copyin pt a (word_of_int sz) s = Ret (e, bs) s" "length bs \<le> 2048"
    "e = 0 \<and> length bs = nat sz \<and> ubytes s pt a (nat sz) = Some bs \<or> e = -1"
proof -
  have u: "unat (word_of_int sz :: 64 word) = nat sz"
    using assms by (simp add: unat_eq_nat_uint uint_word_of_int)
  obtain e bs where c: "copyin pt a (word_of_int sz) s = Ret (e, bs) s"
    "e = 0 \<and> length bs = nat sz \<or> e = -1" "length bs \<le> nat sz"
    using copyin_Ret [of pt a "word_of_int sz" s] unfolding u by blast
  moreover have "e = 0 \<Longrightarrow> ubytes s pt a (nat sz) = Some bs" using copyin_ubytes c(1) u by metis
  ultimately show thesis using that assms(2) by auto
qed

text \<open>
  C1. \<^verbatim>\<open>writeDecodedAudio\<close> refines the stream of the sound card: on success the bytes read from the
  user buffer are appended to the stream, in order, while the device may have played whole chunks
  off its front; on failure nothing changes.
\<close>

theorem writeDecodedAudio_stream:
  assumes inv: "stream_inv s q" and sz: "argint 1 s = Ret sz s" "0 \<le> sz" and a: "argaddr 0 s = Ret a s"
    and run: "sys_writeDecodedAudio M irqs s = Ret r s'"
  shows "r = -1 \<and> s' = s \<or>
    r = 0 \<and> (\<exists>bs k q'. ubytes s (p_pagetable (myproc s)) a (nat sz) = Some bs \<and> stream_inv s' q' \<and>
      stream_of s' q' = stream_play k (stream_write bs (stream_of s q)))"
proof (cases "sz > 2048")
  case True
  with run sz show ?thesis by (auto simp: sys_writeDecodedAudio_def kprog_simps)
next
  case False
  obtain e bs where c: "copyin (p_pagetable (myproc s)) a (word_of_int sz) s = Ret (e, bs) s" "length bs \<le> 2048"
      "e = 0 \<and> length bs = nat sz \<and> ubytes s (p_pagetable (myproc s)) a (nat sz) = Some bs \<or> e = -1"
    using audio_copy [OF sz(2), of "p_pagetable (myproc s)" a s] False by auto
  show ?thesis
  proof (cases "e = 0")
    case True
    with c run sz a False have w: "write_audio M irqs bs sz s = Ret () s'" "r = 0"
      by (auto simp: sys_writeDecodedAudio_def kprog_simps split: outcome.splits)
    moreover have "ubytes s (p_pagetable (myproc s)) a (nat sz) = Some bs" "length bs = nat sz"
      using c(3) True by auto
    ultimately show ?thesis
      using write_audio_refines [OF inv _ sz(2) _ w(1)] False by auto
  next
    case False
    with c run sz a \<open>\<not> sz > 2048\<close> show ?thesis
      by (auto simp: sys_writeDecodedAudio_def kprog_simps)
  qed
qed

text \<open>
  C3. The spin loop of \<^verbatim>\<open>writeDecodedAudio\<close> ends: whenever the device completes a chunk, however late,
  the system call returns within three more looks at the buffer flags.
\<close>

theorem writeDecodedAudio_returns:
  assumes inv: "stream_inv s q" and sz: "argint 1 s = Ret sz s" "0 \<le> sz"
  shows "\<exists>r s'. sys_writeDecodedAudio M (replicate n False @ True # replicate 3 False) s = Ret r s'"
proof (cases "sz > 2048")
  case True
  with sz show ?thesis by (auto simp: sys_writeDecodedAudio_def kprog_simps)
next
  case False
  obtain a where a: "argaddr 0 s = Ret a s" by (simp add: argaddr_def argraw_def kprog_simps)
  obtain e bs where c: "copyin (p_pagetable (myproc s)) a (word_of_int sz) s = Ret (e, bs) s" "length bs \<le> 2048"
      "e = 0 \<and> length bs = nat sz \<and> ubytes s (p_pagetable (myproc s)) a (nat sz) = Some bs \<or> e = -1"
    using audio_copy [OF sz(2), of "p_pagetable (myproc s)" a s] False by auto
  show ?thesis
  proof (cases "e = 0")
    case True
    then obtain s' where "write_audio M (replicate n False @ True # replicate 3 False) bs sz s = Ret () s'"
      using write_audio_progress [OF inv _ sz(2), of bs M n] c(3) False by auto
    with c a sz False True show ?thesis by (auto simp: sys_writeDecodedAudio_def kprog_simps)
  next
    case e: False
    with c a sz False show ?thesis by (auto simp: sys_writeDecodedAudio_def kprog_simps)
  qed
qed

text \<open>What is pending is the suffix of what was written that starts at chunk \<open>j\<close>.\<close>

definition pending_from :: "stream \<Rightarrow> uchar list \<Rightarrow> bool" where
  "pending_from st written \<longleftrightarrow> stream_chunked st \<and>
     (\<exists>j. j * chunk_size \<le> length written \<and> stream_pending st = drop (j * chunk_size) written)"

lemma chunks_length: "stream_chunked st \<Longrightarrow> length (fst st) * chunk_size \<le> length (stream_pending st)"
proof -
  have "\<forall>x\<in>set cs. length x = chunk_size \<Longrightarrow> length (concat cs) = length cs * chunk_size" for cs :: "uchar list list"
    by (induction cs) auto
  then show "stream_chunked st \<Longrightarrow> length (fst st) * chunk_size \<le> length (stream_pending st)"
    by (cases st) (simp add: stream_chunked_def stream_pending_def)
qed

lemma pending_write: "pending_from st written \<Longrightarrow> pending_from (stream_write bs st) (written @ bs)"
proof -
  assume "pending_from st written"
  then obtain j where "stream_chunked st" "j * chunk_size \<le> length written" "stream_pending st = drop (j * chunk_size) written"
    by (auto simp: pending_from_def)
  then show ?thesis
    unfolding pending_from_def stream_write_pending by (intro conjI exI [of _ j]) (auto intro: stream_write_chunked)
qed

lemma pending_play:
  assumes "pending_from st written"
  shows "pending_from (stream_play k st) written"
proof -
  obtain j where j: "stream_chunked st" "j * chunk_size \<le> length written" "stream_pending st = drop (j * chunk_size) written"
    using assms by (auto simp: pending_from_def)
  obtain i where i: "i \<le> length (fst st)" "stream_pending (stream_play k st) = drop (i * chunk_size) (stream_pending st)"
    using stream_play_pending(2) [OF j(1)] by blast
  have "i * chunk_size \<le> length (stream_pending st)"
    using chunks_length [OF j(1)] i(1) by (meson le_trans mult_le_mono1)
  with j i stream_play_pending(1) [OF j(1), of k] show ?thesis
    unfolding pending_from_def by (intro conjI exI [of _ "i + j"]) (auto simp: add_mult_distrib)
qed


section \<open>Volume\<close>

lemma c_int_id: "-(2 ^ 31) \<le> x \<Longrightarrow> x < 2 ^ 31 \<Longrightarrow> c_int x = x"
  by (simp add: c_int_def sint_sbintrunc' signed_take_bit_int_eq_self)

lemma volume_register:
  assumes "1 \<le> vol" "vol \<le> maxv" "maxv \<le> 65535"
  defines "k \<equiv> vol * 31 div maxv"
  shows "0 \<le> k" "k \<le> 31" "volume_of_register (register_of_volume vol maxv) maxv = k * maxv div 31"
proof -
  have "vol * 31 \<le> 31 * maxv" using assms(2) by simp
  then have "k \<le> 31 * maxv div maxv" unfolding k_def by (rule zdiv_mono1) (use assms in linarith)
  then show k: "0 \<le> k" "k \<le> 31" using assms(1,2) by (simp_all add: k_def pos_imp_zdiv_nonneg_iff)
  have c: "c_div (c_int (vol * 31)) maxv = k"
    using assms(1-3) by (simp add: c_int_id c_div_nonneg k_def)
  have v: "register_of_volume vol maxv = word_of_int ((31 - k) + (31 - k) * 256)"
    using assms(1) k by (simp add: register_of_volume_def c c_int_id Let_def)
  have r: "uint (register_of_volume vol maxv) = (31 - k) * 257"
    unfolding v uint_word_of_int using k by (subst mod_pos_pos_trivial) auto
  have "uint (register_of_volume vol maxv AND mask 5) = take_bit 5 (uint (register_of_volume vol maxv))"
    by (simp only: take_bit_eq_mask [symmetric] unsigned_take_bit_eq)
  then have "uint (register_of_volume vol maxv AND 0b11111) = ((31 - k) + 32 * (8 * (31 - k))) mod 32"
    by (simp add: r take_bit_eq_mod mask_eq_exp_minus_1 algebra_simps)
  also have "\<dots> = 31 - k" unfolding mod_mult_self2 using k by (intro mod_pos_pos_trivial) auto
  finally have a: "uint (register_of_volume vol maxv AND 0b11111) = 31 - k" .
  have "k * maxv \<le> 31 * 65535" using k assms(1-3) by (intro mult_mono) auto
  then have km: "0 \<le> k * maxv" "k * maxv div 31 < 65536" "0 \<le> k * maxv div 31" "k * maxv < 2147483648"
    using k assms(1,2) by (auto simp: pos_imp_zdiv_nonneg_iff)
  moreover have "\<not> MUTE_VOLUME \<le> register_of_volume vol maxv" using r k by (simp add: word_le_def)
  ultimately show "volume_of_register (register_of_volume vol maxv) maxv = k * maxv div 31"
    using a km assms(1,2) unfolding volume_of_register_def
    by (simp add: c_int_id c_div_nonneg uint_word_of_int mod_pos_pos_trivial)
qed

text \<open>
  C8. Setting a volume and reading it back, on the same scale of at most 65535, returns at most the
  volume set and less by at most one step of the 31-step register plus one.
\<close>

theorem volume_round_trip:
  assumes "1 \<le> vol" "vol \<le> maxv" "maxv \<le> 65535"
  shows "volume_of_register (register_of_volume vol maxv) maxv \<le> vol \<and>
    vol \<le> volume_of_register (register_of_volume vol maxv) maxv + maxv div 31 + 1"
proof -
  let ?k = "vol * 31 div maxv"
  have m: "?k * maxv \<le> vol * 31" "vol * 31 < ?k * maxv + maxv"
    using assms(1,2) by (simp_all add: minus_mod_eq_div_mult [symmetric])
  show ?thesis unfolding volume_register(3) [OF assms] using m by linarith
qed

section \<open>Finishing twice\<close>

lemma queue_tail_end:
  assumes "queue_tail nx p = Some t"
  shows "nx p \<noteq> Some p"
  by (rule queue_tail.raw_induct [where P = "\<lambda>nx p t. nx p \<noteq> Some p", OF _ assms]) (auto split: option.splits)

lemma chain_last: "chain nx h (xs @ [t]) \<Longrightarrow> nx t = None"
  by (induction xs arbitrary: h) auto

lemma queue_tail_cycle:
  assumes "nx' b = Some b" "\<And>x. x \<in> set q \<Longrightarrow> nx' x = nx x" "chain nx (Some h) (q @ [b])"
  shows "queue_tail nx' h = None"
  using assms(2,3)
proof (induction q arbitrary: h)
  case Nil
  then show ?case using queue_tail_end [of nx' b] assms(1) by (cases "queue_tail nx' b") auto
next
  case (Cons x q)
  then obtain y where "nx x = Some y" "h = x" by (cases q) auto
  with Cons show ?case by (subst queue_tail.simps) auto
qed

lemma finish_once:
  assumes "stream_inv s q" "0 < used_size s"
  shows "\<exists>s'. sys_finishWriteAudio M s = Ret 0 s' \<and> queue_inv s' (q @ [buffer_index s]) \<and>
    buffer_index s' = buffer_index s \<and> used_size s' = used_size s"
proof -
  let ?b = "buffer_index s" and ?s = "set_flag (buffer_index s) 3 s"
  have b: "?b < BUFFER_NODE_NUM" "?b \<notin> set q" "queue_inv s q" using assms(1) by (auto simp: stream_inv_def)
  then have "queue_inv ?s q" by (intro queue_inv_node_free [OF b(3,2)]) auto
  from add_sound_node_inv [OF this, of ?b M] b assms(2) show ?thesis
    by (auto simp: sys_finishWriteAudio_def kprog_simps same_nodes_def)
qed


text \<open>
  C9. The size check of \<^verbatim>\<open>writeDecodedAudio\<close> is signed: a negative size passes it, is converted to a
  length of nearly \<open>2 ^ 64\<close>, and the copy overruns the 2049-byte local buffer as soon as 2050 bytes
  of user memory are mapped at the given address.
\<close>

theorem negative_size_overruns:
  assumes sz: "argint 1 s = Ret sz s" "sz < 0" and a: "argaddr 0 s = Ret a s"
    and mapped: "\<forall>i<2050. ubyte s (p_pagetable (myproc s)) (a + of_nat i) \<noteq> None"
  shows "sys_writeDecodedAudio M irqs s = Panic ''stack overwritten''"
proof -
  have "sz \<ge> - (2 ^ 31)"
    using sz(1) sint_ge [where 'a = 32] by (auto simp: argint_def argraw_def kprog_simps)
  then have "uint (word_of_int sz :: 64 word) = sz + 2 ^ 64"
    using sz(2) unfolding uint_word_of_int by (subst mod_add_self2 [symmetric], subst mod_pos_pos_trivial) auto
  then have "2050 \<le> unat (word_of_int sz :: 64 word)"
    using \<open>sz \<ge> - (2 ^ 31)\<close> by (simp add: unat_eq_nat_uint)
  from copyin_prefix [OF mapped this, of "[]"] obtain r bs where
    "copyin (p_pagetable (myproc s)) a (word_of_int sz) s = Ret (r, bs) s" "2050 \<le> length bs"
    by (auto simp: copyin_def)
  with sz a show ?thesis by (simp add: sys_writeDecodedAudio_def kprog_simps)
qed

section \<open>A driver at boot\<close>

text \<open>The state after boot, with a process that runs on the memory \<open>m\<close>.\<close>

definition boot_sound :: "memory \<Rightarrow> unit sound_st" where
  "boot_sound m = disk_st.extend (boot_disk m)
     \<lparr>namba = 0x1000, nabmba = 0x1400, descriptor_list = (\<lambda>_. \<lparr>buffer_pointer = 0, buffer_ctrl_and_len = 0\<rparr>),
      sound_queue_head = None, sound_buffer = (\<lambda>_. \<lparr>flag = 0, next_node = None, node_data = (\<lambda>_. 0)\<rparr>),
      buffer_index = 0, used_size = 0, descriptor_list_addr = 0, sound_buffer_addr = 0\<rparr>"

lemma boot_sound_simps [simp]:
  "mem (boot_sound m) = m" "myproc (boot_sound m) = boot_proc" "used_size (boot_sound m) = 0" "buffer_index (boot_sound m) = 0"
  "sound_queue_head (boot_sound m) = None" "flag (sound_buffer (boot_sound m) i) = 0" "next_node (sound_buffer (boot_sound m) i) = None"
  by (simp_all add: boot_sound_def boot_disk_def boot_io_def boot_file_def boot_pipe_def myproc_def disk_st.defs io_st.defs file_st.defs pipe_st.defs)

lemma boot_stream: "stream_inv (boot_sound m) []"
  by (simp add: stream_inv_def queue_inv_def)

lemma boot_sound_args:
  fixes a :: addr and n :: uint64
  shows "\<exists>m. argaddr 0 (boot_sound m) = Ret a (boot_sound m) \<and> argint 1 (boot_sound m) = Ret (sint (ucast n :: 32 word)) (boot_sound m) \<and>
     (\<forall>x. unat x < 4096 \<longrightarrow> ubyte (boot_sound m) 0x80001000 x \<noteq> None)"
proof -
  obtain m where m: "\<forall>s :: unit sound_st. mem s = m \<and> myproc s = boot_proc \<longrightarrow>
     argaddr 0 s = Ret a s \<and> argint 1 s = Ret (sint (ucast n :: 32 word)) s \<and> (\<forall>x. unat x < 4096 \<longrightarrow> ubyte s 0x80001000 x \<noteq> None)"
    using boot_args [of a n] by blast
  show ?thesis using m [rule_format, of "boot_sound m"] by auto
qed

theorem negative_size_overruns_witness:
  "\<exists>s :: unit sound_st. sys_writeDecodedAudio quiet [] s = Panic ''stack overwritten''"
proof -
  obtain m where m: "argaddr 0 (boot_sound m) = Ret 0 (boot_sound m)" "argint 1 (boot_sound m) = Ret (-1) (boot_sound m)"
    "\<forall>x. unat x < 4096 \<longrightarrow> ubyte (boot_sound m) 0x80001000 x \<noteq> None"
    using boot_sound_args [of 0 "0xFFFFFFFF"] by auto
  have "p_pagetable (myproc (boot_sound m)) = 0x80001000" by (simp add: boot_proc_def)
  moreover have "\<forall>i<2050. unat (0 + of_nat i :: addr) < 4096" by (simp add: unat_of_nat)
  ultimately show ?thesis
    using negative_size_overruns [OF m(2) _ m(1), of quiet "[]"] m(3) by auto
qed

lemma boot_three:
  obtains s :: "unit sound_st" and bs where "stream_inv s []" "argint 1 s = Ret 3 s" "argaddr 0 s = Ret 0 s"
    "copyin (p_pagetable (myproc s)) 0 3 s = Ret (0, bs) s" "used_size s = 0"
proof -
  obtain m where m: "argaddr 0 (boot_sound m) = Ret 0 (boot_sound m)" "argint 1 (boot_sound m) = Ret 3 (boot_sound m)"
    "\<forall>x. unat x < 4096 \<longrightarrow> ubyte (boot_sound m) 0x80001000 x \<noteq> None"
    using boot_sound_args [of 0 3] by auto
  let ?s = "boot_sound m"
  have pt: "p_pagetable (myproc ?s) = 0x80001000" by (simp add: boot_proc_def)
  have "\<forall>i<unat (3 :: addr). ubyte ?s 0x80001000 (0 + of_nat i) \<noteq> None" using m(3) by (simp add: unat_of_nat)
  then obtain bs where "copyin (p_pagetable (myproc ?s)) 0 3 ?s = Ret (0, bs) ?s"
    using copyin_mapped pt by metis
  then show thesis by (rule that [OF boot_stream m(2,1)]) simp
qed

theorem writeDecodedAudio_stream_witness:
  "\<exists>s s' :: unit sound_st. \<exists>bs k q'. sys_writeDecodedAudio quiet [] s = Ret 0 s' \<and>
     ubytes s (p_pagetable (myproc s)) 0 3 = Some bs \<and> stream_inv s' q' \<and>
     stream_of s' q' = stream_play k (stream_write bs (stream_of s []))"
proof -
  obtain s :: "unit sound_st" and bs where s: "stream_inv s []" "argint 1 s = Ret 3 s" "argaddr 0 s = Ret 0 s"
    "copyin (p_pagetable (myproc s)) 0 3 s = Ret (0, bs) s" "used_size s = 0" by (rule boot_three)
  have "length bs = 3" using length_ubytes [OF copyin_ubytes [OF s(4)]] by simp
  with s obtain s' where r: "sys_writeDecodedAudio quiet [] s = Ret 0 s'"
    by (auto simp: sys_writeDecodedAudio_def kprog_simps write_audio_def)
  obtain bs k q' where "ubytes s (p_pagetable (myproc s)) 0 3 = Some bs" "stream_inv s' q'"
    "stream_of s' q' = stream_play k (stream_write bs (stream_of s []))"
    using writeDecodedAudio_stream [OF s(1,2) _ s(3) r] by auto
  with r show ?thesis by (intro exI conjI)
qed

theorem writeDecodedAudio_returns_witness:
  "\<exists>s s' :: unit sound_st. \<exists>r. stream_inv s [] \<and>
     sys_writeDecodedAudio quiet [False, True, False, False, False] s = Ret r s'"
proof -
  obtain s :: "unit sound_st" and bs where s: "stream_inv s []" "argint 1 s = Ret 3 s" by (rule boot_three)
  obtain r s' where "sys_writeDecodedAudio quiet [False, True, False, False, False] s = Ret r s'"
    using writeDecodedAudio_returns [OF s, of quiet 1] by (auto simp: numeral_3_eq_3)
  with s(1) show ?thesis by (intro exI conjI)
qed


theorem volume_round_trip_witness:
  "volume_of_register (register_of_volume 40 100) 100 \<le> 40 \<and>
   40 \<le> volume_of_register (register_of_volume 40 100) 100 + 100 div 31 + 1"
  by (rule volume_round_trip) simp_all


end
