(* ===== verification/Syscall.thy ===== *)
theory Syscall
  imports SysFile Console Sound
begin

text \<open>
  The process system calls of \<^verbatim>\<open>kernel/sysproc.c\<close> and the dispatcher of \<^verbatim>\<open>kernel/syscall.c\<close>. A call returns a value for \<^verbatim>\<open>a0\<close>, or leaves
  the process asleep with the progress to resume from, or ends the process. A call that sleeps inside a loop of its own is resumed
  by calling it again with that progress; its arguments are in the trapframe, unchanged.
\<close>

datatype sysres = Done uint64 | Asleep nat | Gone

definition ret_int :: "('s, int) kprog \<Rightarrow> ('s, sysres) kprog" where
  "ret_int m = kbind m (\<lambda>r. kret (Done (word_of_int r)))"

definition ret_sum :: "('s, nat + int) kprog \<Rightarrow> ('s, sysres) kprog" where
  "ret_sum m = kbind m (\<lambda>r. kret (case r of Inl i \<Rightarrow> Asleep i | Inr v \<Rightarrow> Done (word_of_int v)))"

section \<open>Process system calls\<close>

definition sys_exit :: "('z file_st_scheme, sysres) kprog" where
  "sys_exit = kbind (argint 0) (\<lambda>n. kthen (exit n) (kret Gone))"

definition sys_getpid :: "('z proc_st_scheme, sysres) kprog" where
  "sys_getpid = ret_int (kget (\<lambda>s. p_pid (myproc s)))"

definition sys_fork :: "ksyms \<Rightarrow> ('z file_st_scheme, sysres) kprog" where
  "sys_fork K = ret_int (fork K)"

definition sys_wait :: "('z proc_st_scheme, sysres) kprog" where
  "sys_wait = kbind (argaddr 0) (\<lambda>p. kbind (wait p) (\<lambda>r.
     kret (case r of None \<Rightarrow> Asleep 0 | Some v \<Rightarrow> Done (word_of_int v))))"

text \<open>The old size is kept in an \<^verbatim>\<open>int\<close>.\<close>

definition sys_sbrk :: "('z proc_st_scheme, sysres) kprog" where
  "sys_sbrk = kbind (argint 0) (\<lambda>n.
     kbind (kget (\<lambda>s. sint (ucast (p_sz (myproc s)) :: uint))) (\<lambda>addr.
     kbind (growproc n) (\<lambda>r. kret (Done (word_of_int (if r < 0 then -1 else addr))))))"

text \<open>\<^verbatim>\<open>ticks - ticks0 < n\<close> is an unsigned comparison.\<close>

definition sys_sleep :: "uint option \<Rightarrow> (('d, 'z) io_st_scheme, sysres) kprog" where
  "sys_sleep resumed = kbind (argint 0) (\<lambda>n s.
     let ticks0 = (case resumed of None \<Rightarrow> ticks s | Some t \<Rightarrow> t) in
     if ticks s - ticks0 < word_of_int n then
       if p_killed (myproc s) \<noteq> 0 then Ret (Done (-1)) s
       else Ret (Asleep (unat ticks0)) (go_to_sleep ChTicks s)
     else Ret (Done 0) s)"

definition sys_kill :: "('z proc_st_scheme, sysres) kprog" where
  "sys_kill = kbind (argint 0) (\<lambda>pid. ret_int (kill pid))"

definition sys_uptime :: "(('d, 'z) io_st_scheme, sysres) kprog" where
  "sys_uptime = kget (\<lambda>s. Done (ucast (ticks s)))"

section \<open>The dispatcher\<close>

text \<open>
  The environment of a call: the linker's addresses, the devices, the bytes that pad a \<^verbatim>\<open>struct stat\<close>, the interrupts that arrive while audio is
  written, and the progress of a call that was asleep.
\<close>

record 'd sysenv =
  e_syms :: ksyms
  e_mmio :: "'d mmio"
  e_pad :: cptr
  e_irqs :: "bool list"
  e_resume :: "nat option"

definition progress :: "'d sysenv \<Rightarrow> nat" where
  "progress E = (case e_resume E of None \<Rightarrow> 0 | Some i \<Rightarrow> i)"

definition syscalls :: "'d sysenv \<Rightarrow> (('d, 'z) sound_st_scheme, sysres) kprog list" where
  "syscalls E =
    [sys_fork (e_syms E), sys_exit, sys_wait, ret_int sys_pipe,
     ret_sum (sys_read (console_devsw (e_mmio E)) (progress E)), sys_kill, ret_int (sys_exec (e_syms E)), ret_int (sys_fstat (e_pad E)),
     ret_int sys_chdir, ret_int sys_dup, sys_getpid, sys_sbrk, sys_sleep (map_option of_nat (e_resume E)), sys_uptime, ret_int sys_open,
     ret_sum (sys_write (console_devsw (e_mmio E)) (progress E)), ret_int sys_mknod, ret_int sys_unlink, ret_int sys_link,
     ret_int sys_mkdir, ret_int sys_close, ret_int (sys_setSampleRate (e_mmio E)), ret_int (sys_getVolume (e_mmio E)),
     ret_int (sys_setVolume (e_mmio E)), ret_int (sys_setPlay (e_mmio E)), ret_int (sys_writeDecodedAudio (e_mmio E) (e_irqs E)),
     ret_int (sys_clearSoundCardBuffer (e_mmio E)), ret_int (sys_finishWriteAudio (e_mmio E))]"

text \<open>The number in \<^verbatim>\<open>a7\<close> is truncated to an \<^verbatim>\<open>int\<close>; slot 0 of the table is empty.\<close>

definition syscall :: "'d sysenv \<Rightarrow> (('d, 'z) sound_st_scheme, sysres) kprog" where
  "syscall E = (\<lambda>s.
     let num = sint (ucast (read64 (mem s) (p_trapframe (myproc s) + tf_a7)) :: 32 word) in
     if num > 0 \<and> num < 29 then
       kbind (syscalls E ! (nat num - 1)) (\<lambda>r. case r of
         Done v \<Rightarrow> kthen (kmod (\<lambda>s. set_tf (cur s) tf_a0 v s)) (kret r) | _ \<Rightarrow> kret r) s
     else
       kthen (printf (e_mmio E) (chars ''%d %s: unknown sys call %d'' @ [10])
         [ANum (word_of_int (p_pid (myproc s))), AStr (Some (cname 16 (p_name (myproc s)))), ANum (word_of_int num)])
      (kthen (kmod (\<lambda>s. set_tf (cur s) tf_a0 (-1) s)) (kret (Done (-1)))) s)"

end
