(* ===== verification/Trap.thy ===== *)
theory Trap
  imports Syscall
begin

text \<open>
  Traps, \<^verbatim>\<open>kernel/trap.c\<close>, the kernel page table of \<^verbatim>\<open>kernel/vm.c\<close>, and the boot sequence, \<^verbatim>\<open>kernel/main.c\<close>. The state gets the supervisor
  control registers of the hart that runs.
\<close>

record 'd trap_st = "'d sound_st" +
  stvec :: uint64
  sepc :: uint64
  scause :: uint64
  stval :: uint64
  sstatus :: uint64
  sip :: uint64
  satp :: uint64
  tp :: uint64
  kernel_pagetable :: addr

abbreviation KERNBASE :: addr where "KERNBASE \<equiv> 0x80000000"
abbreviation SSTATUS_SPP :: uint64 where "SSTATUS_SPP \<equiv> 0x100"
abbreviation SSTATUS_SPIE :: uint64 where "SSTATUS_SPIE \<equiv> 0x20"
abbreviation SSTATUS_SIE :: uint64 where "SSTATUS_SIE \<equiv> 2"

definition MAKE_SATP :: "addr \<Rightarrow> uint64" where
  "MAKE_SATP pagetable = push_bit 60 8 OR drop_bit 12 pagetable"

definition intr_on :: "('d, 'z) trap_st_scheme \<Rightarrow> ('d, 'z) trap_st_scheme" where
  "intr_on s = s\<lparr>sstatus := sstatus s OR SSTATUS_SIE\<rparr>"

definition intr_off :: "('d, 'z) trap_st_scheme \<Rightarrow> ('d, 'z) trap_st_scheme" where
  "intr_off s = s\<lparr>sstatus := sstatus s AND NOT SSTATUS_SIE\<rparr>"

definition intr_get :: "('d, 'z) trap_st_scheme \<Rightarrow> bool" where
  "intr_get s = (sstatus s AND SSTATUS_SIE \<noteq> 0)"

definition cpuid :: "('d, 'z) trap_st_scheme \<Rightarrow> nat" where
  "cpuid s = unat (tp s)"

definition trapinithart :: "ksyms \<Rightarrow> (('d, 'z) trap_st_scheme, unit) kprog" where
  "trapinithart K = kmod (\<lambda>s. s\<lparr>stvec := ks_kernelvec K\<rparr>)"

section \<open>Interrupts\<close>

definition clockintr :: "('d, 'z) io_st_scheme \<Rightarrow> ('d, 'z) io_st_scheme" where
  "clockintr s = wakeup ChTicks (s\<lparr>ticks := ticks s + 1\<rparr>)"

definition devintr :: "'d mmio \<Rightarrow> (('d, 'z) trap_st_scheme, nat) kprog" where
  "devintr M = (\<lambda>s.
     if scause s AND 0x8000000000000000 \<noteq> 0 \<and> scause s AND 0xff = 9 then
       kbind (plic_claim M (cpuid s)) (\<lambda>irq.
         kthen (if irq = of_nat UART0_IRQ then uartintr M
                else if irq = of_nat VIRTIO0_IRQ then virtio_disk_intr M
                else if irq = of_nat PCI_IRQ then soundintr M
                else if irq \<noteq> 0 then printf M (chars ''unexpected interrupt irq=%d'' @ [10]) [ANum (ucast irq)]
                else kret ())
        (kthen (if irq \<noteq> 0 then plic_complete M (cpuid s) irq else kret ()) (kret 1))) s
     else if scause s = 0x8000000000000001 then
       kthen (kmod (\<lambda>s. if cpuid s = 0 then clockintr s else s))
      (kthen (kmod (\<lambda>s. s\<lparr>sip := sip s AND NOT 2\<rparr>)) (kret 2)) s
     else Ret 0 s)"

section \<open>Traps from user space\<close>

abbreviation tf_kernel_satp :: addr where "tf_kernel_satp \<equiv> 0"
abbreviation tf_kernel_sp :: addr where "tf_kernel_sp \<equiv> 8"
abbreviation tf_kernel_trap :: addr where "tf_kernel_trap \<equiv> 16"
abbreviation tf_kernel_hartid :: addr where "tf_kernel_hartid \<equiv> 32"

text \<open>The two arguments that \<^verbatim>\<open>userret\<close> in the trampoline is called with.\<close>

definition usertrapret :: "ksyms \<Rightarrow> (('d, 'z) trap_st_scheme, addr \<times> uint64) kprog" where
  "usertrapret K =
     kthen (kmod intr_off)
    (kthen (kmod (\<lambda>s. s\<lparr>stvec := TRAMPOLINE + (ks_uservec K - ks_trampoline K)\<rparr>))
    (kthen (kmod (\<lambda>s. set_tf (cur s) tf_kernel_satp (satp s) s))
    (kthen (kmod (\<lambda>s. set_tf (cur s) tf_kernel_sp (p_kstack (myproc s) + PGSIZE) s))
    (kthen (kmod (\<lambda>s. set_tf (cur s) tf_kernel_trap (ks_usertrap K) s))
    (kthen (kmod (\<lambda>s. set_tf (cur s) tf_kernel_hartid (tp s) s))
    (kthen (kmod (\<lambda>s. s\<lparr>sstatus := (sstatus s AND NOT SSTATUS_SPP) OR SSTATUS_SPIE\<rparr>))
    (kthen (kmod (\<lambda>s. s\<lparr>sepc := read64 (mem s) (p_trapframe (myproc s) + tf_epc)\<rparr>))
           (kget (\<lambda>s. (TRAPFRAME, MAKE_SATP (p_pagetable (myproc s))))))))))))"

text \<open>
  How a trap ends: back in user space, with the process off the CPU because the call sleeps or the time slice is over, or with
  the process gone. A process that comes back to the CPU runs the rest of its call, if any, and \<^verbatim>\<open>usertrapret\<close>.
\<close>

datatype trapres = ToUser addr uint64 | Suspended nat | Yielded | Exited

definition usertrap_tail :: "ksyms \<Rightarrow> nat \<Rightarrow> (('d, 'z) trap_st_scheme, trapres) kprog" where
  "usertrap_tail K which_dev = (\<lambda>s.
     if p_killed (myproc s) \<noteq> 0 then kthen (exit (-1)) (kret Exited) s
     else if which_dev = 2 then kthen yield (kret Yielded) s
     else kbind (usertrapret K) (\<lambda>(a, v). kret (ToUser a v)) s)"

definition usertrap :: "'d sysenv \<Rightarrow> (('d, 'z) trap_st_scheme, trapres) kprog" where
  "usertrap E = (\<lambda>s.
     if sstatus s AND SSTATUS_SPP \<noteq> 0 then Panic ''usertrap: not from user mode''
     else
       kthen (kmod (\<lambda>s. s\<lparr>stvec := ks_kernelvec (e_syms E)\<rparr>))
      (kthen (kmod (\<lambda>s. set_tf (cur s) tf_epc (sepc s) s))
       (\<lambda>s. if scause s = 8 then
          if p_killed (myproc s) \<noteq> 0 then kthen (exit (-1)) (kret Exited) s
          else
            kthen (kmod (\<lambda>s. set_tf (cur s) tf_epc (read64 (mem s) (p_trapframe (myproc s) + tf_epc) + 4) s))
           (kthen (kmod intr_on)
           (kbind (syscall E) (\<lambda>r. case r of
              Done _ \<Rightarrow> usertrap_tail (e_syms E) 0
            | Asleep i \<Rightarrow> kret (Suspended i)
            | Gone \<Rightarrow> kret Exited))) s
        else
          kbind (devintr (e_mmio E)) (\<lambda>which_dev.
            if which_dev \<noteq> 0 then usertrap_tail (e_syms E) which_dev
            else (\<lambda>s.
              kthen (printf (e_mmio E) (chars ''usertrap(): unexpected scause %p pid=%d'' @ [10])
                       [ANum (scause s), ANum (word_of_int (p_pid (myproc s)))])
             (kthen (printf (e_mmio E) (chars ''            sepc=%p stval=%p'' @ [10]) [ANum (sepc s), ANum (stval s)])
             (kthen (kmod (\<lambda>s. upd_proc (cur s) (\<lambda>x. x\<lparr>p_killed := 1\<rparr>) s))
                    (usertrap_tail (e_syms E) 0))) s)) s)) s)"

section \<open>Traps from the kernel\<close>

definition kerneltrap :: "'d mmio \<Rightarrow> (('d, 'z) trap_st_scheme, unit) kprog" where
  "kerneltrap M = (\<lambda>s.
     let sepc0 = sepc s; sstatus0 = sstatus s in
     if sstatus s AND SSTATUS_SPP = 0 then Panic ''kerneltrap: not from supervisor mode''
     else if intr_get s then Panic ''kerneltrap: interrupts enabled''
     else
       kbind (devintr M) (\<lambda>which_dev.
         if which_dev = 0 then
           kthen (printf M (chars ''scause %p'' @ [10]) [ANum (scause s)])
          (kthen (\<lambda>s. printf M (chars ''sepc=%p stval=%p'' @ [10]) [ANum (sepc s), ANum (stval s)] s)
                 (kpanic ''kerneltrap''))
         else
           kthen (\<lambda>s. if which_dev = 2 \<and> cur s < NPROC \<and> p_state (myproc s) = RUNNING then yield s else Ret () s)
                 (kmod (\<lambda>s. s\<lparr>sepc := sepc0, sstatus := sstatus0\<rparr>))) s)"

section \<open>The kernel page table\<close>

definition kvmmake :: "ksyms \<Rightarrow> ('z proc_st_scheme, addr) kprog" where
  "kvmmake K =
     kbind kalloc (\<lambda>kpgtbl.
     kthen (kmod (\<lambda>s. s\<lparr>mem := memset kpgtbl 0 4096 (mem s)\<rparr>))
    (kthen (kvmmap kpgtbl 0x3000000 0x3000000 0x10000 (PTE_R OR PTE_W))
    (kthen (kvmmap kpgtbl 0x40000000 0x40000000 0x40000000 (PTE_R OR PTE_W))
    (kthen (kvmmap kpgtbl 0x10000000 0x10000000 PGSIZE (PTE_R OR PTE_W))
    (kthen (kvmmap kpgtbl VIRTIO0 VIRTIO0 PGSIZE (PTE_R OR PTE_W))
    (kthen (kvmmap kpgtbl PLIC PLIC 0x400000 (PTE_R OR PTE_W))
    (kthen (kvmmap kpgtbl KERNBASE KERNBASE (ks_etext K - KERNBASE) (PTE_R OR PTE_X))
    (kthen (kvmmap kpgtbl (ks_etext K) (ks_etext K) (PHYSTOP - ks_etext K) (PTE_R OR PTE_W))
    (kthen (kvmmap kpgtbl TRAMPOLINE (ks_trampoline K) PGSIZE (PTE_R OR PTE_X))
    (kthen (kvmmap kpgtbl 0x30000000 0x30000000 0x10000000 (PTE_R OR PTE_W))
    (kthen (proc_mapstacks kpgtbl) (kret kpgtbl))))))))))))"

definition kvminit :: "ksyms \<Rightarrow> (('d, 'z) trap_st_scheme, unit) kprog" where
  "kvminit K = kbind (kvmmake K) (\<lambda>r. kmod (\<lambda>s. s\<lparr>kernel_pagetable := r\<rparr>))"

definition kvminithart :: "(('d, 'z) trap_st_scheme, unit) kprog" where
  "kvminithart = kmod (\<lambda>s. s\<lparr>satp := MAKE_SATP (kernel_pagetable s)\<rparr>)"

section \<open>Boot\<close>

text \<open>
  What hart 0 does before the scheduler; \<^verbatim>\<open>trapinit\<close> and \<^verbatim>\<open>fileinit\<close> only set up locks. The other harts wait for it and then run
  \<open>main_other\<close>.
\<close>

definition main_first :: "ksyms \<Rightarrow> 'd mmio \<Rightarrow> (('d, 'z) trap_st_scheme, unit) kprog" where
  "main_first K M =
     kthen (consoleinit M)
    (kthen printfinit
    (kthen (printf M [10] [])
    (kthen (printf M (chars ''xv6 kernel is booting'' @ [10]) [])
    (kthen (printf M [10] [])
    (kthen kinit
    (kthen (kvminit K)
    (kthen kvminithart
    (kthen procinit
    (kthen (trapinithart K)
    (kthen (plicinit M)
    (kthen (\<lambda>s. plicinithart M (cpuid s) s)
    (kthen binit
    (kthen iinit
    (kthen (virtio_disk_init M)
    (kthen (pci_init M)
           (userinit K))))))))))))))))"

definition main_other :: "ksyms \<Rightarrow> 'd mmio \<Rightarrow> (('d, 'z) trap_st_scheme, unit) kprog" where
  "main_other K M =
     kthen (\<lambda>s. printf M (chars ''hart %d starting'' @ [10]) [ANum (of_nat (cpuid s))] s)
    (kthen kvminithart
    (kthen (trapinithart K)
           (\<lambda>s. plicinithart M (cpuid s) s)))"

text \<open>The first return of a process to user space; \<open>first\<close> is the static variable.\<close>

definition forkret :: "ksyms \<Rightarrow> bool \<Rightarrow> (('d, 'z) trap_st_scheme, addr \<times> uint64) kprog" where
  "forkret K first = kthen (if first then fsinit ROOTDEV else kret ()) (usertrapret K)"

end
