(* ===== verification/Spec2Isabelle.thy ===== *)
theory Spec2Isabelle
  imports Spinlock Trap
begin

text \<open>Root.\<close>

end
